(* ===== verification/Mx_Prelude.thy ===== *)
theory Mx_Prelude
  imports Main "HOL-Library.Word" "HOL-Library.Monad_Syntax"
begin

text \<open>
  What every component of the development shares: the names of the C integer types, the
  truncations C performs when a value is stored in a narrower integer, the reading of undefined
  behaviour as \<open>None\<close>, and the collections of facts the component proofs draw on.

  A definition that models a C function returns \<open>'a option\<close> when the function can run into
  undefined behaviour (an access outside an object, a null dereference, a division by zero) or
  into a loop that does not end: that is the value \<open>None\<close>. A null \<^emph>\<open>pointer\<close> is an
  ordinary value of C and is the \<open>None\<close> of the pointer's own type, so an allocator returns
  \<open>(addr option \<times> state) option\<close>. A theorem that an operation is safe is a theorem that it
  yields \<open>Some\<close>.
\<close>

section \<open>Integer types of the source\<close>

type_synonym u8 = "8 word"
type_synonym u16 = "16 word"
type_synonym u32 = "32 word"
type_synonym u64 = "64 word"

text \<open>
  Indices and lengths are kept as \<open>nat\<close> with the truncation of a store into \<open>uint16_t\<close>
  written out; masks, counters and checksums are words.
\<close>

definition trunc16 :: "nat \<Rightarrow> nat" where
  "trunc16 n = n mod 2 ^ 16"

definition sub16 :: "nat \<Rightarrow> nat \<Rightarrow> nat" where
  "sub16 a b = nat ((int a - int b) mod 2 ^ 16)"

named_theorems c_arith \<open>how the truncations of C behave inside their range\<close>
named_theorems frame \<open>what an operation leaves unchanged\<close>

lemma trunc16_id [c_arith]: "n < 65536 \<Longrightarrow> trunc16 n = n"
  by (simp add: trunc16_def)

lemma trunc16_less: "trunc16 n < 65536"
  by (simp add: trunc16_def)

lemma sub16_id [c_arith]: "b \<le> a \<Longrightarrow> a < 65536 \<Longrightarrow> sub16 a b = a - b"
  by (simp add: sub16_def nat_diff_distrib)

section \<open>Array accesses\<close>

text \<open>Reading and writing an array of known length: outside of it the access is undefined.\<close>

definition rd :: "'a list \<Rightarrow> nat \<Rightarrow> 'a option" where
  "rd xs i = (if i < length xs then Some (xs ! i) else None)"

definition wr :: "'a list \<Rightarrow> nat \<Rightarrow> 'a \<Rightarrow> 'a list option" where
  "wr xs i v = (if i < length xs then Some (xs[i := v]) else None)"

lemma rd_in [simp]: "i < length xs \<Longrightarrow> rd xs i = Some (xs ! i)"
  by (simp add: rd_def)

lemma wr_in [simp]: "i < length xs \<Longrightarrow> wr xs i v = Some (xs[i := v])"
  by (simp add: wr_def)

lemma rd_eq_Some: "rd xs i = Some v \<longleftrightarrow> i < length xs \<and> v = xs ! i"
  by (auto simp: rd_def)

lemma wr_eq_Some: "wr xs i v = Some ys \<longleftrightarrow> i < length xs \<and> ys = xs[i := v]"
  by (auto simp: wr_def)

section \<open>Generic lemmas\<close>

lemma last_in_set': "xs \<noteq> [] \<Longrightarrow> last xs \<in> set xs"
  by simp

lemma snoc_cases: "xs = [] \<or> (\<exists>ys y. xs = ys @ [y])"
  by (cases xs rule: rev_cases) auto

section \<open>What a protothread returns\<close>

text \<open>The return values of \<open>pthread/pt.h\<close>.\<close>

abbreviation (input) PT_WAITING :: int where "PT_WAITING \<equiv> 0"
abbreviation (input) PT_YIELDED :: int where "PT_YIELDED \<equiv> 1"
abbreviation (input) PT_EXITED :: int where "PT_EXITED \<equiv> 2"
abbreviation (input) PT_ENDED :: int where "PT_ENDED \<equiv> 3"

end
