(* ===== verification/Mx_Interfaces.thy ===== *)
theory Mx_Interfaces
  imports Mx_Prelude
begin

text \<open>
  The contracts between the components, as locales. A client's lemmas are proved once inside the
  locale, from the laws alone; the component that provides the operations interprets the locale on
  its own definitions.
\<close>

section \<open>A pool of chunks\<close>

text \<open>
  What the message layer asks of an allocator: on a well-formed pool an allocation is defined, a
  failed one changes nothing, a successful one returns a chunk that was not live and keeps every
  live chunk live; releasing a live chunk is defined and takes exactly that chunk out of the live
  ones.
\<close>

locale chunk_allocator =
  fixes ok :: "'s \<Rightarrow> bool"
    and live :: "'s \<Rightarrow> nat set"
    and malloc :: "'s \<Rightarrow> nat \<Rightarrow> (nat option \<times> 's) option"
    and free :: "'s \<Rightarrow> nat option \<Rightarrow> 's option"
  assumes malloc_total: "ok s \<Longrightarrow> \<exists>r. malloc s n = Some r"
    and malloc_null: "ok s \<Longrightarrow> malloc s n = Some (None, s') \<Longrightarrow> s' = s"
    and malloc_chunk: "ok s \<Longrightarrow> malloc s n = Some (Some p, s') \<Longrightarrow>
          ok s' \<and> p \<notin> live s \<and> p \<in> live s' \<and> live s \<subseteq> live s'"
    and free_null: "free s None = Some s"
    and free_chunk: "ok s \<Longrightarrow> p \<in> live s \<Longrightarrow>
          \<exists>s'. free s (Some p) = Some s' \<and> ok s' \<and> live s' = live s - {p}"
begin

text \<open>The client's view: it owns a set of chunks, all of them live.\<close>

definition owns :: "'s \<Rightarrow> nat set \<Rightarrow> bool" where
  "owns s H \<longleftrightarrow> ok s \<and> H \<subseteq> live s"

lemma owns_mono: "owns s H \<Longrightarrow> H' \<subseteq> H \<Longrightarrow> owns s H'"
  by (auto simp: owns_def)

lemma owns_malloc:
  assumes "owns s H"
  obtains (null) "malloc s n = Some (None, s)"
    | (chunk) p s' where "malloc s n = Some (Some p, s')" "p \<notin> H" "owns s' (insert p H)"
proof -
  from assms malloc_total [of s n] obtain q s' where m: "malloc s n = Some (q, s')"
    by (auto simp: owns_def)
  show ?thesis
  proof (cases q)
    case None
    with m malloc_null assms null show ?thesis by (auto simp: owns_def)
  next
    case (Some p)
    with m malloc_chunk [of s n p s'] assms show ?thesis
      by (intro chunk [of p s']) (auto simp: owns_def)
  qed
qed

lemma owns_free:
  assumes "owns s H" "p \<in> H"
  obtains s' where "free s (Some p) = Some s'" "owns s' (H - {p})"
  using assms free_chunk [of s p] by (auto simp: owns_def)

end

section \<open>First-in first-out lists of linked objects\<close>

text \<open>
  What a client of an intrusive list relies on. \<open>repr h l xs\<close> says that in the heap \<open>h\<close> the
  list structure \<open>l\<close> holds the objects \<open>xs\<close>, oldest first. Several lists live in one heap, so
  the laws of the operation that writes objects carry a frame: a list none of whose objects is
  touched still holds what it held.
\<close>

locale linked_fifo =
  fixes repr :: "'h \<Rightarrow> 'l \<Rightarrow> nat list \<Rightarrow> bool"
    and empty :: "'l"
    and push :: "'h \<Rightarrow> 'l \<Rightarrow> nat \<Rightarrow> nat \<times> 'h \<times> 'l"
    and pop :: "'h \<Rightarrow> 'l \<Rightarrow> nat option \<times> 'l"
    and peek :: "'l \<Rightarrow> nat option"
    and len :: "'l \<Rightarrow> nat"
  assumes repr_empty: "repr h empty []"
    and repr_distinct: "repr h l xs \<Longrightarrow> distinct xs"
    and push_repr: "repr h l xs \<Longrightarrow> p \<notin> set xs \<Longrightarrow> push h l p = (r, h', l') \<Longrightarrow>
          r = p \<and> repr h' l' (xs @ [p])"
    and push_frame: "repr h l xs \<Longrightarrow> push h l p = (r, h', l') \<Longrightarrow> repr h m ys \<Longrightarrow>
          set ys \<inter> insert p (set xs) = {} \<Longrightarrow> repr h' m ys"
    and pop_repr: "repr h l (x # xs) \<Longrightarrow> \<exists>l'. pop h l = (Some x, l') \<and> repr h l' xs"
    and pop_empty: "repr h l [] \<Longrightarrow> pop h l = (None, l)"
    and peek_repr: "repr h l xs \<Longrightarrow> peek l = (case xs of [] \<Rightarrow> None | x # _ \<Rightarrow> Some x)"
    and len_repr: "repr h l xs \<Longrightarrow> len l = length xs"
begin

text \<open>A family of lists over disjoint sets of objects, indexed by a priority.\<close>

definition family :: "nat \<Rightarrow> 'h \<Rightarrow> (nat \<Rightarrow> 'l) \<Rightarrow> (nat \<Rightarrow> nat list) \<Rightarrow> bool" where
  "family n h ls xss \<longleftrightarrow> (\<forall>i<n. repr h (ls i) (xss i)) \<and>
     (\<forall>i<n. \<forall>j<n. i \<noteq> j \<longrightarrow> set (xss i) \<inter> set (xss j) = {})"

definition members :: "nat \<Rightarrow> (nat \<Rightarrow> nat list) \<Rightarrow> nat set" where
  "members n xss = (\<Union>i\<in>{..<n}. set (xss i))"

lemma members_iff: "p \<in> members n xss \<longleftrightarrow> (\<exists>i<n. p \<in> set (xss i))"
  by (auto simp: members_def)

lemma family_empty: "family n h (\<lambda>_. empty) (\<lambda>_. [])"
  by (simp add: family_def repr_empty)

lemma family_repr: "family n h ls xss \<Longrightarrow> i < n \<Longrightarrow> repr h (ls i) (xss i)"
  by (simp add: family_def)

lemma family_peek:
  "family n h ls xss \<Longrightarrow> i < n \<Longrightarrow> peek (ls i) = (case xss i of [] \<Rightarrow> None | x # _ \<Rightarrow> Some x)"
  by (rule peek_repr) (rule family_repr)

lemma family_push:
  assumes fam: "family n h ls xss" and i: "i < n" and p: "p \<notin> members n xss"
    and push: "push h (ls i) p = (r, h', l')"
  shows "r = p \<and> family n h' (ls(i := l')) (xss(i := xss i @ [p]))"
proof -
  note ri = family_repr [OF fam i]
  from p i have "p \<notin> set (xss i)" by (auto simp: members_def)
  note own = push_repr [OF ri this push]
  have other: "repr h' (ls j) (xss j)" if j: "j < n" "j \<noteq> i" for j
  proof (rule push_frame [OF ri push family_repr [OF fam j(1)]])
    from fam i j p show "set (xss j) \<inter> insert p (set (xss i)) = {}"
      by (auto simp: family_def members_def)
  qed
  have "set ((xss(i := xss i @ [p])) j) \<inter> set ((xss(i := xss i @ [p])) k) = {}"
    if "j < n" "k < n" "j \<noteq> k" for j k
    using fam i p that by (auto simp: family_def members_def)
  with own other show ?thesis by (simp add: family_def)
qed

lemma family_pop:
  assumes fam: "family n h ls xss" and i: "i < n" and x: "xss i = x # xs"
  shows "\<exists>l'. pop h (ls i) = (Some x, l') \<and> family n h (ls(i := l')) (xss(i := xs))"
proof -
  from pop_repr family_repr [OF fam i] x obtain l' where "pop h (ls i) = (Some x, l')" "repr h l' xs"
    by metis
  moreover from this fam x have "family n h (ls(i := l')) (xss(i := xs))"
    by (fastforce simp: family_def)
  ultimately show ?thesis by blast
qed

lemma family_pop_empty: "family n h ls xss \<Longrightarrow> i < n \<Longrightarrow> xss i = [] \<Longrightarrow> pop h (ls i) = (None, ls i)"
  using family_repr pop_empty by metis

end

section \<open>A bounded queue of bytes\<close>

text \<open>
  What a driver relies on when it exchanges bytes through a buffer: a queue of a fixed capacity
  that refuses a byte only when it is full and hands bytes out in the order it accepted them.
\<close>

locale byte_fifo =
  fixes ok :: "'s \<Rightarrow> bool"
    and cap :: "'s \<Rightarrow> nat"
    and contents :: "'s \<Rightarrow> u8 list"
    and put :: "'s \<Rightarrow> u8 \<Rightarrow> (bool \<times> 's) option"
    and get :: "'s \<Rightarrow> (u8 option \<times> 's) option"
  assumes put_fifo: "ok s \<Longrightarrow> \<exists>s'. put s c = Some (length (contents s) < cap s, s') \<and> ok s' \<and>
        cap s' = cap s \<and>
        contents s' = (if length (contents s) < cap s then contents s @ [c] else contents s)"
    and get_fifo: "ok s \<Longrightarrow> \<exists>s'. get s = Some (case contents s of [] \<Rightarrow> None | c # _ \<Rightarrow> Some c, s') \<and>
        ok s' \<and> cap s' = cap s \<and> contents s' = tl (contents s)"
    and bounded: "ok s \<Longrightarrow> length (contents s) \<le> cap s"
begin

text \<open>A sequence of operations: \<open>Some c\<close> puts the byte \<open>c\<close>, \<open>None\<close> gets one. The result is the bytes
  accepted and the bytes handed out.\<close>

fun run :: "'s \<Rightarrow> u8 option list \<Rightarrow> (u8 list \<times> u8 list \<times> 's) option" where
  "run s [] = Some ([], [], s)"
| "run s (Some c # ops) = do {
     (b, s1) \<leftarrow> put s c; (ins, outs, s2) \<leftarrow> run s1 ops;
     Some (if b then c # ins else ins, outs, s2) }"
| "run s (None # ops) = do {
     (b, s1) \<leftarrow> get s; (ins, outs, s2) \<leftarrow> run s1 ops;
     Some (ins, (case b of None \<Rightarrow> outs | Some c \<Rightarrow> c # outs), s2) }"

lemma run_fifo:
  "ok s \<Longrightarrow> \<exists>ins outs s'. run s ops = Some (ins, outs, s') \<and> ok s' \<and> cap s' = cap s \<and>
     contents s @ ins = outs @ contents s'"
proof (induction ops arbitrary: s)
  case Nil
  then show ?case by simp
next
  case (Cons op ops)
  show ?case
  proof (cases op)
    case None
    from get_fifo [OF Cons.prems] obtain s1 where
      g: "get s = Some (case contents s of [] \<Rightarrow> None | c # _ \<Rightarrow> Some c, s1)"
      "ok s1" "cap s1 = cap s" "contents s1 = tl (contents s)" by blast
    from Cons.IH [OF g(2)] obtain ins outs s2 where
      "run s1 ops = Some (ins, outs, s2)" "ok s2" "cap s2 = cap s1" "contents s1 @ ins = outs @ contents s2"
      by blast
    with g None show ?thesis by (cases "contents s") auto
  next
    case (Some c)
    from put_fifo [OF Cons.prems] obtain s1 where
      p: "put s c = Some (length (contents s) < cap s, s1)"
      "ok s1" "cap s1 = cap s"
      "contents s1 = (if length (contents s) < cap s then contents s @ [c] else contents s)" by blast
    from Cons.IH [OF p(2)] obtain ins outs s2 where
      "run s1 ops = Some (ins, outs, s2)" "ok s2" "cap s2 = cap s1" "contents s1 @ ins = outs @ contents s2"
      by blast
    with p Some show ?thesis by (cases "length (contents s) < cap s") auto
  qed
qed

end

end
