(* ===== verification/Mx_Cba.thy ===== *)
theory Mx_Cba
  imports Mx_Interfaces
begin

text \<open>
  The circular buffer allocator of \<open>source/cba.c\<close> in its default configuration (neither
  \<open>CBA_VALIDATION\<close> nor \<open>CBA_REALLOC\<close> nor \<open>CBA_PRINT\<close> is defined by the build).

  The pool is an array of bytes; the code reads and writes it only through
  \<open>struct cba_header\<close> overlays. The model keeps the buffer as that view: \<open>buffer c i\<close> is the
  header at byte offset \<open>i\<close>, and \<open>None\<close> where no header fits in the buffer, so that an access
  outside of it is undefined behaviour. A chunk pointer is the byte offset of the chunk's data.
  The theorem that the regions of all chunks are pairwise disjoint is what makes this view sound:
  no header shares a byte with another header or with the data of a chunk.
\<close>

section \<open>State\<close>

record cba_header =
  marker :: nat
  bound :: nat
  chunk_len :: nat

record cba =
  buffer :: "nat \<Rightarrow> cba_header option"
  cba_size :: nat
  free_idx :: nat
  head_idx :: nat
  tail_idx :: nat

abbreviation (input) CBA_ALLIGNMENT :: nat where "CBA_ALLIGNMENT \<equiv> 4"
abbreviation (input) CBA_HEADER_LEN :: nat where "CBA_HEADER_LEN \<equiv> 4"
abbreviation (input) CBA_MIN_CHUNK_LEN :: nat where "CBA_MIN_CHUNK_LEN \<equiv> 3"
abbreviation (input) CBA_HEAD_MARKER :: nat where "CBA_HEAD_MARKER \<equiv> 0x5FFA"

section \<open>Operations\<close>

definition cba_chunk_len :: "nat \<Rightarrow> nat" where
  "cba_chunk_len len0 =
     (let len = (if len0 < CBA_MIN_CHUNK_LEN then CBA_MIN_CHUNK_LEN else len0)
      in trunc16 (if len mod CBA_ALLIGNMENT = 0 then len
                  else (len div CBA_ALLIGNMENT + 1) * CBA_ALLIGNMENT))"

definition cba_chunk_idx :: "nat \<Rightarrow> nat" where
  "cba_chunk_idx chunk = sub16 chunk CBA_HEADER_LEN"

definition cba_next_chunk_idx :: "cba \<Rightarrow> nat \<Rightarrow> nat option" where
  "cba_next_chunk_idx c idx = do {
     header \<leftarrow> buffer c idx;
     if cba_size c = 0 then None
     else Some (trunc16 ((idx + CBA_HEADER_LEN + chunk_len header) mod cba_size c)) }"

text \<open>\<open>chunk_len\<close> is a bit-field of 12 bits: storing a length in it keeps the low 12 bits.\<close>

definition cba_reallocate_chunk :: "cba \<Rightarrow> nat \<Rightarrow> nat \<Rightarrow> (nat \<times> cba) option" where
  "cba_reallocate_chunk c idx len = do {
     header0 \<leftarrow> buffer c idx;
     let header = header0\<lparr>marker := CBA_HEAD_MARKER, bound := 1, chunk_len := len mod 2 ^ 12\<rparr>;
     if cba_size c = 0 then None
     else Some (idx + CBA_HEADER_LEN,
       c\<lparr>buffer := (buffer c)(idx \<mapsto> header),
         head_idx := idx,
         free_idx := trunc16 ((idx + CBA_HEADER_LEN + chunk_len header) mod cba_size c)\<rparr>) }"

definition cba_allocate_chunk :: "cba \<Rightarrow> nat \<Rightarrow> nat \<Rightarrow> (nat option \<times> cba) option" where
  "cba_allocate_chunk c idx len0 =
     (let len = cba_chunk_len len0 in
      if idx < tail_idx c then
        (let available = sub16 (tail_idx c) idx in
         if len + CBA_HEADER_LEN < available then
           map_option (\<lambda>(p, c'). (Some p, c')) (cba_reallocate_chunk c idx len)
         else Some (None, c))
      else
        (let available = sub16 (cba_size c) idx in
         if len + CBA_HEADER_LEN < available then
           map_option (\<lambda>(p, c'). (Some p, c')) (cba_reallocate_chunk c idx len)
         else if tail_idx c > 0 then
           (let available = tail_idx c in
            if len + CBA_HEADER_LEN < available then
              (let free_len = sub16 (cba_size c) (head_idx c + CBA_HEADER_LEN) in
               do { (_, c1) \<leftarrow> cba_reallocate_chunk c (head_idx c) free_len;
                    (p, c2) \<leftarrow> cba_reallocate_chunk c1 (free_idx c1) len;
                    Some (Some p, c2) })
            else Some (None, c))
         else Some (None, c)))"

definition cba_init :: "(nat \<Rightarrow> cba_header option) \<Rightarrow> nat \<Rightarrow> cba" where
  "cba_init buf len =
     \<lparr>buffer = buf, cba_size = len, free_idx = 0, head_idx = 0, tail_idx = 0\<rparr>"

definition cba_clean :: "cba \<Rightarrow> cba" where
  "cba_clean c = c\<lparr>buffer := (\<lambda>_. None), cba_size := 0\<rparr>"

definition cba_reset :: "cba \<Rightarrow> cba" where
  "cba_reset c = c\<lparr>free_idx := 0, head_idx := 0, tail_idx := 0\<rparr>"

definition cba_malloc :: "cba \<Rightarrow> nat \<Rightarrow> (nat option \<times> cba) option" where
  "cba_malloc c len = cba_allocate_chunk c (free_idx c) len"

text \<open>The loop of \<open>cba_free\<close> that drops the unbound chunks at the tail.\<close>

partial_function (option) cba_free_loop :: "cba \<Rightarrow> nat \<Rightarrow> cba option" where
  "cba_free_loop c idx =
     (if idx = free_idx c then Some c
      else (case buffer c idx of
              None \<Rightarrow> None
            | Some header \<Rightarrow>
                if bound header = 1 then Some c
                else (case cba_next_chunk_idx c idx of
                        None \<Rightarrow> None
                      | Some idx' \<Rightarrow> cba_free_loop (c\<lparr>tail_idx := idx'\<rparr>) idx')))"

definition cba_free :: "cba \<Rightarrow> nat option \<Rightarrow> cba option" where
  "cba_free c chunk =
     (case chunk of
        None \<Rightarrow> Some c
      | Some p \<Rightarrow>
          (let idx = cba_chunk_idx p in
           do { header \<leftarrow> buffer c idx;
                let c1 = c\<lparr>buffer := (buffer c)(idx \<mapsto> header\<lparr>bound := 0\<rparr>)\<rparr>;
                if idx = tail_idx c1 then do {
                  c2 \<leftarrow> cba_free_loop c1 idx;
                  Some (if tail_idx c2 = free_idx c2
                        then c2\<lparr>tail_idx := 0, head_idx := 0, free_idx := 0\<rparr> else c2) }
                else Some c1 }))"

section \<open>Segments: contiguous runs of chunks\<close>

fun seg :: "(nat \<Rightarrow> cba_header option) \<Rightarrow> nat \<Rightarrow> nat list \<Rightarrow> nat \<Rightarrow> bool" where
  "seg b i [] j = (i = j)"
| "seg b i (k # ks) j =
     (k = i \<and> (case b i of None \<Rightarrow> False
                | Some h \<Rightarrow> seg b (i + CBA_HEADER_LEN + chunk_len h) ks j))"

definition chunk_end :: "(nat \<Rightarrow> cba_header option) \<Rightarrow> nat \<Rightarrow> nat" where
  "chunk_end b k = (case b k of None \<Rightarrow> k | Some h \<Rightarrow> k + CBA_HEADER_LEN + chunk_len h)"

lemma seg_Cons [simp]:
  "seg b i (k # ks) j \<longleftrightarrow>
     k = i \<and> (\<exists>h. b i = Some h \<and> seg b (i + CBA_HEADER_LEN + chunk_len h) ks j)"
  by (auto split: option.splits)

declare seg.simps(2) [simp del]

lemma chunk_end_Some [simp]: "b k = Some h \<Longrightarrow> chunk_end b k = k + CBA_HEADER_LEN + chunk_len h"
  by (simp add: chunk_end_def)

lemma seg_append: "seg b i (xs @ ys) j \<longleftrightarrow> (\<exists>m. seg b i xs m \<and> seg b m ys j)"
  by (induction xs arbitrary: i) auto

lemma seg_le: "seg b i xs j \<Longrightarrow> i + 4 * length xs \<le> j"
  by (induction xs arbitrary: i) fastforce+

lemma seg_bounds:
  "seg b i xs j \<Longrightarrow> k \<in> set xs \<Longrightarrow> i \<le> k \<and> k + CBA_HEADER_LEN \<le> chunk_end b k \<and> chunk_end b k \<le> j"
proof (induction xs arbitrary: i)
  case Nil
  then show ?case by simp
next
  case (Cons m ms)
  then obtain h where h: "b m = Some h" "m = i" and s: "seg b (m + CBA_HEADER_LEN + chunk_len h) ms j"
    by auto
  show ?case
  proof (cases "k = m")
    case True
    with h seg_le [OF s] show ?thesis by simp
  next
    case False
    with Cons.prems have "k \<in> set ms" by simp
    with Cons.IH [OF s] h show ?thesis by auto
  qed
qed

lemma seg_defined: "seg b i xs j \<Longrightarrow> k \<in> set xs \<Longrightarrow> \<exists>h. b k = Some h"
  by (induction xs arbitrary: i) auto

lemma seg_cong:
  "(\<And>k. k \<in> set xs \<Longrightarrow> map_option chunk_len (b' k) = map_option chunk_len (b k)) \<Longrightarrow>
   seg b' i xs j = seg b i xs j"
proof (induction xs arbitrary: i)
  case Nil
  then show ?case by simp
next
  case (Cons k ks)
  have hd_eq: "map_option chunk_len (b' k) = map_option chunk_len (b k)" using Cons.prems by simp
  have "\<And>i. seg b' i ks j = seg b i ks j" using Cons by simp
  with hd_eq show ?case by (cases "b k"; cases "b' k") (simp_all, auto)
qed

lemma seg_upd_other [simp]: "k \<notin> set xs \<Longrightarrow> seg (b(k := h)) i xs j = seg b i xs j"
  by (rule seg_cong) auto

lemma seg_upd_bound [simp]:
  "b k = Some h \<Longrightarrow> chunk_len h' = chunk_len h \<Longrightarrow> seg (b(k \<mapsto> h')) i xs j = seg b i xs j"
  by (rule seg_cong) auto

lemma seg_snoc:
  "seg b i (xs @ [k]) j \<longleftrightarrow> (\<exists>h. b k = Some h \<and> seg b i xs k \<and> j = k + CBA_HEADER_LEN + chunk_len h)"
  by (auto simp: seg_append)

lemma seg_distinct: "seg b i xs j \<Longrightarrow> distinct xs"
proof (induction xs arbitrary: i)
  case Nil
  then show ?case by simp
next
  case (Cons k ks)
  from Cons.prems obtain h where s: "b i = Some h" "k = i" "seg b (i + CBA_HEADER_LEN + chunk_len h) ks j" by auto
  then have "k \<notin> set ks" by (auto dest: seg_bounds)
  with s Cons.IH show ?case by auto
qed

lemma seg_disjoint:
  "seg b i xs j \<Longrightarrow> k \<in> set xs \<Longrightarrow> l \<in> set xs \<Longrightarrow> k < l \<Longrightarrow> chunk_end b k \<le> l"
proof (induction xs arbitrary: i)
  case Nil
  then show ?case by simp
next
  case (Cons m ms)
  then obtain h where h: "b m = Some h" "m = i" and s: "seg b (m + CBA_HEADER_LEN + chunk_len h) ms j"
    by auto
  have lb: "\<And>x. x \<in> set ms \<Longrightarrow> chunk_end b m \<le> x"
    using seg_bounds [OF s] h by simp
  have "k \<noteq> l" "k = m \<or> k \<in> set ms" "l = m \<or> l \<in> set ms" using Cons.prems by auto
  then have "l \<in> set ms" using lb [of k] h Cons.prems(4) by auto
  show ?case
  proof (cases "k = m")
    case True
    with lb \<open>l \<in> set ms\<close> show ?thesis by simp
  next
    case False
    with Cons.prems \<open>l \<in> set ms\<close> s Cons.IH show ?thesis by auto
  qed
qed

section \<open>The invariant\<close>

definition is_bound :: "cba \<Rightarrow> nat \<Rightarrow> bool" where
  "is_bound c k \<longleftrightarrow> (case buffer c k of None \<Rightarrow> False | Some h \<Rightarrow> bound h = 1)"

definition cba_layout :: "cba \<Rightarrow> nat list \<Rightarrow> bool" where
  "cba_layout c xs \<longleftrightarrow>
     (seg (buffer c) (tail_idx c) xs (free_idx c) \<and> free_idx c < cba_size c) \<or>
     (\<exists>hi lo. xs = hi @ lo \<and> hi \<noteq> [] \<and> lo \<noteq> [] \<and>
        seg (buffer c) (tail_idx c) hi (cba_size c) \<and> seg (buffer c) 0 lo (free_idx c) \<and>
        free_idx c < tail_idx c)"

lemma cba_layoutI_straight:
  "seg (buffer c) (tail_idx c) xs (free_idx c) \<Longrightarrow> free_idx c < cba_size c \<Longrightarrow> cba_layout c xs"
  by (simp add: cba_layout_def)

lemma cba_layoutI_wrapped:
  "seg (buffer c) (tail_idx c) hi (cba_size c) \<Longrightarrow> seg (buffer c) 0 lo (free_idx c) \<Longrightarrow>
   free_idx c < tail_idx c \<Longrightarrow> hi \<noteq> [] \<Longrightarrow> lo \<noteq> [] \<Longrightarrow> xs = hi @ lo \<Longrightarrow> cba_layout c xs"
  unfolding cba_layout_def by blast

lemma cba_layout_wrappedE:
  assumes "cba_layout c xs" "free_idx c < tail_idx c"
  obtains hi lo where "xs = hi @ lo" "hi \<noteq> []" "lo \<noteq> []"
    "seg (buffer c) (tail_idx c) hi (cba_size c)" "seg (buffer c) 0 lo (free_idx c)"
  using assms seg_le [of "buffer c" "tail_idx c" xs "free_idx c"] unfolding cba_layout_def by auto

lemma cba_layout_straight:
  "cba_layout c xs \<Longrightarrow> tail_idx c \<le> free_idx c \<Longrightarrow>
   seg (buffer c) (tail_idx c) xs (free_idx c) \<and> free_idx c < cba_size c"
  unfolding cba_layout_def by auto

lemma cba_layout_tail_le: "cba_layout c xs \<Longrightarrow> tail_idx c \<le> cba_size c"
  unfolding cba_layout_def by (metis add_leD1 le_trans less_imp_le seg_le)

definition cba_pool :: "cba \<Rightarrow> bool" where
  "cba_pool c \<longleftrightarrow> 0 < cba_size c \<and> cba_size c \<le> 4099 \<and>
     (\<forall>i. buffer c i \<noteq> None \<longleftrightarrow> i + CBA_HEADER_LEN \<le> cba_size c)"

definition cba_wf :: "cba \<Rightarrow> nat list \<Rightarrow> bool" where
  "cba_wf c xs \<longleftrightarrow> cba_pool c \<and> cba_layout c xs \<and>
     (if xs = [] then tail_idx c = 0 \<and> head_idx c = 0
      else head_idx c = last xs \<and> is_bound c (hd xs))"

lemma cba_pool_Some: "cba_pool c \<Longrightarrow> i + CBA_HEADER_LEN \<le> cba_size c \<Longrightarrow> \<exists>h. buffer c i = Some h"
  unfolding cba_pool_def by auto

lemma cba_pool_upd:
  "cba_pool c \<Longrightarrow> i + CBA_HEADER_LEN \<le> cba_size c \<Longrightarrow> b = (buffer c)(i \<mapsto> h) \<Longrightarrow>
   buffer c' = b \<Longrightarrow> cba_size c' = cba_size c \<Longrightarrow> cba_pool c'"
  unfolding cba_pool_def by auto

lemma cba_layout_defined: "cba_layout c xs \<Longrightarrow> k \<in> set xs \<Longrightarrow> \<exists>h. buffer c k = Some h"
  unfolding cba_layout_def by (auto dest: seg_defined)

lemma cba_layout_bounds:
  "cba_layout c xs \<Longrightarrow> k \<in> set xs \<Longrightarrow>
     k + CBA_HEADER_LEN \<le> chunk_end (buffer c) k \<and> chunk_end (buffer c) k \<le> cba_size c"
  unfolding cba_layout_def
proof (elim disjE exE conjE)
  assume "seg (buffer c) (tail_idx c) xs (free_idx c)" "free_idx c < cba_size c" "k \<in> set xs"
  then show ?thesis using seg_bounds [of "buffer c" "tail_idx c" xs "free_idx c" k] by simp
next
  fix hi lo
  assume a: "xs = hi @ lo" "hi \<noteq> []" "lo \<noteq> []" "seg (buffer c) (tail_idx c) hi (cba_size c)"
    "seg (buffer c) 0 lo (free_idx c)" "free_idx c < tail_idx c" "k \<in> set xs"
  then have "tail_idx c \<le> cba_size c" using seg_le by (metis add_leD1)
  with a show ?thesis
    using seg_bounds [OF a(4), of k] seg_bounds [OF a(5), of k] by auto
qed

lemma cba_layout_disjoint:
  assumes "cba_layout c xs" "k \<in> set xs" "l \<in> set xs" "k < l"
  shows "chunk_end (buffer c) k \<le> l"
  using assms unfolding cba_layout_def
proof (elim disjE exE conjE)
  assume "seg (buffer c) (tail_idx c) xs (free_idx c)"
  then show ?thesis using assms by (blast intro: seg_disjoint)
next
  fix hi lo
  assume a: "xs = hi @ lo" "seg (buffer c) (tail_idx c) hi (cba_size c)"
    "seg (buffer c) 0 lo (free_idx c)" "free_idx c < tail_idx c"
  consider "k \<in> set hi" "l \<in> set hi" | "k \<in> set lo" "l \<in> set lo"
    | "k \<in> set lo" "l \<in> set hi" | "k \<in> set hi" "l \<in> set lo"
    using assms a(1) by auto
  then show ?thesis
  proof cases
    case 1
    then show ?thesis using a assms by (blast intro: seg_disjoint)
  next
    case 2
    then show ?thesis using a assms by (blast intro: seg_disjoint)
  next
    case 3
    then show ?thesis using seg_bounds [OF a(2), of l] seg_bounds [OF a(3), of k] a(4) by simp
  next
    case 4
    then show ?thesis using seg_bounds [OF a(2), of k] seg_bounds [OF a(3), of l] a(4) assms(4)
      by simp
  qed
qed

section \<open>Allocation\<close>

lemma cba_chunk_len_less: "cba_chunk_len len < 65536"
  by (simp add: cba_chunk_len_def Let_def trunc16_less)

lemma cba_chunk_len_ge:
  assumes "len \<le> 65532"
  shows "len \<le> cba_chunk_len len"
proof (cases "len mod 4 = 0")
  case True
  with assms show ?thesis by (auto simp: cba_chunk_len_def trunc16_id)
next
  case False
  then have "len div 4 * 4 + len mod 4 = len" "len \<noteq> 65532" by auto
  with assms have "(len div 4 + 1) * 4 < 65536" "len \<le> (len div 4 + 1) * 4"
    by auto
  with False show ?thesis by (auto simp: cba_chunk_len_def trunc16_id)
qed

definition fresh_header :: "cba_header \<Rightarrow> nat \<Rightarrow> cba_header" where
  "fresh_header h len = h\<lparr>marker := CBA_HEAD_MARKER, bound := 1, chunk_len := len\<rparr>"

lemma fresh_header_sel [simp]:
  "bound (fresh_header h len) = 1" "chunk_len (fresh_header h len) = len"
  by (simp_all add: fresh_header_def)

lemma reallocate_chunk:
  assumes "cba_pool c" "idx + CBA_HEADER_LEN + len \<le> cba_size c"
  shows "\<exists>h. buffer c idx = Some h \<and>
    cba_reallocate_chunk c idx len = Some (idx + CBA_HEADER_LEN,
      c\<lparr>buffer := (buffer c)(idx \<mapsto> fresh_header h len), head_idx := idx,
        free_idx := (idx + CBA_HEADER_LEN + len) mod cba_size c\<rparr>)"
proof -
  from cba_pool_Some [OF assms(1), of idx] assms(2) obtain h where h: "buffer c idx = Some h" by auto
  from assms have "len < 4096" "0 < cba_size c" "cba_size c < 65536" unfolding cba_pool_def by auto
  then have "len mod 4096 = len" "\<And>n. trunc16 (n mod cba_size c) = n mod cba_size c"
    by (auto intro!: trunc16_id elim: order.strict_trans [rotated])
  with h \<open>0 < cba_size c\<close> show ?thesis
    by (simp add: cba_reallocate_chunk_def fresh_header_def Let_def)
qed

lemma cba_layout_snoc:
  assumes lay: "cba_layout c xs"
    and room: "free_idx c < tail_idx c \<and> e < tail_idx c \<or> tail_idx c \<le> free_idx c \<and> e < cba_size c"
    and e: "e = free_idx c + CBA_HEADER_LEN + chunk_len h"
  shows "free_idx c \<notin> set xs \<and>
    cba_layout (c\<lparr>buffer := (buffer c)(free_idx c \<mapsto> h), head_idx := hd', free_idx := e\<rparr>) (xs @ [free_idx c])"
proof (cases "free_idx c < tail_idx c")
  case True
  with lay obtain hi lo where hl: "xs = hi @ lo" "hi \<noteq> []" "lo \<noteq> []"
    "seg (buffer c) (tail_idx c) hi (cba_size c)" "seg (buffer c) 0 lo (free_idx c)"
    by (rule cba_layout_wrappedE)
  have new: "free_idx c \<notin> set hi" "free_idx c \<notin> set lo"
    using seg_bounds [OF hl(4), of "free_idx c"] seg_bounds [OF hl(5), of "free_idx c"] True by auto
  have "cba_layout (c\<lparr>buffer := (buffer c)(free_idx c \<mapsto> h), head_idx := hd', free_idx := e\<rparr>) (xs @ [free_idx c])"
    by (rule cba_layoutI_wrapped [of _ hi "lo @ [free_idx c]"])
      (use hl new True room e in \<open>auto simp: seg_snoc\<close>)
  with new hl(1) show ?thesis by simp
next
  case False
  with lay have s: "seg (buffer c) (tail_idx c) xs (free_idx c)" by (simp add: cba_layout_straight)
  have new: "free_idx c \<notin> set xs" using seg_bounds [OF s, of "free_idx c"] by auto
  show ?thesis
    using s new False room e by (auto simp: seg_snoc intro!: cba_layoutI_straight)
qed

lemma is_bound_upd [simp]:
  "is_bound (c\<lparr>buffer := b, head_idx := x, free_idx := y\<rparr>) k = is_bound (c\<lparr>buffer := b\<rparr>) k"
  "is_bound (c\<lparr>buffer := (buffer c)(i \<mapsto> h)\<rparr>) k = (if k = i then bound h = 1 else is_bound c k)"
  by (auto simp: is_bound_def)

lemma chunk_end_upd [simp]:
  "chunk_end (b(i \<mapsto> h)) k = (if k = i then i + CBA_HEADER_LEN + chunk_len h else chunk_end b k)"
  by (simp add: chunk_end_def)

definition alloc_post :: "cba \<Rightarrow> nat list \<Rightarrow> nat \<Rightarrow> nat \<Rightarrow> cba \<Rightarrow> bool" where
  "alloc_post c xs len k c' \<longleftrightarrow>
     k \<notin> set xs \<and> cba_wf c' (xs @ [k]) \<and> is_bound c' k \<and> cba_size c' = cba_size c \<and>
     chunk_end (buffer c') k = k + CBA_HEADER_LEN + len \<and>
     (\<forall>i\<in>set xs. chunk_end (buffer c) i \<le> chunk_end (buffer c') i \<and> (is_bound c i \<longrightarrow> is_bound c' i)) \<and>
     (\<forall>i. is_bound c' i \<longleftrightarrow> i = k \<or> is_bound c i \<or> k = 0 \<and> xs \<noteq> [] \<and> i = last xs)"

lemma alloc_postD:
  assumes "alloc_post c xs len k c'"
  shows "k \<notin> set xs" "cba_wf c' (xs @ [k])" "is_bound c' k" "chunk_end (buffer c') k = k + CBA_HEADER_LEN + len"
    "i \<in> set xs \<Longrightarrow> chunk_end (buffer c) i \<le> chunk_end (buffer c') i"
    "i \<in> set xs \<Longrightarrow> is_bound c i \<Longrightarrow> is_bound c' i"
  using assms by (simp_all add: alloc_post_def)

lemma cba_layout_free_0: "cba_layout c xs \<Longrightarrow> free_idx c = 0 \<Longrightarrow> xs = []"
  using seg_le unfolding cba_layout_def by (metis add_is_0 le_zero_eq length_0_conv mult_is_0 zero_neq_numeral)

lemma reallocate_at_free:
  assumes wf: "cba_wf c xs"
    and room: "free_idx c < tail_idx c \<and> e < tail_idx c \<or> tail_idx c \<le> free_idx c \<and> e < cba_size c"
    and e: "e = free_idx c + CBA_HEADER_LEN + len"
  shows "\<exists>c'. cba_reallocate_chunk c (free_idx c) len = Some (free_idx c + CBA_HEADER_LEN, c') \<and>
    alloc_post c xs len (free_idx c) c'"
proof -
  from wf have pool: "cba_pool c" and lay: "cba_layout c xs" by (auto simp: cba_wf_def)
  have "tail_idx c \<le> cba_size c" by (rule cba_layout_tail_le [OF lay])
  with room have le: "e < cba_size c" by auto
  with reallocate_chunk [OF pool, of "free_idx c" len] e obtain h where
    h: "buffer c (free_idx c) = Some h" and
    r: "cba_reallocate_chunk c (free_idx c) len = Some (free_idx c + CBA_HEADER_LEN,
         c\<lparr>buffer := (buffer c)(free_idx c \<mapsto> fresh_header h len), head_idx := free_idx c,
           free_idx := e\<rparr>)" (is "_ = Some (_, ?c')")
    by auto
  note snoc = cba_layout_snoc [OF lay room, of "fresh_header h len" "free_idx c"]
  have "cba_pool ?c'" by (rule cba_pool_upd [OF pool, of "free_idx c"]) (use le e in auto)
  moreover have "free_idx c \<notin> set xs" using snoc e by simp
  moreover have "is_bound ?c' (hd (xs @ [free_idx c]))"
    using wf \<open>free_idx c \<notin> set xs\<close> by (cases xs) (auto simp: cba_wf_def)
  ultimately have "alloc_post c xs len (free_idx c) ?c'"
    using snoc e cba_layout_free_0 [OF lay] by (auto simp: alloc_post_def cba_wf_def)
  with r show ?thesis by blast
qed

lemma reallocate_wrapping:
  assumes wf: "cba_wf c xs" and st: "tail_idx c \<le> free_idx c" "0 < tail_idx c"
    and room: "len + CBA_HEADER_LEN < tail_idx c"
  shows "\<exists>c1 c2 p. cba_reallocate_chunk c (head_idx c) (sub16 (cba_size c) (head_idx c + CBA_HEADER_LEN)) = Some (p, c1) \<and>
    cba_reallocate_chunk c1 (free_idx c1) len = Some (0 + CBA_HEADER_LEN, c2) \<and>
    alloc_post c xs len 0 c2"
proof -
  from wf have pool: "cba_pool c" and lay: "cba_layout c xs" by (auto simp: cba_wf_def)
  from pool have size: "0 < cba_size c" "cba_size c \<le> 4099" by (auto simp: cba_pool_def)
  from st wf obtain ys h where xs: "xs = ys @ [h]" "head_idx c = h"
    by (cases xs rule: rev_cases) (auto simp: cba_wf_def)
  with cba_layout_straight [OF lay st(1)] obtain hh where
    s: "buffer c h = Some hh" "seg (buffer c) (tail_idx c) ys h"
      "free_idx c = h + CBA_HEADER_LEN + chunk_len hh" "free_idx c < cba_size c"
    by (auto simp: seg_snoc)
  define fl where "fl = cba_size c - (h + CBA_HEADER_LEN)"
  have fl: "sub16 (cba_size c) (head_idx c + CBA_HEADER_LEN) = fl" "h + CBA_HEADER_LEN + fl = cba_size c"
    using s size xs by (auto simp: fl_def sub16_id)
  obtain c1 where r1: "cba_reallocate_chunk c h fl = Some (h + CBA_HEADER_LEN, c1)"
    and c1: "c1 = c\<lparr>buffer := (buffer c)(h \<mapsto> fresh_header hh fl), head_idx := h, free_idx := 0\<rparr>"
    using reallocate_chunk [OF pool, of h fl] fl(2) s(1) by auto
  have pool1: "cba_pool c1"
    by (rule cba_pool_upd [OF pool, of h]) (use s(3,4) c1 in auto)
  have ts: "tail_idx c \<le> cba_size c" by (rule cba_layout_tail_le [OF lay])
  obtain h0 where h0: "buffer c1 0 = Some h0"
    and r2: "cba_reallocate_chunk c1 0 len = Some (0 + CBA_HEADER_LEN,
      c1\<lparr>buffer := (buffer c1)(0 \<mapsto> fresh_header h0 len), head_idx := 0, free_idx := CBA_HEADER_LEN + len\<rparr>)"
      (is "_ = Some (_, ?c2)")
    using reallocate_chunk [OF pool1, of 0 len] room ts c1 by auto
  have lb: "\<And>i. i \<in> set ys \<Longrightarrow> tail_idx c \<le> i \<and> i + CBA_HEADER_LEN \<le> h"
    using seg_bounds [OF s(2)] by force
  have h_ge: "tail_idx c \<le> h" using seg_le [OF s(2)] by simp
  have new: "0 \<notin> set ys" "h \<noteq> 0" "h \<notin> set ys" using lb h_ge st by force+
  have pool2: "cba_pool ?c2"
    by (rule cba_pool_upd [OF pool1, of 0]) (use room ts c1 in auto)
  have "cba_layout ?c2 (xs @ [0])"
    by (rule cba_layoutI_wrapped [of _ "ys @ [h]" "[0]"])
      (use s new fl(2) room xs c1 in \<open>auto simp: seg_snoc\<close>)
  moreover have "is_bound ?c2 (hd (xs @ [0]))"
    using wf xs new c1 by (cases ys) (auto simp: cba_wf_def is_bound_def)
  ultimately have "cba_wf ?c2 (xs @ [0])" using pool2 by (simp add: cba_wf_def)
  moreover have "chunk_end (buffer c) h \<le> chunk_end (buffer ?c2) h"
    using s new fl(2) c1 by simp
  ultimately have "alloc_post c xs len 0 ?c2"
    using xs new c1 s by (auto simp: alloc_post_def is_bound_def chunk_end_def)
  with r1 r2 fl(1) xs c1 show ?thesis by auto
qed

lemma cba_malloc_cases:
  assumes wf: "cba_wf c xs"
  shows "cba_malloc c len = Some (None, c) \<or>
    (\<exists>k c'. cba_malloc c len = Some (Some (k + CBA_HEADER_LEN), c') \<and> alloc_post c xs (cba_chunk_len len) k c')"
proof -
  define L where "L = cba_chunk_len len"
  note L = L_def [symmetric]
  from wf have pool: "cba_pool c" and lay: "cba_layout c xs" by (auto simp: cba_wf_def)
  from pool have size: "cba_size c < 65536" by (auto simp: cba_pool_def)
  note ts = cba_layout_tail_le [OF lay]
  consider (low) "free_idx c < tail_idx c" "L + CBA_HEADER_LEN < tail_idx c - free_idx c"
    | (low_full) "free_idx c < tail_idx c" "\<not> L + CBA_HEADER_LEN < tail_idx c - free_idx c"
    | (high) "tail_idx c \<le> free_idx c" "L + CBA_HEADER_LEN < cba_size c - free_idx c"
    | (wrap) "tail_idx c \<le> free_idx c" "\<not> L + CBA_HEADER_LEN < cba_size c - free_idx c" "0 < tail_idx c" "L + CBA_HEADER_LEN < tail_idx c"
    | (full) "tail_idx c \<le> free_idx c" "\<not> L + CBA_HEADER_LEN < cba_size c - free_idx c" "\<not> (0 < tail_idx c \<and> L + CBA_HEADER_LEN < tail_idx c)"
    by linarith
  then show ?thesis
  proof cases
    case low
    then have "free_idx c + CBA_HEADER_LEN + L < tail_idx c" by arith
    with low show ?thesis
      using reallocate_at_free [OF wf, of "free_idx c + CBA_HEADER_LEN + L" L] ts size
      by (auto simp: cba_malloc_def cba_allocate_chunk_def L sub16_id)
  next
    case low_full
    then show ?thesis using ts size
      by (simp add: cba_malloc_def cba_allocate_chunk_def L sub16_id)
  next
    case high
    then have "free_idx c + CBA_HEADER_LEN + L < cba_size c" by arith
    with high show ?thesis
      using reallocate_at_free [OF wf, of "free_idx c + CBA_HEADER_LEN + L" L] cba_layout_straight [OF lay] size
      by (auto simp: cba_malloc_def cba_allocate_chunk_def L sub16_id)
  next
    case wrap
    then show ?thesis
      using reallocate_wrapping [OF wf, of L] cba_layout_straight [OF lay] size
      by (auto simp: cba_malloc_def cba_allocate_chunk_def L sub16_id)
  next
    case full
    then show ?thesis using cba_layout_straight [OF lay] size
      by (auto simp: cba_malloc_def cba_allocate_chunk_def L sub16_id)
  qed
qed

section \<open>Release\<close>

lemma cba_layout_tail_step:
  assumes lay: "cba_layout c (k # ks)" and pool: "cba_pool c"
  shows "k = tail_idx c \<and> k \<noteq> free_idx c \<and>
    (\<exists>h i. buffer c k = Some h \<and> cba_next_chunk_idx c k = Some i \<and> cba_layout (c\<lparr>tail_idx := i\<rparr>) ks)"
proof -
  from pool have size: "0 < cba_size c" "cba_size c < 65536" by (auto simp: cba_pool_def)
  then have t: "\<And>n. trunc16 (n mod cba_size c) = n mod cba_size c"
    by (auto intro!: trunc16_id elim: order.strict_trans [rotated])
  show ?thesis
  proof (cases "free_idx c < tail_idx c")
    case False
    then obtain h where h: "k = tail_idx c" "buffer c k = Some h"
      and s: "seg (buffer c) (k + CBA_HEADER_LEN + chunk_len h) ks (free_idx c)" "free_idx c < cba_size c"
      using cba_layout_straight [OF lay] by auto
    then have "cba_layout (c\<lparr>tail_idx := k + CBA_HEADER_LEN + chunk_len h\<rparr>) ks"
      by (auto intro: cba_layoutI_straight)
    with h s seg_le [OF s(1)] size t show ?thesis
      by (auto simp: cba_next_chunk_idx_def)
  next
    case True
    obtain hi lo where hl: "k # ks = hi @ lo" "hi \<noteq> []" "lo \<noteq> []"
      "seg (buffer c) (tail_idx c) hi (cba_size c)" "seg (buffer c) 0 lo (free_idx c)"
      by (rule cba_layout_wrappedE [OF lay True])
    then obtain hi' where hi': "hi = k # hi'" "ks = hi' @ lo" by (cases hi) auto
    with hl obtain h where h: "k = tail_idx c" "buffer c k = Some h"
      and s: "seg (buffer c) (k + CBA_HEADER_LEN + chunk_len h) hi' (cba_size c)"
      by auto
    note fs = seg_le [OF hl(5)] cba_layout_tail_le [OF lay] True
    show ?thesis
    proof (cases "hi' = []")
      case nil: True
      then have "cba_layout (c\<lparr>tail_idx := 0\<rparr>) ks"
        using hl hi' fs by (auto intro: cba_layoutI_straight)
      with nil s h t size True show ?thesis by (auto simp: cba_next_chunk_idx_def)
    next
      case cons: False
      let ?e = "k + CBA_HEADER_LEN + chunk_len h"
      have e: "?e < cba_size c" using seg_le [OF s] cons by (cases hi') auto
      have "cba_layout (c\<lparr>tail_idx := ?e\<rparr>) ks"
        by (rule cba_layoutI_wrapped [of _ hi' lo]) (use s hl hi' h cons True in auto)
      with h e size t True show ?thesis by (auto simp: cba_next_chunk_idx_def)
    qed
  qed
qed

lemma cba_pool_tail [simp]: "cba_pool (c\<lparr>tail_idx := i\<rparr>) = cba_pool c"
  by (simp add: cba_pool_def)

lemma is_bound_tail [simp]: "is_bound (c\<lparr>tail_idx := i\<rparr>) k = is_bound c k"
  by (simp add: is_bound_def)

lemma is_bound_reset [simp]:
  "is_bound (c\<lparr>tail_idx := i, head_idx := j, free_idx := l\<rparr>) k = is_bound c k"
  by (simp add: is_bound_def)

lemma cba_layout_nil: "cba_layout c [] \<Longrightarrow> tail_idx c = free_idx c"
  by (auto simp: cba_layout_def)

text \<open>The loop of \<open>cba_free\<close> ends, and removes exactly the unbound chunks before the first
  bound one: the chunks it passes are a prefix \<open>ys\<close> of the chunk list.\<close>

lemma cba_free_loop_ok:
  assumes "cba_layout c xs" "cba_pool c"
  shows "\<exists>t. cba_free_loop c (tail_idx c) = Some (c\<lparr>tail_idx := t\<rparr>) \<and>
    cba_layout (c\<lparr>tail_idx := t\<rparr>) (dropWhile (\<lambda>k. \<not> is_bound c k) xs)"
  using assms
proof (induction xs arbitrary: c)
  case Nil
  then have "cba_free_loop c (tail_idx c) = Some (c\<lparr>tail_idx := tail_idx c\<rparr>)"
    by (simp add: cba_free_loop.simps cba_layout_nil)
  with Nil show ?case by fastforce
next
  case (Cons k ks)
  from cba_layout_tail_step [OF Cons.prems] obtain h i where
    k: "k = tail_idx c" "k \<noteq> free_idx c" and h: "buffer c k = Some h"
    and i: "cba_next_chunk_idx c k = Some i" "cba_layout (c\<lparr>tail_idx := i\<rparr>) ks" by auto
  show ?case
  proof (cases "is_bound c k")
    case True
    with k h have "cba_free_loop c (tail_idx c) = Some (c\<lparr>tail_idx := tail_idx c\<rparr>)"
      by (simp add: cba_free_loop.simps is_bound_def)
    with True Cons.prems show ?thesis by fastforce
  next
    case False
    have "\<exists>t. cba_free_loop (c\<lparr>tail_idx := i\<rparr>) i = Some (c\<lparr>tail_idx := t\<rparr>) \<and>
      cba_layout (c\<lparr>tail_idx := t\<rparr>) (dropWhile (\<lambda>k. \<not> is_bound c k) ks)"
      using Cons.IH [OF i(2)] Cons.prems(2) by simp
    moreover have "cba_free_loop c (tail_idx c) = cba_free_loop (c\<lparr>tail_idx := i\<rparr>) i"
      using False k h i by (subst cba_free_loop.simps) (simp add: is_bound_def)
    ultimately show ?thesis using False by simp
  qed
qed

definition unbind :: "cba \<Rightarrow> nat \<Rightarrow> cba" where
  "unbind c k = c\<lparr>buffer := (buffer c)(k := map_option (\<lambda>h. h\<lparr>bound := 0\<rparr>) (buffer c k))\<rparr>"

lemma unbind_sel [simp]:
  "tail_idx (unbind c k) = tail_idx c" "head_idx (unbind c k) = head_idx c"
  "free_idx (unbind c k) = free_idx c" "cba_size (unbind c k) = cba_size c"
  by (simp_all add: unbind_def)

lemma is_bound_unbind [simp]: "is_bound (unbind c k) i \<longleftrightarrow> i \<noteq> k \<and> is_bound c i"
  by (auto simp: unbind_def is_bound_def split: option.splits)

lemma chunk_end_unbind [simp]: "chunk_end (buffer (unbind c k)) i = chunk_end (buffer c) i"
  by (auto simp: unbind_def chunk_end_def split: option.splits)

lemma cba_layout_unbind [simp]: "cba_layout (unbind c k) xs = cba_layout c xs"
proof -
  have "seg (buffer (unbind c k)) i ys j = seg (buffer c) i ys j" for i ys j
    by (rule seg_cong) (auto simp: unbind_def option.map_comp comp_def)
  then show ?thesis by (simp add: cba_layout_def)
qed

lemma cba_pool_unbind [simp]: "cba_pool (unbind c k) = cba_pool c"
  unfolding cba_pool_def unbind_def by (auto split: if_splits)

definition free_post :: "cba \<Rightarrow> nat list \<Rightarrow> nat \<Rightarrow> cba \<Rightarrow> bool" where
  "free_post c xs k c' \<longleftrightarrow>
     (\<exists>ys. cba_wf c' (drop (length ys) xs) \<and> ys = take (length ys) xs \<and>
        (\<forall>i\<in>set ys. i = k \<or> \<not> is_bound c i)) \<and>
     cba_size c' = cba_size c \<and> (\<forall>i. chunk_end (buffer c') i = chunk_end (buffer c) i) \<and>
     (\<forall>i. is_bound c' i \<longleftrightarrow> i \<noteq> k \<and> is_bound c i)"

lemma cba_free_ok:
  assumes wf: "cba_wf c xs" and k: "k \<in> set xs"
  shows "\<exists>c'. cba_free c (Some (k + CBA_HEADER_LEN)) = Some c' \<and> free_post c xs k c'"
proof -
  let ?c1 = "unbind c k"
  from wf have pool: "cba_pool c" and lay: "cba_layout c xs" by (auto simp: cba_wf_def)
  from cba_layout_defined [OF lay k] obtain h where h: "buffer c k = Some h" by auto
  have "k + CBA_HEADER_LEN < 65536"
    using cba_layout_bounds [OF lay k] pool by (auto simp: cba_pool_def)
  then have idx: "cba_chunk_idx (k + CBA_HEADER_LEN) = k" by (simp add: cba_chunk_idx_def sub16_id)
  have c1: "c\<lparr>buffer := (buffer c)(k \<mapsto> h\<lparr>bound := 0\<rparr>)\<rparr> = ?c1" by (simp add: unbind_def h)
  from k have ne: "xs \<noteq> []" by auto
  with cba_layout_tail_step [of c "hd xs" "tl xs"] lay pool have hd: "hd xs = tail_idx c" by simp
  show ?thesis
  proof (cases "k = tail_idx c")
    case False
    then have "cba_free c (Some (k + CBA_HEADER_LEN)) = Some ?c1"
      by (simp add: cba_free_def idx h c1)
    moreover have "cba_wf ?c1 xs" using wf False hd ne by (simp add: cba_wf_def)
    ultimately show ?thesis by (auto simp: free_post_def intro!: exI [of _ "[]"])
  next
    case True
    define zs where "zs = dropWhile (\<lambda>i. \<not> is_bound ?c1 i) xs"
    define ys where "ys = takeWhile (\<lambda>i. \<not> is_bound ?c1 i) xs"
    have yz: "xs = ys @ zs" by (simp add: ys_def zs_def)
    obtain t where t: "cba_free_loop ?c1 (tail_idx ?c1) = Some (?c1\<lparr>tail_idx := t\<rparr>)"
      "cba_layout (?c1\<lparr>tail_idx := t\<rparr>) zs"
      using cba_free_loop_ok [of ?c1 xs] lay pool unfolding zs_def by auto
    have "zs \<noteq> [] \<Longrightarrow> is_bound ?c1 (hd zs)" unfolding zs_def by (metis hd_dropWhile)
    moreover have "zs \<noteq> [] \<Longrightarrow> t \<noteq> free_idx c"
      using cba_layout_tail_step [of "?c1\<lparr>tail_idx := t\<rparr>" "hd zs" "tl zs"] t(2) pool by simp
    moreover have "zs = [] \<Longrightarrow> t = free_idx c" using cba_layout_nil [of "?c1\<lparr>tail_idx := t\<rparr>"] t(2) by simp
    ultimately have zs: "zs = [] \<longleftrightarrow> t = free_idx c" "zs \<noteq> [] \<longrightarrow> is_bound ?c1 (hd zs)" by auto
    define c' where "c' = (if zs = [] then ?c1\<lparr>tail_idx := 0, head_idx := 0, free_idx := 0\<rparr> else ?c1\<lparr>tail_idx := t\<rparr>)"
    from t True have "cba_free_loop ?c1 k = Some (?c1\<lparr>tail_idx := t\<rparr>)" by simp
    then have f: "cba_free c (Some (k + CBA_HEADER_LEN)) = Some c'"
      by (simp add: cba_free_def idx h c1 True [symmetric] zs(1) c'_def)
    have "cba_wf c' zs"
    proof (cases "zs = []")
      case nil: True
      have "cba_pool c'" using pool nil by (simp add: c'_def cba_pool_def unbind_def split: if_splits)
      moreover have "cba_layout c' []"
        using pool nil by (auto simp: c'_def cba_pool_def intro: cba_layoutI_straight)
      ultimately show ?thesis using nil by (simp add: cba_wf_def c'_def)
    next
      case cons: False
      then have "last xs = last zs" using yz by simp
      with cons wf ne t(2) pool zs show ?thesis by (simp add: cba_wf_def c'_def)
    qed
    moreover have "\<forall>i\<in>set ys. i = k \<or> \<not> is_bound c i"
      unfolding ys_def by (auto dest: set_takeWhileD)
    moreover have "is_bound c' i \<longleftrightarrow> i \<noteq> k \<and> is_bound c i" for i
      by (simp add: c'_def)
    moreover have "drop (length ys) xs = zs" "take (length ys) xs = ys" using yz by simp_all
    ultimately have "free_post c xs k c'"
      unfolding free_post_def by (intro conjI exI [of _ ys]) (auto simp: c'_def)
    with f show ?thesis by blast
  qed
qed

section \<open>The chunks of a pool are determined by its state\<close>

lemma cba_layout_unique:
  "cba_layout c xs \<Longrightarrow> cba_layout c ys \<Longrightarrow> cba_pool c \<Longrightarrow> xs = ys"
proof (induction xs arbitrary: c ys)
  case Nil
  then show ?case
    using cba_layout_nil [of c] cba_layout_tail_step [of c "hd ys" "tl ys"] by (cases ys) auto
next
  case (Cons k ks)
  obtain l ls where ys: "ys = l # ls"
    using Cons.prems cba_layout_nil [of c] cba_layout_tail_step [of c k ks] by (cases ys) auto
  with Cons.prems cba_layout_tail_step [of c k ks] cba_layout_tail_step [of c l ls]
  obtain i where "l = k" "cba_layout (c\<lparr>tail_idx := i\<rparr>) ks" "cba_layout (c\<lparr>tail_idx := i\<rparr>) ls"
    by auto
  with Cons.IH [of "c\<lparr>tail_idx := i\<rparr>" ls] Cons.prems(3) ys show ?case by simp
qed

definition cba_ok :: "cba \<Rightarrow> bool" where
  "cba_ok c \<longleftrightarrow> (\<exists>xs. cba_wf c xs)"

definition cba_live :: "cba \<Rightarrow> nat set" where
  "cba_live c = {k + CBA_HEADER_LEN | k xs. cba_wf c xs \<and> k \<in> set xs \<and> is_bound c k}"

lemma cba_wf_unique: "cba_wf c xs \<Longrightarrow> cba_wf c ys \<Longrightarrow> xs = ys"
  by (auto simp: cba_wf_def dest: cba_layout_unique)

lemma cba_live_iff: "cba_wf c xs \<Longrightarrow> p \<in> cba_live c \<longleftrightarrow> (\<exists>k\<in>set xs. is_bound c k \<and> p = k + CBA_HEADER_LEN)"
  by (auto simp: cba_live_def dest: cba_wf_unique)

definition buffer_ok :: "(nat \<Rightarrow> cba_header option) \<Rightarrow> nat \<Rightarrow> bool" where
  "buffer_ok buf n \<longleftrightarrow> 0 < n \<and> n \<le> 4099 \<and> (\<forall>i. buf i \<noteq> None \<longleftrightarrow> i + CBA_HEADER_LEN \<le> n)"

lemma cba_init_wf: "buffer_ok buf n \<Longrightarrow> cba_wf (cba_init buf n) []"
  by (auto simp: buffer_ok_def cba_wf_def cba_pool_def cba_init_def intro: cba_layoutI_straight)

lemma cba_reset_wf: "cba_wf c xs \<Longrightarrow> cba_wf (cba_reset c) []"
  by (auto simp: cba_wf_def cba_pool_def cba_reset_def intro: cba_layoutI_straight)

lemma cba_malloc_live:
  assumes "cba_ok c" "cba_malloc c n = Some (Some p, c')"
  shows "cba_ok c' \<and> p \<notin> cba_live c \<and> p \<in> cba_live c' \<and> cba_live c \<subseteq> cba_live c'"
proof -
  from assms obtain xs where wf: "cba_wf c xs" by (auto simp: cba_ok_def)
  from cba_malloc_cases [OF wf, of n] assms obtain k where p: "p = k + CBA_HEADER_LEN"
    and post: "alloc_post c xs (cba_chunk_len n) k c'" by auto
  then have wf': "cba_wf c' (xs @ [k])" by (simp add: alloc_post_def)
  with post show ?thesis
    unfolding cba_live_iff [OF wf] cba_live_iff [OF wf'] p subset_iff
    by (auto simp: alloc_post_def cba_ok_def)
qed

lemma cba_free_live:
  assumes "cba_ok c" "p \<in> cba_live c"
  shows "\<exists>c'. cba_free c (Some p) = Some c' \<and> cba_ok c' \<and> cba_live c' = cba_live c - {p}"
proof -
  from assms obtain xs where wf: "cba_wf c xs" by (auto simp: cba_ok_def)
  with assms obtain k where k: "k \<in> set xs" "p = k + CBA_HEADER_LEN" by (auto simp: cba_live_iff)
  from cba_free_ok [OF wf k(1)] k obtain c' where f: "cba_free c (Some p) = Some c'"
    and post: "free_post c xs k c'" by auto
  then obtain ys where ys: "cba_wf c' (drop (length ys) xs)" "ys = take (length ys) xs"
    "\<forall>i\<in>set ys. i = k \<or> \<not> is_bound c i" and b: "\<forall>i. is_bound c' i \<longleftrightarrow> i \<noteq> k \<and> is_bound c i"
    by (auto simp: free_post_def)
  have split: "set xs = set ys \<union> set (drop (length ys) xs)"
    by (metis append_take_drop_id set_append ys(2))
  have "q \<in> cba_live c' \<longleftrightarrow> q \<in> cba_live c - {p}" for q
    unfolding Diff_iff cba_live_iff [OF wf] cba_live_iff [OF ys(1)] using b ys(3) k split by auto
  with f ys(1) show ?thesis by (auto simp: cba_ok_def)
qed

section \<open>Sessions: what a client of the allocator can rely on\<close>

interpretation cba_pool: chunk_allocator cba_ok cba_live cba_malloc cba_free
proof unfold_locales
  fix s n s' p
  assume ok: "cba_ok s"
  then obtain xs where wf: "cba_wf s xs" by (auto simp: cba_ok_def)
  from cba_malloc_cases [OF wf, of n] show "\<exists>r. cba_malloc s n = Some r" by blast
  from cba_malloc_cases [OF wf, of n] show "cba_malloc s n = Some (None, s') \<Longrightarrow> s' = s" by auto
  show "cba_malloc s n = Some (Some p, s') \<Longrightarrow>
      cba_ok s' \<and> p \<notin> cba_live s \<and> p \<in> cba_live s' \<and> cba_live s \<subseteq> cba_live s'"
    by (rule cba_malloc_live [OF ok])
  show "p \<in> cba_live s \<Longrightarrow> \<exists>s'. cba_free s (Some p) = Some s' \<and> cba_ok s' \<and> cba_live s' = cba_live s - {p}"
    by (rule cba_free_live [OF ok])
qed (simp add: cba_free_def)

text \<open>
  A session is a client that initialises a pool and then allocates, resets and releases the
  blocks it holds, in any order: \<open>H\<close> holds a pair of pointer and requested length for every
  block it has not released. Requests are at most \<open>65532\<close> bytes (see below for larger ones).
\<close>

inductive cba_session :: "cba \<Rightarrow> (nat \<times> nat) set \<Rightarrow> bool" where
  sess_init: "buffer_ok buf n \<Longrightarrow> cba_session (cba_init buf n) {}"
| sess_reset: "cba_session c H \<Longrightarrow> cba_session (cba_reset c) {}"
| sess_malloc: "cba_session c H \<Longrightarrow> len \<le> 65532 \<Longrightarrow> cba_malloc c len = Some (Some p, c') \<Longrightarrow>
    cba_session c' (insert (p, len) H)"
| sess_malloc_null: "cba_session c H \<Longrightarrow> cba_malloc c len = Some (None, c') \<Longrightarrow> cba_session c' H"
| sess_free: "cba_session c H \<Longrightarrow> (p, len) \<in> H \<Longrightarrow> cba_free c (Some p) = Some c' \<Longrightarrow>
    cba_session c' (H - {(p, len)})"
| sess_free_null: "cba_session c H \<Longrightarrow> cba_free c None = Some c' \<Longrightarrow> cba_session c' H"

definition session_inv :: "cba \<Rightarrow> nat list \<Rightarrow> (nat \<times> nat) set \<Rightarrow> bool" where
  "session_inv c xs H \<longleftrightarrow> cba_wf c xs \<and> (\<forall>p n m. (p, n) \<in> H \<longrightarrow> (p, m) \<in> H \<longrightarrow> n = m) \<and>
     (\<forall>(p, n)\<in>H. \<exists>k\<in>set xs. p = k + CBA_HEADER_LEN \<and> is_bound c k \<and> p + n \<le> chunk_end (buffer c) k)"

lemma session_invD:
  "session_inv c xs H \<Longrightarrow> (p, n) \<in> H \<Longrightarrow>
   \<exists>k\<in>set xs. p = k + CBA_HEADER_LEN \<and> is_bound c k \<and> p + n \<le> chunk_end (buffer c) k"
  unfolding session_inv_def by blast

lemma session_inv_alloc:
  assumes inv: "session_inv c xs H" and len: "len \<le> 65532" and post: "alloc_post c xs (cba_chunk_len len) k c'"
  shows "session_inv c' (xs @ [k]) (insert (k + CBA_HEADER_LEN, len) H)"
proof -
  note post' = alloc_postD [OF post]
  have new: "k + CBA_HEADER_LEN \<noteq> q" if "(q, n) \<in> H" for q n
    using session_invD [OF inv that] post'(1) by auto
  have "\<exists>k'\<in>set (xs @ [k]). q = k' + CBA_HEADER_LEN \<and> is_bound c' k' \<and> q + n \<le> chunk_end (buffer c') k'"
    if "(q, n) \<in> insert (k + CBA_HEADER_LEN, len) H" for q n
  proof (cases "(q, n) = (k + CBA_HEADER_LEN, len)")
    case True
    with post'(3,4) cba_chunk_len_ge [OF len] show ?thesis by auto
  next
    case False
    with that session_invD [OF inv, of q n] obtain k' where
      "k' \<in> set xs" "q = k' + CBA_HEADER_LEN" "is_bound c k'" "q + n \<le> chunk_end (buffer c) k'" by auto
    with post'(5,6) [of k'] show ?thesis by auto
  qed
  moreover have "\<And>q n m. (q, n) \<in> insert (k + CBA_HEADER_LEN, len) H \<Longrightarrow> (q, m) \<in> insert (k + CBA_HEADER_LEN, len) H \<Longrightarrow> n = m"
    using inv new unfolding session_inv_def by blast
  ultimately show ?thesis using post'(2) unfolding session_inv_def by blast
qed

lemma session_inv_malloc:
  assumes inv: "session_inv c xs H" and len: "len \<le> 65532"
    and m: "cba_malloc c len = Some (Some p, c')"
  shows "\<exists>xs'. session_inv c' xs' (insert (p, len) H)"
proof -
  from inv have wf: "cba_wf c xs" by (simp add: session_inv_def)
  from cba_malloc_cases [OF wf, of len] m obtain k where p: "p = k + CBA_HEADER_LEN"
    and post: "alloc_post c xs (cba_chunk_len len) k c'" by auto
  from session_inv_alloc [OF inv len post] p show ?thesis by blast
qed

lemma session_inv_free:
  assumes inv: "session_inv c xs H" and pn: "(p, n) \<in> H"
  shows "\<exists>c' xs'. cba_free c (Some p) = Some c' \<and> session_inv c' xs' (H - {(p, n)})"
proof -
  from inv have wf: "cba_wf c xs" and inj: "\<And>p n m. (p, n) \<in> H \<Longrightarrow> (p, m) \<in> H \<Longrightarrow> n = m"
    unfolding session_inv_def by blast+
  from session_invD [OF inv pn] obtain k where k: "k \<in> set xs" "p = k + CBA_HEADER_LEN" by auto
  from cba_free_ok [OF wf k(1)] k obtain c' where f: "cba_free c (Some p) = Some c'"
    and post: "free_post c xs k c'" by auto
  then obtain ys where ys: "cba_wf c' (drop (length ys) xs)" "ys = take (length ys) xs"
    "\<forall>i\<in>set ys. i = k \<or> \<not> is_bound c i" by (auto simp: free_post_def)
  have split: "set xs = set ys \<union> set (drop (length ys) xs)"
    by (metis append_take_drop_id set_append ys(2))
  have "\<exists>k'\<in>set (drop (length ys) xs). q = k' + CBA_HEADER_LEN \<and> is_bound c' k' \<and> q + m \<le> chunk_end (buffer c') k'"
    if qm: "(q, m) \<in> H - {(p, n)}" for q m
  proof -
    from qm obtain k' where k': "k' \<in> set xs" "q = k' + CBA_HEADER_LEN" "is_bound c k'"
      "q + m \<le> chunk_end (buffer c) k'" using session_invD [OF inv, of q m] by auto
    from inj qm pn have "q \<noteq> p" by blast
    with k' k ys(3) split post show ?thesis by (auto simp: free_post_def)
  qed
  then have "session_inv c' (drop (length ys) xs) (H - {(p, n)})"
    using ys(1) inj unfolding session_inv_def by blast
  with f show ?thesis by blast
qed

lemma cba_session_inv: "cba_session c H \<Longrightarrow> \<exists>xs. session_inv c xs H"
proof (induction rule: cba_session.induct)
  case (sess_init buf n)
  then show ?case using cba_init_wf by (auto simp: session_inv_def)
next
  case (sess_reset c H)
  then show ?case using cba_reset_wf by (fastforce simp: session_inv_def)
next
  case (sess_malloc c H len p c')
  then show ?case using session_inv_malloc by blast
next
  case (sess_malloc_null c H len c')
  then show ?case using cba_malloc_cases [of c _ len] by (fastforce simp: session_inv_def)
next
  case (sess_free c H p len c')
  then show ?case using session_inv_free by fastforce
next
  case (sess_free_null c H c')
  then show ?case by (simp add: cba_free_def)
qed

lemma session_inv_ok: "session_inv c xs H \<Longrightarrow> cba_ok c"
  by (auto simp: session_inv_def cba_ok_def)

section \<open>Properties\<close>

text \<open>C15: A client of the circular allocator that frees only what it holds, in any order, never gets
  overlapping memory: the blocks it holds lie inside the pool, and two different blocks are apart by
  at least a header. Pools up to 4099 bytes, the range of the 12 bit length field.\<close>

theorem cba_session_disjoint:
  assumes "cba_session c H" "(p, n) \<in> H" "(q, m) \<in> H"
  shows "CBA_HEADER_LEN \<le> p \<and> p + n \<le> cba_size c \<and>
    ((p, n) = (q, m) \<or> p + n + CBA_HEADER_LEN \<le> q \<or> q + m + CBA_HEADER_LEN \<le> p)"
proof -
  from cba_session_inv [OF assms(1)] obtain xs where inv: "session_inv c xs H" ..
  then have lay: "cba_layout c xs" by (simp add: session_inv_def cba_wf_def)
  from session_invD [OF inv assms(2)] session_invD [OF inv assms(3)] obtain k l where
    k: "k \<in> set xs" "p = k + CBA_HEADER_LEN" "p + n \<le> chunk_end (buffer c) k" and
    l: "l \<in> set xs" "q = l + CBA_HEADER_LEN" "q + m \<le> chunk_end (buffer c) l" by auto
  have "p = q \<Longrightarrow> n = m" using inv assms(2,3) unfolding session_inv_def by blast
  with k l have "(p, n) = (q, m) \<or> k < l \<or> l < k" by auto
  then show ?thesis
    using cba_layout_disjoint [OF lay k(1) l(1)] cba_layout_disjoint [OF lay l(1) k(1)]
      cba_layout_bounds [OF lay k(1)] k l by auto
qed

definition pool50 :: "nat \<Rightarrow> cba_header option" where
  "pool50 i = (if i + CBA_HEADER_LEN \<le> 50 then Some \<lparr>marker = 0, bound = 0, chunk_len = 0\<rparr> else None)"

lemma pool50_ok: "buffer_ok pool50 50"
  by (simp add: buffer_ok_def pool50_def)

lemmas cba_eval = cba_malloc_def cba_allocate_chunk_def cba_reallocate_chunk_def cba_chunk_len_def
  cba_init_def cba_free_def cba_free_loop.simps cba_chunk_idx_def cba_next_chunk_idx_def
  trunc16_def sub16_def Let_def

text \<open>A pool of 50 bytes after two allocations, of 12 and 7 bytes.\<close>

definition demo_cba :: cba where
  "demo_cba = (case cba_malloc (cba_init pool50 50) 12 of
     Some (Some _, c1) \<Rightarrow> (case cba_malloc c1 7 of Some (Some _, c2) \<Rightarrow> c2 | _ \<Rightarrow> c1)
   | _ \<Rightarrow> cba_init pool50 50)"

lemma demo_cba_session: "cba_session demo_cba {(4, 12), (20, 7)}"
proof -
  obtain c1 where m1: "cba_malloc (cba_init pool50 50) 12 = Some (Some 4, c1)"
    by (simp add: cba_eval pool50_def)
  obtain c2 where m2: "cba_malloc c1 7 = Some (Some 20, c2)"
    using m1 by (auto simp: cba_eval pool50_def)
  from sess_malloc [OF sess_init [OF pool50_ok] _ m1] have s1: "cba_session c1 {(4, 12)}" by simp
  from sess_malloc [OF s1 _ m2] have "cba_session c2 {(20, 7), (4, 12)}" by simp
  moreover have "demo_cba = c2" by (simp add: demo_cba_def m1 m2)
  ultimately show ?thesis by (simp add: insert_commute)
qed

lemma demo_cba_wf: "cba_wf demo_cba [0, 16]"
  by (simp add: cba_wf_def demo_cba_def cba_eval pool50_def cba_layout_def cba_pool_def is_bound_def)

theorem cba_session_disjoint_witness:
  "CBA_HEADER_LEN \<le> (4::nat) \<and> 4 + 12 \<le> cba_size demo_cba \<and>
    ((4::nat, 12::nat) = (20, 7) \<or> 4 + 12 + CBA_HEADER_LEN \<le> (20::nat) \<or> 20 + 7 + CBA_HEADER_LEN \<le> (4::nat))"
  by (rule cba_session_disjoint [OF demo_cba_session]) simp_all

text \<open>C28: In every state a client can reach, each request is answered: cba_malloc returns for every
  length, and cba_free returns for every block held, without an access outside the pool and without
  looping, and releases exactly that block, whatever the order of the releases.\<close>

theorem cba_session_defined:
  assumes "cba_session c H"
  shows "(\<exists>r. cba_malloc c len = Some r) \<and>
    (\<forall>(p, n)\<in>H. \<exists>c'. cba_free c (Some p) = Some c' \<and> cba_session c' (H - {(p, n)}) \<and>
       cba_live c' = cba_live c - {p})"
proof -
  from cba_session_inv [OF assms] obtain xs where inv: "session_inv c xs H" ..
  note ok = session_inv_ok [OF inv]
  have "\<exists>c'. cba_free c (Some p) = Some c' \<and> cba_session c' (H - {(p, n)}) \<and> cba_live c' = cba_live c - {p}"
    if pn: "(p, n) \<in> H" for p n
  proof -
    have wf: "cba_wf c xs" using inv by (simp add: session_inv_def)
    have "p \<in> cba_live c" using session_invD [OF inv pn] by (auto simp: cba_live_iff [OF wf])
    with cba_free_live [OF ok] sess_free [OF assms pn] show ?thesis by blast
  qed
  with cba_pool.malloc_total [OF ok] show ?thesis by auto
qed

theorem cba_session_defined_witness:
  "(\<exists>r. cba_malloc demo_cba 9 = Some r) \<and>
    (\<exists>c'. cba_free demo_cba (Some 4) = Some c' \<and> cba_session c' ({(4, 12), (20, 7)} - {(4, 12)}) \<and>
       cba_live c' = cba_live demo_cba - {4})"
  using cba_session_defined [OF demo_cba_session, of 9] by blast

text \<open>A pool without a bound chunk.\<close>

lemma cba_idle:
  assumes "cba_ok c" "cba_live c = {}"
  shows "tail_idx c = 0 \<and> head_idx c = 0 \<and> free_idx c = 0 \<and>
    (\<exists>c'. cba_malloc c len = Some (if cba_chunk_len len + CBA_HEADER_LEN < cba_size c then Some CBA_HEADER_LEN else None, c'))"
proof -
  from assms obtain xs where wf: "cba_wf c xs" by (auto simp: cba_ok_def)
  have "xs = []"
  proof (rule ccontr)
    assume "xs \<noteq> []"
    with wf have "hd xs + CBA_HEADER_LEN \<in> cba_live c" by (auto simp: cba_live_iff [OF wf] cba_wf_def)
    with assms(2) show False by simp
  qed
  with wf have idle: "tail_idx c = 0" "head_idx c = 0" "free_idx c = 0"
    using cba_layout_nil [of c] by (auto simp: cba_wf_def)
  from wf have pool: "cba_pool c" by (simp add: cba_wf_def)
  then have "cba_size c < 65536" by (simp add: cba_pool_def)
  with idle reallocate_chunk [OF pool, of 0 "cba_chunk_len len"] show ?thesis
    by (auto simp: cba_malloc_def cba_allocate_chunk_def sub16_id)
qed

lemma cba_free_size: "cba_ok c \<Longrightarrow> p \<in> cba_live c \<Longrightarrow> cba_free c (Some p) = Some c' \<Longrightarrow> cba_size c' = cba_size c"
proof -
  assume "cba_ok c" and p: "p \<in> cba_live c" and f: "cba_free c (Some p) = Some c'"
  then obtain xs where wf: "cba_wf c xs" by (auto simp: cba_ok_def)
  from p obtain k where k: "k \<in> set xs" "p = k + CBA_HEADER_LEN" by (auto simp: cba_live_iff [OF wf])
  from cba_free_ok [OF wf k(1)] f k(2) show ?thesis by (auto simp: free_post_def)
qed

primrec cba_free_all :: "cba \<Rightarrow> nat list \<Rightarrow> cba option" where
  "cba_free_all c [] = Some c"
| "cba_free_all c (p # ps) = do { c \<leftarrow> cba_free c (Some p); cba_free_all c ps }"

lemma free_all_ok:
  "cba_ok c \<Longrightarrow> cba_live c = set ps \<Longrightarrow> distinct ps \<Longrightarrow>
   \<exists>c'. cba_free_all c ps = Some c' \<and> cba_ok c' \<and> cba_live c' = {} \<and> cba_size c' = cba_size c"
proof (induction ps arbitrary: c)
  case (Cons p ps)
  then have p: "p \<in> cba_live c" by simp
  from cba_free_live [OF Cons.prems(1) p] obtain c1 where
    c1: "cba_free c (Some p) = Some c1" "cba_ok c1" "cba_live c1 = cba_live c - {p}" by blast
  have "cba_live c1 = set ps" using c1(3) Cons.prems(2,3) by auto
  with Cons.IH [OF c1(2)] Cons.prems(3) c1(1) cba_free_size [OF Cons.prems(1) p c1(1)] show ?case by auto
qed simp

text \<open>C32: A client that releases all the chunks that are bound, in any order, gets a pool as good as
  new: every cba_free returns, the last one brings all three indices back to 0, and an allocation
  then succeeds exactly when the rounded length and its header are together strictly less than the
  size of the pool, and gives the first block.\<close>

theorem cba_all_released:
  assumes "cba_session c H" "cba_live c = set ps" "distinct ps" "ps \<noteq> []"
  shows "\<exists>c'. cba_free_all c ps = Some c' \<and> tail_idx c' = 0 \<and> head_idx c' = 0 \<and> free_idx c' = 0 \<and>
    (\<exists>c''. cba_malloc c' len = Some (if cba_chunk_len len + CBA_HEADER_LEN < cba_size c then Some CBA_HEADER_LEN else None, c''))"
proof -
  from cba_session_inv [OF assms(1)] have "cba_ok c" using session_inv_ok by blast
  from free_all_ok [OF this assms(2,3)] obtain c' where
    c': "cba_free_all c ps = Some c'" "cba_ok c'" "cba_live c' = {}" "cba_size c' = cba_size c" by blast
  from cba_idle [OF c'(2,3), of len] c'(1) show ?thesis unfolding c'(4) by blast
qed

theorem cba_all_released_witness:
  "\<exists>c'. cba_free_all demo_cba [20, 4] = Some c' \<and> tail_idx c' = 0 \<and> head_idx c' = 0 \<and> free_idx c' = 0 \<and>
    (\<exists>c''. cba_malloc c' 40 = Some (Some CBA_HEADER_LEN, c''))"
proof -
  have live: "cba_live demo_cba = set [20, 4]"
    unfolding set_eq_iff cba_live_iff [OF demo_cba_wf]
    by (auto simp: is_bound_def demo_cba_def cba_eval pool50_def)
  have room: "cba_chunk_len 40 + CBA_HEADER_LEN < cba_size demo_cba"
    by (simp add: demo_cba_def cba_eval pool50_def)
  have "distinct [20, 4 :: nat]" "[20, 4 :: nat] \<noteq> []" by simp_all
  from cba_all_released [OF demo_cba_session live this, of 40] show ?thesis unfolding if_P [OF room] .
qed

text \<open>C31: What an allocation changes of the bound chunks: a successful cba_malloc adds the block it
  returns and keeps every other, and, only when it wraps to the start of the pool, also binds the
  chunk that was the newest before, even if that chunk had been released.\<close>

theorem cba_malloc_live_exact:
  assumes "cba_wf c xs" "cba_malloc c len = Some (Some p, c')"
  shows "cba_live c' = insert p (cba_live c) \<union> (if p = CBA_HEADER_LEN \<and> xs \<noteq> [] then {last xs + CBA_HEADER_LEN} else {})"
proof -
  from cba_malloc_cases [OF assms(1), of len] assms(2) obtain k where
    p: "p = k + CBA_HEADER_LEN" and post: "alloc_post c xs (cba_chunk_len len) k c'" by auto
  then have wf': "cba_wf c' (xs @ [k])" by (simp add: alloc_post_def)
  have "q \<in> cba_live c' \<longleftrightarrow>
    q \<in> insert p (cba_live c) \<union> (if p = CBA_HEADER_LEN \<and> xs \<noteq> [] then {last xs + CBA_HEADER_LEN} else {})" for q
    using post p unfolding Un_iff insert_iff cba_live_iff [OF assms(1)] cba_live_iff [OF wf']
    by (auto simp: alloc_post_def)
  then show ?thesis by blast
qed

section \<open>Where the allocator does not do what it means to\<close>

datatype cba_op = Malloc nat | Free nat

fun cba_script :: "cba \<Rightarrow> cba_op list \<Rightarrow> (nat option list \<times> cba) option" where
  "cba_script c [] = Some ([], c)"
| "cba_script c (Malloc n # ops) = do {
     (p, c') \<leftarrow> cba_malloc c n;
     (ps, c'') \<leftarrow> cba_script c' ops;
     Some (p # ps, c'') }"
| "cba_script c (Free p # ops) = do { c' \<leftarrow> cba_free c (Some p); cba_script c' ops }"

text \<open>
  Three allocations, the first and the last released: the next allocation wraps, and the chunk at
  32, which nobody holds, is bound again.
\<close>

definition wrap_cba :: cba where
  "wrap_cba = (case cba_script (cba_init pool50 50) [Malloc 12, Malloc 12, Malloc 8, Free 4, Free 36] of
     Some (_, c) \<Rightarrow> c | None \<Rightarrow> cba_init pool50 50)"

lemma wrap_cba_wf: "cba_wf wrap_cba [16, 32]"
proof -
  have "cba_pool wrap_cba"
    by (auto simp: wrap_cba_def cba_eval cba_pool_def pool50_def)
  moreover have "cba_layout wrap_cba [16, 32]"
    by (rule cba_layoutI_straight) (simp_all add: wrap_cba_def cba_eval pool50_def)
  ultimately show ?thesis
    by (simp add: cba_wf_def is_bound_def wrap_cba_def cba_eval pool50_def)
qed

theorem cba_malloc_live_exact_witness:
  "\<exists>c'. cba_malloc wrap_cba 8 = Some (Some 4, c') \<and> cba_live c' = {4, 20, 36}"
proof -
  obtain c' where m: "cba_malloc wrap_cba 8 = Some (Some 4, c')"
    by (simp add: wrap_cba_def cba_eval pool50_def)
  have "cba_live wrap_cba = {20}"
    unfolding set_eq_iff cba_live_iff [OF wrap_cba_wf]
    by (auto simp: is_bound_def wrap_cba_def cba_eval pool50_def)
  with cba_malloc_live_exact [OF wrap_cba_wf m] m show ?thesis by auto
qed

text \<open>
  A chunk that was released out of order and then becomes the head is bound again when an
  allocation wraps: the client below has released everything it ever got, and the pool still
  refuses a request that it served when it was fresh.
\<close>

theorem cba_wrap_leaks:
  "map_option fst (cba_script (cba_init pool50 50)
     [Malloc 12, Malloc 12, Malloc 8, Free 4, Free 36, Malloc 8, Free 20, Free 4, Malloc 20]) =
     Some [Some 4, Some 20, Some 36, Some 4, None]"
  "map_option fst (cba_script (cba_init pool50 50) [Malloc 20]) = Some [Some 4]"
  by (simp_all add: cba_eval pool50_def)

text \<open>
  \<open>chunk_len\<close> has 12 bits although \<open>cba_init\<close> takes a size of 16: in a pool of 8192 bytes a
  block of 4096 bytes is recorded with length 0 and the next block lies inside it.
\<close>

definition pool8k :: "nat \<Rightarrow> cba_header option" where
  "pool8k i = (if i + CBA_HEADER_LEN \<le> 8192 then Some \<lparr>marker = 0, bound = 0, chunk_len = 0\<rparr> else None)"

theorem cba_large_pool_overlap:
  "map_option fst (cba_script (cba_init pool8k 8192) [Malloc 4096, Malloc 8]) = Some [Some 4, Some 8]"
  by (simp add: cba_eval pool8k_def)

text \<open>
  The rounding to the alignment wraps in \<open>uint16_t\<close>: a request of 65533 bytes is granted from
  a pool of 50, with a chunk of length 0.
\<close>

theorem cba_huge_request_granted:
  "cba_chunk_len 65533 = 0"
  "map_option fst (cba_script (cba_init pool50 50) [Malloc 65533]) = Some [Some 4]"
  by (simp_all add: cba_eval pool50_def)

end
