(* ===== verification/Mx_CbaRealloc.thy ===== *)
theory Mx_CbaRealloc
  imports Mx_Cba "HOL-Library.Word"
begin

text \<open>
  \<open>cba_realloc\<close>, the operation that the option \<open>CBA_REALLOC\<close> adds to \<open>source/cba.c\<close> (without
  \<open>CBA_VALIDATION\<close>). It is the only one that reads and writes the data of the chunks, which are the
  bytes of the pool here, by their offset.
\<close>

section \<open>The operation\<close>

definition pool_memmove :: "cba \<Rightarrow> (nat \<Rightarrow> u8) \<Rightarrow> nat \<Rightarrow> nat \<Rightarrow> nat \<Rightarrow> (nat \<Rightarrow> u8) option" where
  "pool_memmove c m dst src n =
     (if dst + n \<le> cba_size c \<and> src + n \<le> cba_size c
      then Some (\<lambda>i. if dst \<le> i \<and> i < dst + n then m (src + (i - dst)) else m i)
      else None)"

definition cba_realloc :: "cba \<Rightarrow> (nat \<Rightarrow> u8) \<Rightarrow> nat option \<Rightarrow> nat \<Rightarrow> (nat option \<times> cba \<times> (nat \<Rightarrow> u8)) option" where
  "cba_realloc c m chunk len = (case chunk of None \<Rightarrow> Some (None, c, m)
   | Some p \<Rightarrow> (let idx = cba_chunk_idx p in do {
       header \<leftarrow> buffer c idx;
       if chunk_len header > len then Some (Some p, c, m)
       else if idx \<noteq> head_idx c then Some (None, c, m)
       else do {
         let prev_len = chunk_len header;
         (new_chunk, c) \<leftarrow> cba_allocate_chunk c (head_idx c) len;
         case new_chunk of None \<Rightarrow> Some (None, c, m)
         | Some q \<Rightarrow>
             if q \<noteq> idx + CBA_HEADER_LEN then do {
               m \<leftarrow> pool_memmove c m q (idx + CBA_HEADER_LEN) prev_len;
               c \<leftarrow> cba_free c (Some (idx + CBA_HEADER_LEN));
               Some (Some q, c, m) }
             else Some (Some q, c, m) } }))"

section \<open>Growing the last chunk where it is\<close>

definition grow_post :: "cba \<Rightarrow> nat list \<Rightarrow> nat \<Rightarrow> nat \<Rightarrow> cba \<Rightarrow> bool" where
  "grow_post c xs len k c' \<longleftrightarrow> cba_wf c' xs \<and> is_bound c' k \<and> chunk_end (buffer c') k = k + CBA_HEADER_LEN + len \<and>
     (\<forall>i. i \<noteq> k \<longrightarrow> chunk_end (buffer c') i = chunk_end (buffer c) i \<and> is_bound c' i = is_bound c i)"

lemma reallocate_last:
  assumes wf: "cba_wf c xs" and k: "xs = ys @ [k]"
    and room: "k < tail_idx c \<and> e < tail_idx c \<or> tail_idx c \<le> k \<and> e < cba_size c"
    and e: "e = k + CBA_HEADER_LEN + len"
  shows "\<exists>c'. cba_reallocate_chunk c k len = Some (k + CBA_HEADER_LEN, c') \<and> grow_post c xs len k c'"
proof -
  from wf have pool: "cba_pool c" and lay: "cba_layout c xs" by (auto simp: cba_wf_def)
  have "tail_idx c \<le> cba_size c" by (rule cba_layout_tail_le [OF lay])
  with room have le: "e < cba_size c" by auto
  with reallocate_chunk [OF pool, of k len] e obtain h where
    h: "buffer c k = Some h" and
    r: "cba_reallocate_chunk c k len = Some (k + CBA_HEADER_LEN,
         c\<lparr>buffer := (buffer c)(k \<mapsto> fresh_header h len), head_idx := k, free_idx := e\<rparr>)" (is "_ = Some (_, ?c')")
    by auto
  have "cba_pool ?c'" by (rule cba_pool_upd [OF pool, of k]) (use le e in auto)
  moreover have "cba_layout ?c' xs"
  proof (cases "free_idx c < tail_idx c")
    case True
    with lay obtain hi lo where hl: "xs = hi @ lo" "hi \<noteq> []" "lo \<noteq> []"
      "seg (buffer c) (tail_idx c) hi (cba_size c)" "seg (buffer c) 0 lo (free_idx c)"
      by (rule cba_layout_wrappedE)
    from hl(1,3) k obtain lo' where lo: "lo = lo' @ [k]" by (cases lo rule: rev_cases) auto
    with seg_distinct [OF hl(5)] seg_bounds [OF hl(5), of k] True have new: "k \<notin> set lo'" "k < tail_idx c" by auto
    then have "k \<notin> set hi" using seg_bounds [OF hl(4), of k] by auto
    with hl new lo room e show ?thesis
      by (intro cba_layoutI_wrapped [of _ hi "lo' @ [k]"]) (auto simp: seg_snoc)
  next
    case False
    with lay have s: "seg (buffer c) (tail_idx c) xs (free_idx c)" by (simp add: cba_layout_straight)
    with seg_distinct [OF s] seg_bounds [OF s, of k] k have new: "k \<notin> set ys" "tail_idx c \<le> k" by auto
    with s k room e show ?thesis by (intro cba_layoutI_straight) (auto simp: seg_snoc)
  qed
  moreover have "is_bound ?c' (hd xs)" using wf k by (cases ys) (auto simp: cba_wf_def)
  ultimately have "grow_post c xs len k ?c'" using e k by (auto simp: grow_post_def cba_wf_def)
  with r show ?thesis by blast
qed

text \<open>What the allocation of a chunk in place of the last one comes to.\<close>

lemma allocate_last_cases:
  assumes wf: "cba_wf c xs" and k: "xs = ys @ [k]"
  shows "cba_allocate_chunk c k len = Some (None, c) \<or>
    (\<exists>c'. cba_allocate_chunk c k len = Some (Some (k + CBA_HEADER_LEN), c') \<and> grow_post c xs (cba_chunk_len len) k c') \<or>
    (\<exists>c'. cba_allocate_chunk c k len = Some (Some CBA_HEADER_LEN, c') \<and> alloc_post c xs (cba_chunk_len len) 0 c')"
proof -
  define L where "L = cba_chunk_len len"
  note L = L_def [symmetric]
  from wf have pool: "cba_pool c" and lay: "cba_layout c xs" by (auto simp: cba_wf_def)
  from pool have size: "cba_size c < 65536" by (auto simp: cba_pool_def)
  have head: "head_idx c = k" using wf k by (simp add: cba_wf_def)
  have kin: "k \<in> set xs" using k by simp
  note ks = cba_layout_bounds [OF lay kin]
  note ts = cba_layout_tail_le [OF lay]
  consider (low) "k < tail_idx c" "L + CBA_HEADER_LEN < tail_idx c - k"
    | (high) "tail_idx c \<le> k" "L + CBA_HEADER_LEN < cba_size c - k"
    | (wrap) "tail_idx c \<le> k" "\<not> L + CBA_HEADER_LEN < cba_size c - k" "0 < tail_idx c" "L + CBA_HEADER_LEN < tail_idx c"
    | (full) "k < tail_idx c \<and> \<not> L + CBA_HEADER_LEN < tail_idx c - k \<or>
        tail_idx c \<le> k \<and> \<not> L + CBA_HEADER_LEN < cba_size c - k \<and> \<not> (0 < tail_idx c \<and> L + CBA_HEADER_LEN < tail_idx c)"
    by linarith
  then show ?thesis
  proof cases
    case low
    then have "k + CBA_HEADER_LEN + L < tail_idx c" by arith
    with low reallocate_last [OF wf k, of "k + CBA_HEADER_LEN + L" L] ts size show ?thesis
      by (auto simp: cba_allocate_chunk_def L sub16_id)
  next
    case high
    then have "k + CBA_HEADER_LEN + L < cba_size c" by arith
    with high reallocate_last [OF wf k, of "k + CBA_HEADER_LEN + L" L] ts size show ?thesis
      by (auto simp: cba_allocate_chunk_def L sub16_id)
  next
    case wrap
    have "tail_idx c \<le> free_idx c"
    proof (rule ccontr)
      assume "\<not> ?thesis"
      then have f: "free_idx c < tail_idx c" by simp
      from lay f obtain hi lo where hl: "xs = hi @ lo" "hi \<noteq> []" "lo \<noteq> []"
        "seg (buffer c) (tail_idx c) hi (cba_size c)" "seg (buffer c) 0 lo (free_idx c)"
        by (rule cba_layout_wrappedE)
      then have "k \<in> set lo" using k by (cases lo rule: rev_cases) auto
      with seg_bounds [OF hl(5), of k] f wrap(1) show False by simp
    qed
    from reallocate_wrapping [OF wf this wrap(3,4)] wrap ts size ks head show ?thesis
      by (auto simp: cba_allocate_chunk_def L sub16_id)
  next
    case full
    with ts size ks show ?thesis by (auto simp: cba_allocate_chunk_def L sub16_id)
  qed
qed

section \<open>Contents\<close>

text \<open>A block whose length is asked for anew, in a pool where its chunk has room for it.\<close>

lemma session_inv_resize:
  assumes inv: "session_inv c xs H" and p: "(k + CBA_HEADER_LEN, n) \<in> H"
    and c': "cba_wf c' xs" "is_bound c' k" "k + CBA_HEADER_LEN + len \<le> chunk_end (buffer c') k"
    and same: "\<forall>i. i \<noteq> k \<longrightarrow> chunk_end (buffer c') i = chunk_end (buffer c) i \<and> is_bound c' i = is_bound c i"
  shows "session_inv c' xs (insert (k + CBA_HEADER_LEN, len) (H - {(k + CBA_HEADER_LEN, n)}))"
proof -
  from inv have inj: "\<And>p n m. (p, n) \<in> H \<Longrightarrow> (p, m) \<in> H \<Longrightarrow> n = m" unfolding session_inv_def by blast
  from session_invD [OF inv p] have k: "k \<in> set xs" by auto
  have "\<exists>k'\<in>set xs. q = k' + CBA_HEADER_LEN \<and> is_bound c' k' \<and> q + m \<le> chunk_end (buffer c') k'"
    if "(q, m) \<in> insert (k + CBA_HEADER_LEN, len) (H - {(k + CBA_HEADER_LEN, n)})" for q m
  proof (cases "(q, m) = (k + CBA_HEADER_LEN, len)")
    case True
    with k c' show ?thesis by auto
  next
    case False
    with that have qm: "(q, m) \<in> H" "(q, m) \<noteq> (k + CBA_HEADER_LEN, n)" by auto
    with session_invD [OF inv qm(1)] inj [OF p] obtain k' where
      "k' \<in> set xs" "q = k' + CBA_HEADER_LEN" "is_bound c k'" "q + m \<le> chunk_end (buffer c) k'" "k' \<noteq> k" by blast
    with same show ?thesis by auto
  qed
  moreover have "a = b" if "(q, a) \<in> insert (k + CBA_HEADER_LEN, len) (H - {(k + CBA_HEADER_LEN, n)})"
    "(q, b) \<in> insert (k + CBA_HEADER_LEN, len) (H - {(k + CBA_HEADER_LEN, n)})" for q a b
    using that inj p by blast
  ultimately show ?thesis using c'(1) unfolding session_inv_def by blast
qed

lemma session_inv_grow:
  "session_inv c xs H \<Longrightarrow> len \<le> 65532 \<Longrightarrow> grow_post c xs (cba_chunk_len len) k c' \<Longrightarrow> (k + CBA_HEADER_LEN, n) \<in> H \<Longrightarrow>
   session_inv c' xs (insert (k + CBA_HEADER_LEN, len) (H - {(k + CBA_HEADER_LEN, n)}))"
  using cba_chunk_len_ge [of len] unfolding grow_post_def by (intro session_inv_resize) auto

text \<open>Blocks that are held do not overlap a new chunk.\<close>

lemma session_inv_apart:
  assumes inv: "session_inv c xs H" and k: "k \<in> set xs" and q: "(q, m) \<in> H" "q \<noteq> k + CBA_HEADER_LEN"
  shows "q + m \<le> k + CBA_HEADER_LEN \<or> chunk_end (buffer c) k \<le> q"
proof -
  from session_invD [OF inv q(1)] obtain l where
    l: "l \<in> set xs" "q = l + CBA_HEADER_LEN" "q + m \<le> chunk_end (buffer c) l" by auto
  from inv have lay: "cba_layout c xs" by (simp add: session_inv_def cba_wf_def)
  from l(2) q(2) consider "l < k" | "k < l" by linarith
  then show ?thesis
    using cba_layout_disjoint [OF lay l(1) k] cba_layout_disjoint [OF lay k l(1)] l by cases auto
qed

text \<open>C29: In every state that a client reaches, cba_realloc of a block it holds returns for every
  length up to 65532, without an access outside the pool. Either it returns NULL and changes
  nothing, or it returns a block of the new length that holds the bytes of the old one, the blocks
  held stay disjoint, and the bytes of every other block are untouched, whether the block grew in
  place or moved to the start of the pool.\<close>

theorem cba_realloc_keeps_contents:
  assumes "session_inv c xs H" "(p, n) \<in> H" "len \<le> 65532"
  shows "\<exists>r c' m'. cba_realloc c m (Some p) len = Some (r, c', m') \<and> (case r of
      None \<Rightarrow> c' = c \<and> m' = m
    | Some q \<Rightarrow> (\<exists>xs'. session_inv c' xs' (insert (q, len) (H - {(p, n)}))) \<and> (\<forall>i<n. m' (q + i) = m (p + i)) \<and>
        (\<forall>(p', n')\<in>H - {(p, n)}. \<forall>i<n'. m' (p' + i) = m (p' + i)))"
proof -
  from assms(1) have wf: "cba_wf c xs" and inj: "\<And>p n m. (p, n) \<in> H \<Longrightarrow> (p, m) \<in> H \<Longrightarrow> n = m"
    unfolding session_inv_def by blast+
  then have lay: "cba_layout c xs" and pool: "cba_pool c" by (auto simp: cba_wf_def)
  from session_invD [OF assms(1,2)] obtain k where
    k: "k \<in> set xs" "p = k + CBA_HEADER_LEN" "is_bound c k" "p + n \<le> chunk_end (buffer c) k" by auto
  from cba_layout_defined [OF lay k(1)] obtain h where h: "buffer c k = Some h" by auto
  then have e: "chunk_end (buffer c) k = p + chunk_len h" and n: "n \<le> chunk_len h" using k by simp_all
  have size: "p + chunk_len h \<le> cba_size c" "cba_size c < 65536"
    using cba_layout_bounds [OF lay k(1)] e pool by (auto simp: cba_pool_def)
  then have idx: "cba_chunk_idx p = k" using k(2) by (simp add: cba_chunk_idx_def sub16_id)
  consider (fits) "len < chunk_len h" | (inner) "\<not> len < chunk_len h" "k \<noteq> head_idx c" | (last) "chunk_len h \<le> len" "k = head_idx c"
    by linarith
  then show ?thesis
  proof cases
    case fits
    have "session_inv c xs (insert (p, len) (H - {(p, n)}))"
      using session_inv_resize [OF assms(1), of k n c len] assms(2) wf k fits e by simp
    with fits idx h show ?thesis by (auto simp: cba_realloc_def)
  next
    case inner
    then show ?thesis using idx h by (simp add: cba_realloc_def)
  next
    case last
    from wf k(1) last(2) have xs: "xs = butlast xs @ [k]" by (cases xs rule: rev_cases) (auto simp: cba_wf_def)
    from allocate_last_cases [OF wf xs, of len] show ?thesis
    proof (elim disjE exE conjE)
      assume "cba_allocate_chunk c k len = Some (None, c)"
      then show ?thesis using last idx h by (simp add: cba_realloc_def Let_def)
    next
      fix c' assume a: "cba_allocate_chunk c k len = Some (Some (k + CBA_HEADER_LEN), c')" and post: "grow_post c xs (cba_chunk_len len) k c'"
      from session_inv_grow [OF assms(1,3) post] assms(2) k(2)
      have "session_inv c' xs (insert (p, len) (H - {(p, n)}))" by simp
      then show ?thesis using a last idx h k(2) by (auto simp: cba_realloc_def Let_def)
    next
      fix c1 assume a: "cba_allocate_chunk c k len = Some (Some CBA_HEADER_LEN, c1)" and post: "alloc_post c xs (cba_chunk_len len) 0 c1"
      have inv1: "session_inv c1 (xs @ [0]) (insert (CBA_HEADER_LEN, len) H)"
        using session_inv_alloc [OF assms(1,3) post] by simp
      from alloc_postD(1) [OF post] k have p: "p \<noteq> CBA_HEADER_LEN" by (cases "k = 0") auto
      from session_inv_free [OF inv1, of p n] assms(2) obtain c2 xs' where
        f: "cba_free c1 (Some p) = Some c2" "session_inv c2 xs' (insert (CBA_HEADER_LEN, len) H - {(p, n)})" by auto
      have "insert (CBA_HEADER_LEN, len) H - {(p, n)} = insert (CBA_HEADER_LEN, len) (H - {(p, n)})" using p by auto
      with f(2) have inv2: "session_inv c2 xs' (insert (CBA_HEADER_LEN, len) (H - {(p, n)}))" by simp
      have end0: "chunk_end (buffer c1) 0 = CBA_HEADER_LEN + cba_chunk_len len" "cba_size c1 = cba_size c"
        using post by (simp_all add: alloc_post_def)
      have prev: "chunk_len h \<le> cba_chunk_len len" using last(1) cba_chunk_len_ge [OF assms(3)] by simp
      have apart: "q + j \<le> CBA_HEADER_LEN \<or> CBA_HEADER_LEN + cba_chunk_len len \<le> q" if "(q, j) \<in> H" for q j
      proof -
        have "q \<noteq> 0 + CBA_HEADER_LEN" using session_invD [OF assms(1) that] alloc_postD(1) [OF post] by auto
        with session_inv_apart [OF inv1, of 0 q j] that end0 show ?thesis by simp
      qed
      have "CBA_HEADER_LEN + cba_chunk_len len \<le> cba_size c1"
        using cba_layout_bounds [of c1 "xs @ [0]" 0] inv1 end0 by (simp add: session_inv_def cba_wf_def)
      then obtain m' where m': "pool_memmove c1 m CBA_HEADER_LEN p (chunk_len h) = Some m'"
        and mv: "m' = (\<lambda>i. if CBA_HEADER_LEN \<le> i \<and> i < CBA_HEADER_LEN + chunk_len h then m (p + (i - CBA_HEADER_LEN)) else m i)"
        using prev size end0 by (simp add: pool_memmove_def)
      have "\<forall>i<n. m' (CBA_HEADER_LEN + i) = m (p + i)" using n by (simp add: mv)
      moreover have "m' (q + i) = m (q + i)" if "(q, j) \<in> H" "i < j" for q i j
        using apart [OF that(1)] that(2) prev by (auto simp: mv)
      moreover have "cba_realloc c m (Some p) len = Some (Some CBA_HEADER_LEN, c2, m')"
        using a last idx h k(2) p m' f(1) by (simp add: cba_realloc_def Let_def)
      ultimately show ?thesis using inv2 by auto
    qed
  qed
qed

text \<open>In the pool of two blocks the second one grows in place, and keeps its bytes; the first has the
  byte 5 at every place.\<close>

theorem cba_realloc_keeps_contents_witness:
  "\<exists>c' m'. cba_realloc demo_cba (\<lambda>i. if i < 20 then 5 else of_nat i) (Some 20) 10 = Some (Some 20, c', m') \<and>
     (\<exists>xs. session_inv c' xs {(20, 10), (4, 12)}) \<and> m' (20 + 6) = 26 \<and> m' (4 + 11) = 5"
proof -
  let ?m = "\<lambda>i. if i < 20 then 5 else of_nat i :: u8"
  from cba_session_inv [OF demo_cba_session] obtain xs where "session_inv demo_cba xs {(4, 12), (20, 7)}" ..
  from cba_realloc_keeps_contents [OF this, of 20 7 10 ?m] obtain r c' m' where
    r: "cba_realloc demo_cba ?m (Some 20) 10 = Some (r, c', m')" and post: "case r of None \<Rightarrow> c' = demo_cba \<and> m' = ?m
      | Some q \<Rightarrow> (\<exists>xs'. session_inv c' xs' (insert (q, 10) ({(4, 12), (20, 7)} - {(20, 7)}))) \<and> (\<forall>i<7. m' (q + i) = ?m (20 + i)) \<and>
        (\<forall>(p', n')\<in>{(4, 12), (20, 7)} - {(20, 7)}. \<forall>i<n'. m' (p' + i) = ?m (p' + i))" by auto
  have "map_option fst (cba_realloc demo_cba ?m (Some 20) 10) = Some (Some 20)"
    by (simp add: demo_cba_def cba_realloc_def cba_eval pool50_def)
  with r have "r = Some 20" by simp
  have H: "{(4, 12), (20, 7)} - {(20, 7)} = {(4::nat, 12::nat)}" by auto
  from post [unfolded H] \<open>r = Some 20\<close> have "\<exists>xs. session_inv c' xs {(20, 10), (4, 12)}" "\<forall>i<7. m' (20 + i) = ?m (20 + i)" "\<forall>i<12. m' (4 + i) = ?m (4 + i)"
    by auto
  moreover from this(2,3) have "m' (20 + 6) = ?m (20 + 6)" "m' (4 + 11) = ?m (4 + 11)" by (simp_all only: numeral_less_iff num.simps less_num_simps)
  ultimately show ?thesis using r \<open>r = Some 20\<close> by auto
qed

text \<open>The comment of the code has a chunk that is big enough returned as it is. One that has exactly the
  length asked for is not recognised: the first block has 12 bytes, and 12 are refused.\<close>

theorem cba_realloc_exact_fit:
  "cba_realloc demo_cba m (Some 4) 12 = Some (None, demo_cba, m)"
  "map_option fst (cba_realloc demo_cba m (Some 4) 11) = Some (Some 4)"
  by (simp_all add: demo_cba_def cba_realloc_def cba_eval pool50_def)

text \<open>A last chunk that does not fit behind its start any more moves to the start of the pool, with its bytes.\<close>

lemma cba_realloc_moves:
  "map_option (\<lambda>(r, c, m). (r, map m [4..<13], tail_idx c, free_idx c))
     (case cba_script (cba_init pool50 50) [Malloc 24, Malloc 8, Free 4] of None \<Rightarrow> None
      | Some (_, c) \<Rightarrow> cba_realloc c of_nat (Some 32) 17) = Some (Some 4, [32, 33, 34, 35, 36, 37, 38, 39, 12], 0, 24)"
  by (simp add: cba_realloc_def pool_memmove_def cba_eval pool50_def upt_rec)

end
