(* ===== verification/Mx_CbaValidate.thy ===== *)
theory Mx_CbaValidate
  imports Mx_CbaRealloc
begin

text \<open>
  \<open>source/cba.c\<close> with the option \<open>CBA_VALIDATION\<close>: every access of a chunk checks the marker in its
  header, and every chunk ends in a marker byte, checked when the chunk is dropped. A failed check
  calls \<open>cba_report_exception\<close> of the application, which is taken to return; the operations give the
  list of its calls. The bytes of the chunks are kept beside the headers, by their offset in the pool.
\<close>

section \<open>Operations\<close>

type_synonym bytes = "nat \<Rightarrow> u8"

abbreviation (input) CBA_END_MARKER :: u8 where "CBA_END_MARKER \<equiv> 0x00"
abbreviation (input) CBA_END_MARKER_LEN :: nat where "CBA_END_MARKER_LEN \<equiv> 1"

definition cba_validate_head_marker :: "cba_header \<Rightarrow> string list" where
  "cba_validate_head_marker header = (if marker header \<noteq> CBA_HEAD_MARKER then [''invalid head marker''] else [])"

definition cba_validate_end_marker :: "cba \<Rightarrow> bytes \<Rightarrow> nat \<Rightarrow> cba_header \<Rightarrow> string list option" where
  "cba_validate_end_marker c m idx header = (let i = idx + CBA_HEADER_LEN + chunk_len header - 1 in
     if i < cba_size c then Some (if m i \<noteq> CBA_END_MARKER then [''invalid end marker''] else []) else None)"

definition v_chunk_len :: "nat \<Rightarrow> nat" where
  "v_chunk_len len0 = (let len = (if len0 < CBA_MIN_CHUNK_LEN then CBA_MIN_CHUNK_LEN else len0)
     in trunc16 ((len div CBA_ALLIGNMENT + 1) * CBA_ALLIGNMENT))"

definition v_chunk_idx :: "cba \<Rightarrow> nat \<Rightarrow> (nat \<times> string list) option" where
  "v_chunk_idx c chunk = (let idx = sub16 chunk CBA_HEADER_LEN in do {
     header \<leftarrow> buffer c idx;
     Some (idx, cba_validate_head_marker header) })"

definition v_next_chunk_idx :: "cba \<Rightarrow> nat \<Rightarrow> (nat \<times> string list) option" where
  "v_next_chunk_idx c idx = do {
     header \<leftarrow> buffer c idx;
     let r = cba_validate_head_marker header;
     if cba_size c = 0 then None
     else Some (trunc16 ((idx + CBA_HEADER_LEN + chunk_len header) mod cba_size c), r) }"

definition v_reallocate_chunk :: "cba \<Rightarrow> bytes \<Rightarrow> nat \<Rightarrow> nat \<Rightarrow> (nat \<times> cba \<times> bytes) option" where
  "v_reallocate_chunk c m idx len = do {
     header0 \<leftarrow> buffer c idx;
     let header = header0\<lparr>marker := CBA_HEAD_MARKER, bound := 1, chunk_len := len mod 2 ^ 12\<rparr>;
     let i = idx + CBA_HEADER_LEN + len - 1;
     if cba_size c = 0 \<or> i \<ge> cba_size c then None
     else Some (idx + CBA_HEADER_LEN,
       c\<lparr>buffer := (buffer c)(idx \<mapsto> header),
         head_idx := idx,
         free_idx := trunc16 ((idx + CBA_HEADER_LEN + chunk_len header) mod cba_size c)\<rparr>,
       m(i := CBA_END_MARKER)) }"

definition v_allocate_chunk :: "cba \<Rightarrow> bytes \<Rightarrow> nat \<Rightarrow> nat \<Rightarrow> (nat option \<times> cba \<times> bytes) option" where
  "v_allocate_chunk c m idx len0 =
     (let len = v_chunk_len len0 in
      if idx < tail_idx c then
        (let available = sub16 (sub16 (tail_idx c) idx) CBA_END_MARKER_LEN in
         if len + CBA_HEADER_LEN < available then
           map_option (\<lambda>(p, c'). (Some p, c')) (v_reallocate_chunk c m idx len)
         else Some (None, c, m))
      else
        (let available = sub16 (sub16 (cba_size c) idx) CBA_END_MARKER_LEN in
         if len + CBA_HEADER_LEN < available then
           map_option (\<lambda>(p, c'). (Some p, c')) (v_reallocate_chunk c m idx len)
         else if tail_idx c > 0 then
           (let available = sub16 (tail_idx c) CBA_END_MARKER_LEN in
            if len + CBA_HEADER_LEN < available then
              (let free_len = sub16 (cba_size c) (head_idx c + CBA_HEADER_LEN) in
               do { (_, c1, m1) \<leftarrow> v_reallocate_chunk c m (head_idx c) free_len;
                    (p, c2, m2) \<leftarrow> v_reallocate_chunk c1 m1 (free_idx c1) len;
                    Some (Some p, c2, m2) })
            else Some (None, c, m))
         else Some (None, c, m)))"

definition v_malloc :: "cba \<Rightarrow> bytes \<Rightarrow> nat \<Rightarrow> (nat option \<times> cba \<times> bytes) option" where
  "v_malloc c m len = v_allocate_chunk c m (free_idx c) len"

partial_function (option) v_free_loop :: "cba \<Rightarrow> bytes \<Rightarrow> nat \<Rightarrow> (cba \<times> string list) option" where
  "v_free_loop c m idx =
     (if idx = free_idx c then Some (c, [])
      else do {
        header \<leftarrow> buffer c idx;
        let r1 = cba_validate_head_marker header;
        if bound header = 1 then Some (c, r1)
        else do {
          r2 \<leftarrow> cba_validate_end_marker c m idx header;
          (idx', r3) \<leftarrow> v_next_chunk_idx c idx;
          (c', r4) \<leftarrow> v_free_loop (c\<lparr>tail_idx := idx'\<rparr>) m idx';
          Some (c', r1 @ r2 @ r3 @ r4) } })"

definition v_free :: "cba \<Rightarrow> bytes \<Rightarrow> nat option \<Rightarrow> (cba \<times> string list) option" where
  "v_free c m chunk =
     (case chunk of
        None \<Rightarrow> Some (c, [])
      | Some p \<Rightarrow> do {
          (idx, r1) \<leftarrow> v_chunk_idx c p;
          header \<leftarrow> buffer c idx;
          let r2 = cba_validate_head_marker header;
          let c1 = c\<lparr>buffer := (buffer c)(idx \<mapsto> header\<lparr>bound := 0\<rparr>)\<rparr>;
          if idx = tail_idx c1 then do {
            (c2, r3) \<leftarrow> v_free_loop c1 m idx;
            Some (if tail_idx c2 = free_idx c2
                  then c2\<lparr>tail_idx := 0, head_idx := 0, free_idx := 0\<rparr> else c2, r1 @ r2 @ r3) }
          else Some (c1, r1 @ r2) })"

section \<open>The markers stay in place\<close>

text \<open>Chunks have the alignment of the pool, and both markers.\<close>

definition chunks_ok :: "cba \<Rightarrow> bytes \<Rightarrow> nat list \<Rightarrow> bool" where
  "chunks_ok c m xs \<longleftrightarrow> 4 dvd cba_size c \<and> (\<forall>k\<in>set xs. \<exists>h. buffer c k = Some h \<and> marker h = CBA_HEAD_MARKER \<and>
     4 dvd k \<and> 4 dvd chunk_len h \<and> 0 < chunk_len h \<and> m (k + CBA_HEADER_LEN + chunk_len h - 1) = CBA_END_MARKER)"

lemma chunks_okD:
  assumes "chunks_ok c m xs" "k \<in> set xs"
  obtains h where "buffer c k = Some h" "marker h = CBA_HEAD_MARKER" "4 dvd k" "4 dvd chunk_len h" "0 < chunk_len h"
    "m (k + CBA_HEADER_LEN + chunk_len h - 1) = CBA_END_MARKER"
  using assms unfolding chunks_ok_def by blast

lemma v_chunk_len_eq: "v_chunk_len len = cba_chunk_len (max 3 len + 1)"
proof -
  define l where "l = max 3 len"
  have l: "3 \<le> l" by (simp add: l_def)
  have "v_chunk_len len = trunc16 ((l div 4 + 1) * 4)" by (auto simp: v_chunk_len_def l_def max_def)
  moreover have "(if (l + 1) mod 4 = 0 then l + 1 else ((l + 1) div 4 + 1) * 4) = (l div 4 + 1) * 4" by presburger
  moreover have "cba_chunk_len (l + 1) = trunc16 (if (l + 1) mod 4 = 0 then l + 1 else ((l + 1) div 4 + 1) * 4)"
    using l by (simp add: cba_chunk_len_def)
  ultimately show ?thesis unfolding l_def [symmetric] by simp
qed

lemma cba_chunk_len_dvd: "4 dvd cba_chunk_len len"
proof -
  have "4 dvd n \<Longrightarrow> 4 dvd trunc16 n" for n by (simp add: trunc16_def dvd_mod_iff)
  then show ?thesis by (simp add: cba_chunk_len_def Let_def dvd_eq_mod_eq_0)
qed

lemma room_eq: "4 dvd a \<Longrightarrow> 4 dvd n \<Longrightarrow> 0 < a \<Longrightarrow> a < 65536 \<Longrightarrow> (n + CBA_HEADER_LEN < sub16 a CBA_END_MARKER_LEN) = (n + CBA_HEADER_LEN < a)"
  by (simp add: sub16_id) presburger

lemma cba_layout_free_idx: "cba_layout c xs \<Longrightarrow> xs \<noteq> [] \<Longrightarrow> free_idx c = chunk_end (buffer c) (last xs)"
  unfolding cba_layout_def
proof (elim disjE exE conjE)
  assume "seg (buffer c) (tail_idx c) xs (free_idx c)" "xs \<noteq> []"
  then show ?thesis by (cases xs rule: rev_cases) (auto simp: seg_snoc)
next
  fix hi lo
  assume "xs = hi @ lo" "lo \<noteq> []" "seg (buffer c) 0 lo (free_idx c)"
  then show ?thesis by (cases lo rule: rev_cases) (auto simp: seg_snoc)
qed

lemma chunks_aligned:
  assumes wf: "cba_wf c xs" and ok: "chunks_ok c m xs"
  shows "4 dvd cba_size c" "4 dvd free_idx c" "4 dvd tail_idx c" "4 dvd head_idx c"
proof -
  from wf have lay: "cba_layout c xs" and pool: "cba_pool c" by (auto simp: cba_wf_def)
  show "4 dvd cba_size c" using ok by (simp add: chunks_ok_def)
  have "4 dvd free_idx c \<and> 4 dvd tail_idx c \<and> 4 dvd head_idx c"
  proof (cases "xs = []")
    case True
    with wf cba_layout_nil [of c] show ?thesis by (simp add: cba_wf_def)
  next
    case False
    with wf cba_layout_tail_step [of c "hd xs" "tl xs"] have "tail_idx c = hd xs" "head_idx c = last xs" by (simp_all add: cba_wf_def)
    moreover obtain h where "buffer c (last xs) = Some h" "4 dvd last xs" "4 dvd chunk_len h"
      using chunks_okD [OF ok, of "last xs"] False by auto
    moreover have "4 dvd hd xs" using chunks_okD [OF ok, of "hd xs"] False by auto
    ultimately show ?thesis using cba_layout_free_idx [OF lay False] by simp
  qed
  then show "4 dvd free_idx c" "4 dvd tail_idx c" "4 dvd head_idx c" by simp_all
qed

lemma v_reallocate_chunk:
  assumes "cba_pool c" "idx + CBA_HEADER_LEN + len \<le> cba_size c"
  shows "\<exists>h c'. buffer c idx = Some h \<and> cba_reallocate_chunk c idx len = Some (idx + CBA_HEADER_LEN, c') \<and>
    v_reallocate_chunk c m idx len = Some (idx + CBA_HEADER_LEN, c', m(idx + CBA_HEADER_LEN + len - 1 := CBA_END_MARKER)) \<and>
    buffer c' = (buffer c)(idx \<mapsto> fresh_header h len) \<and> cba_size c' = cba_size c"
proof -
  from reallocate_chunk [OF assms] obtain h where h: "buffer c idx = Some h" and
    r: "cba_reallocate_chunk c idx len = Some (idx + CBA_HEADER_LEN, c\<lparr>buffer := (buffer c)(idx \<mapsto> fresh_header h len), head_idx := idx,
        free_idx := (idx + CBA_HEADER_LEN + len) mod cba_size c\<rparr>)" by auto
  have "cba_size c \<noteq> 0" "idx + CBA_HEADER_LEN + len - 1 < cba_size c" using assms by (auto simp: cba_pool_def)
  then have "v_reallocate_chunk c m idx len = map_option (\<lambda>(p, c'). (p, c', m(idx + CBA_HEADER_LEN + len - 1 := CBA_END_MARKER)))
      (cba_reallocate_chunk c idx len)"
    using h by (simp add: v_reallocate_chunk_def cba_reallocate_chunk_def Let_def)
  with h r show ?thesis by simp
qed

lemma chunks_ok_fresh:
  assumes ok: "chunks_ok c m xs" and c': "buffer c' = (buffer c)(k \<mapsto> fresh_header h len)" "cba_size c' = cba_size c"
    and k: "4 dvd k" "4 dvd len" "0 < len" "set ys \<subseteq> insert k (set xs)"
    and ends: "\<And>i. i \<in> set xs \<Longrightarrow> i \<noteq> k \<Longrightarrow> chunk_end (buffer c) i \<noteq> k + CBA_HEADER_LEN + len"
  shows "chunks_ok c' (m(k + CBA_HEADER_LEN + len - 1 := CBA_END_MARKER)) ys"
proof -
  have "\<exists>h. buffer c' i = Some h \<and> marker h = CBA_HEAD_MARKER \<and> 4 dvd i \<and> 4 dvd chunk_len h \<and> 0 < chunk_len h \<and>
      (m(k + CBA_HEADER_LEN + len - 1 := CBA_END_MARKER)) (i + CBA_HEADER_LEN + chunk_len h - 1) = CBA_END_MARKER" if "i \<in> set ys" for i
  proof (cases "i = k")
    case True
    with c' k show ?thesis by (simp add: fresh_header_def)
  next
    case False
    with that k have "i \<in> set xs" by auto
    with chunks_okD [OF ok, of i] obtain h where "buffer c i = Some h" "marker h = CBA_HEAD_MARKER" "4 dvd i" "4 dvd chunk_len h" "0 < chunk_len h"
      "m (i + CBA_HEADER_LEN + chunk_len h - 1) = CBA_END_MARKER" by blast
    with c' False show ?thesis by auto
  qed
  with ok c' show ?thesis by (simp add: chunks_ok_def)
qed

lemma chunk_ends_apart:
  assumes lay: "cba_layout c xs" and "i \<in> set xs" "j \<in> set xs" "i \<noteq> j"
  shows "chunk_end (buffer c) i \<noteq> chunk_end (buffer c) j"
proof -
  have "chunk_end (buffer c) i \<noteq> chunk_end (buffer c) j" if "i \<in> set xs" "j \<in> set xs" "i < j" for i j
    using cba_layout_disjoint [OF lay that] cba_layout_bounds [OF lay that(2)] by auto
  then show ?thesis using assms by (metis linorder_neqE_nat)
qed

section \<open>Allocation\<close>

text \<open>Only marker bytes are written.\<close>

definition only_markers :: "cba \<Rightarrow> nat list \<Rightarrow> bytes \<Rightarrow> bytes \<Rightarrow> bool" where
  "only_markers c xs m m' \<longleftrightarrow> (\<forall>i. m' i \<noteq> m i \<longrightarrow> (\<exists>k\<in>set xs. i + 1 = chunk_end (buffer c) k))"

lemma only_markersI:
  "i + 1 = chunk_end (buffer c) k \<Longrightarrow> k \<in> set xs \<Longrightarrow> j + 1 = chunk_end (buffer c) l \<Longrightarrow> l \<in> set xs \<Longrightarrow>
   only_markers c xs m (m(i := x, j := y))"
  by (auto simp: only_markers_def)

lemma v_allocate_at_free:
  assumes wf: "cba_wf c xs" and ok: "chunks_ok c m xs"
    and room: "free_idx c < tail_idx c \<and> e < tail_idx c \<or> tail_idx c \<le> free_idx c \<and> e < cba_size c"
    and e: "e = free_idx c + CBA_HEADER_LEN + len" and len: "4 dvd len" "0 < len"
  shows "\<exists>c' m'. v_reallocate_chunk c m (free_idx c) len = Some (free_idx c + CBA_HEADER_LEN, c', m') \<and>
    alloc_post c xs len (free_idx c) c' \<and> chunks_ok c' m' (xs @ [free_idx c]) \<and> only_markers c' (xs @ [free_idx c]) m m'"
proof -
  from wf have pool: "cba_pool c" and lay: "cba_layout c xs" by (auto simp: cba_wf_def)
  have "e < cba_size c" using room cba_layout_tail_le [OF lay] by auto
  with v_reallocate_chunk [OF pool, of "free_idx c" len m] e obtain h c' where
    r: "cba_reallocate_chunk c (free_idx c) len = Some (free_idx c + CBA_HEADER_LEN, c')"
      "v_reallocate_chunk c m (free_idx c) len =
        Some (free_idx c + CBA_HEADER_LEN, c', m(free_idx c + CBA_HEADER_LEN + len - 1 := CBA_END_MARKER))"
    and c': "buffer c' = (buffer c)(free_idx c \<mapsto> fresh_header h len)" "cba_size c' = cba_size c" by auto
  from reallocate_at_free [OF wf room e] r(1) have post: "alloc_post c xs len (free_idx c) c'" by auto
  note p = alloc_postD [OF post]
  have lay': "cba_layout c' (xs @ [free_idx c])" using p(2) by (simp add: cba_wf_def)
  have "chunks_ok c' (m(free_idx c + CBA_HEADER_LEN + len - 1 := CBA_END_MARKER)) (xs @ [free_idx c])"
  proof (rule chunks_ok_fresh [OF ok c' chunks_aligned(2) [OF wf ok] len])
    fix i assume i: "i \<in> set xs" "i \<noteq> free_idx c"
    with chunk_ends_apart [OF lay', of i "free_idx c"] p(4) have "chunk_end (buffer c') i \<noteq> free_idx c + CBA_HEADER_LEN + len" by auto
    with i(2) c' show "chunk_end (buffer c) i \<noteq> free_idx c + CBA_HEADER_LEN + len" by simp
  qed auto
  moreover have "only_markers c' (xs @ [free_idx c]) m (m(free_idx c + CBA_HEADER_LEN + len - 1 := CBA_END_MARKER))"
    using p(4) by (auto simp: only_markers_def)
  ultimately show ?thesis using r(2) post by blast
qed

lemma v_allocate_wrapping:
  assumes wf: "cba_wf c xs" and ok: "chunks_ok c m xs" and st: "tail_idx c \<le> free_idx c" "0 < tail_idx c"
    and room: "len + CBA_HEADER_LEN < tail_idx c" and len: "4 dvd len" "0 < len"
  shows "\<exists>p c1 m1 c2 m2. v_reallocate_chunk c m (head_idx c) (sub16 (cba_size c) (head_idx c + CBA_HEADER_LEN)) = Some (p, c1, m1) \<and>
    v_reallocate_chunk c1 m1 (free_idx c1) len = Some (0 + CBA_HEADER_LEN, c2, m2) \<and>
    alloc_post c xs len 0 c2 \<and> chunks_ok c2 m2 (xs @ [0]) \<and> only_markers c2 (xs @ [0]) m m2"
proof -
  from wf have pool: "cba_pool c" and lay: "cba_layout c xs" by (auto simp: cba_wf_def)
  from pool have size: "0 < cba_size c" "cba_size c < 65536" by (auto simp: cba_pool_def)
  from st wf have ne: "xs \<noteq> []" by (auto simp: cba_wf_def)
  with wf have hd: "head_idx c = last xs" by (simp add: cba_wf_def)
  define h where "h = last xs"
  have h: "h \<in> set xs" using ne by (simp add: h_def)
  obtain hh where hh: "buffer c h = Some hh" "4 dvd chunk_len hh" "0 < chunk_len hh" "4 dvd h" by (rule chunks_okD [OF ok h])
  define fl where "fl = cba_size c - (h + CBA_HEADER_LEN)"
  have b: "h + CBA_HEADER_LEN + chunk_len hh \<le> cba_size c" using cba_layout_bounds [OF lay h] hh(1) by simp
  then have fl: "sub16 (cba_size c) (head_idx c + CBA_HEADER_LEN) = fl" "h + CBA_HEADER_LEN + fl = cba_size c" "0 < fl"
    using size hh(3) hd by (auto simp: fl_def sub16_id h_def)
  have "4 dvd fl" using chunks_aligned(1) [OF wf ok] hh(4) by (simp add: fl_def)
  from v_reallocate_chunk [OF pool, of h fl m] fl obtain c1 where
    r1: "cba_reallocate_chunk c h fl = Some (h + CBA_HEADER_LEN, c1)"
      "v_reallocate_chunk c m h fl = Some (h + CBA_HEADER_LEN, c1, m(h + CBA_HEADER_LEN + fl - 1 := CBA_END_MARKER))"
    and c1: "buffer c1 = (buffer c)(h \<mapsto> fresh_header hh fl)" "cba_size c1 = cba_size c" using hh(1) by auto
  from reallocate_wrapping [OF wf st room] fl(1) r1(1) hd obtain c2 where
    r2: "cba_reallocate_chunk c1 (free_idx c1) len = Some (0 + CBA_HEADER_LEN, c2)" and post: "alloc_post c xs len 0 c2"
    by (auto simp: h_def)
  have f1: "free_idx c1 = 0"
    using r2 by (auto simp: cba_reallocate_chunk_def Let_def split: bind_splits if_splits)
  have pool1: "cba_pool c1" using cba_pool_upd [OF pool, of h] b c1 by simp
  from v_reallocate_chunk [OF pool1, of 0 len "m(h + CBA_HEADER_LEN + fl - 1 := CBA_END_MARKER)"] room cba_layout_tail_le [OF lay] c1(2) r2 f1
  obtain h0 where r3: "v_reallocate_chunk c1 (m(h + CBA_HEADER_LEN + fl - 1 := CBA_END_MARKER)) 0 len =
      Some (0 + CBA_HEADER_LEN, c2, m(h + CBA_HEADER_LEN + fl - 1 := CBA_END_MARKER, 0 + CBA_HEADER_LEN + len - 1 := CBA_END_MARKER))"
    and c2: "buffer c2 = (buffer c1)(0 \<mapsto> fresh_header h0 len)" "cba_size c2 = cba_size c1" by auto
  note p = alloc_postD [OF post]
  have lay2: "cba_layout c2 (xs @ [0])" using p(2) by (simp add: cba_wf_def)
  have h0: "h \<noteq> 0" using p(1) h by metis
  have eh: "chunk_end (buffer c2) h = h + CBA_HEADER_LEN + fl" using c1 c2 h0 by simp
  have e0: "chunk_end (buffer c2) 0 = 0 + CBA_HEADER_LEN + len" using c2 by simp
  have same: "chunk_end (buffer c2) i = chunk_end (buffer c) i" if "i \<in> set xs" "i \<noteq> h" for i
    using that p(1) c1 c2 by auto
  have ok1: "chunks_ok c1 (m(h + CBA_HEADER_LEN + fl - 1 := CBA_END_MARKER)) xs"
  proof (rule chunks_ok_fresh [OF ok c1 hh(4) \<open>4 dvd fl\<close> fl(3)])
    fix i assume "i \<in> set xs" "i \<noteq> h"
    then show "chunk_end (buffer c) i \<noteq> h + CBA_HEADER_LEN + fl"
      using chunk_ends_apart [OF lay2, of i h] same h eh by auto
  qed auto
  have "chunks_ok c2 (m(h + CBA_HEADER_LEN + fl - 1 := CBA_END_MARKER, 0 + CBA_HEADER_LEN + len - 1 := CBA_END_MARKER)) (xs @ [0])"
  proof (rule chunks_ok_fresh [OF ok1 c2 _ len])
    fix i assume i: "i \<in> set xs" "i \<noteq> 0"
    then show "chunk_end (buffer c1) i \<noteq> 0 + CBA_HEADER_LEN + len"
      using chunk_ends_apart [OF lay2, of i 0] e0 c2 by auto
  qed auto
  moreover have "only_markers c2 (xs @ [0]) m (m(h + CBA_HEADER_LEN + fl - 1 := CBA_END_MARKER, 0 + CBA_HEADER_LEN + len - 1 := CBA_END_MARKER))"
    by (rule only_markersI [of _ _ h _ _ 0]) (use h eh e0 in simp_all)
  ultimately show ?thesis using r1(2) r3 f1 fl(1) hd post by (auto simp: h_def)
qed

text \<open>With the option, an allocation is one of a byte more.\<close>

lemma v_malloc_cases:
  assumes wf: "cba_wf c xs" and ok: "chunks_ok c m xs" and len: "len \<le> 65531"
  shows "v_malloc c m len = Some (None, c, m) \<or>
    (\<exists>k c' m'. v_malloc c m len = Some (Some (k + CBA_HEADER_LEN), c', m') \<and> alloc_post c xs (cba_chunk_len (max 3 len + 1)) k c' \<and>
       chunks_ok c' m' (xs @ [k]) \<and> only_markers c' (xs @ [k]) m m')"
proof -
  define L where "L = v_chunk_len len"
  have L: "cba_chunk_len (max 3 len + 1) = L" "4 dvd L" "v_chunk_len len = L"
    using cba_chunk_len_dvd v_chunk_len_eq by (simp_all add: L_def)
  have pos: "0 < L" using cba_chunk_len_ge [of "max 3 len + 1"] len L(1) by simp
  from wf have pool: "cba_pool c" and lay: "cba_layout c xs" by (auto simp: cba_wf_def)
  from pool have size: "cba_size c < 65536" by (auto simp: cba_pool_def)
  note al = chunks_aligned [OF wf ok]
  note ts = cba_layout_tail_le [OF lay]
  show ?thesis
  proof (cases "free_idx c < tail_idx c")
    case True
    then have "(L + CBA_HEADER_LEN < sub16 (sub16 (tail_idx c) (free_idx c)) CBA_END_MARKER_LEN) = (free_idx c + CBA_HEADER_LEN + L < tail_idx c)"
      using room_eq [of "tail_idx c - free_idx c" L] al L(2) ts size by (simp add: sub16_id) arith
    with True v_allocate_at_free [OF wf ok, of "free_idx c + CBA_HEADER_LEN + L" L] L pos show ?thesis
      by (auto simp: v_malloc_def v_allocate_chunk_def)
  next
    case False
    with cba_layout_straight [OF lay] have "free_idx c < cba_size c" by simp
    then have "(L + CBA_HEADER_LEN < sub16 (sub16 (cba_size c) (free_idx c)) CBA_END_MARKER_LEN) = (free_idx c + CBA_HEADER_LEN + L < cba_size c)"
      using room_eq [of "cba_size c - free_idx c" L] al L(2) size by (simp add: sub16_id) arith
    moreover have "0 < tail_idx c \<Longrightarrow> (L + CBA_HEADER_LEN < sub16 (tail_idx c) CBA_END_MARKER_LEN) = (L + CBA_HEADER_LEN < tail_idx c)"
      using room_eq [of "tail_idx c" L] al L(2) ts size by simp
    moreover note v_allocate_at_free [OF wf ok, of "free_idx c + CBA_HEADER_LEN + L" L]
    moreover have "\<exists>c2 m2. v_malloc c m len = Some (Some (0 + CBA_HEADER_LEN), c2, m2) \<and> alloc_post c xs L 0 c2 \<and>
        chunks_ok c2 m2 (xs @ [0]) \<and> only_markers c2 (xs @ [0]) m m2"
      if "0 < tail_idx c" "L + CBA_HEADER_LEN < tail_idx c" "\<not> free_idx c + CBA_HEADER_LEN + L < cba_size c"
      using v_allocate_wrapping [OF wf ok, of L] that False L pos calculation(1,2)
      by (auto simp: v_malloc_def v_allocate_chunk_def)
    ultimately show ?thesis using False L pos
      by (cases "free_idx c + CBA_HEADER_LEN + L < cba_size c"; cases "0 < tail_idx c \<and> L + CBA_HEADER_LEN < tail_idx c")
        (auto simp: v_malloc_def v_allocate_chunk_def)
  qed
qed

section \<open>Release\<close>

lemma chunks_ok_buffer:
  assumes "chunks_ok c m xs" "cba_size c' = cba_size c" "set ys \<subseteq> set xs"
    and "\<And>i. i \<in> set ys \<Longrightarrow> map_option (\<lambda>h. (marker h, chunk_len h)) (buffer c' i) = map_option (\<lambda>h. (marker h, chunk_len h)) (buffer c i)"
  shows "chunks_ok c' m ys"
proof -
  have "\<exists>h. buffer c' i = Some h \<and> marker h = CBA_HEAD_MARKER \<and> 4 dvd i \<and> 4 dvd chunk_len h \<and> 0 < chunk_len h \<and>
      m (i + CBA_HEADER_LEN + chunk_len h - 1) = CBA_END_MARKER" if "i \<in> set ys" for i
  proof -
    from that assms(3) obtain h where "buffer c i = Some h" "marker h = CBA_HEAD_MARKER" "4 dvd i" "4 dvd chunk_len h" "0 < chunk_len h"
      "m (i + CBA_HEADER_LEN + chunk_len h - 1) = CBA_END_MARKER" using chunks_okD [OF assms(1), of i] by blast
    with assms(4) [OF that] show ?thesis by (auto simp: map_option_case split: option.splits)
  qed
  with assms(1,2) show ?thesis by (simp add: chunks_ok_def)
qed

text \<open>The release is the one without the option. It reports nothing where the markers are in place, and
  a marker that is not at the end of the oldest chunk.\<close>

lemma v_free_loop_eq:
  assumes "cba_layout c xs" "cba_pool c"
  shows "\<exists>rs. v_free_loop c m (tail_idx c) = map_option (\<lambda>c'. (c', rs)) (cba_free_loop c (tail_idx c)) \<and>
    (chunks_ok c m xs \<longrightarrow> rs = []) \<and>
    (xs \<noteq> [] \<longrightarrow> \<not> is_bound c (hd xs) \<longrightarrow> m (chunk_end (buffer c) (hd xs) - 1) \<noteq> CBA_END_MARKER \<longrightarrow> ''invalid end marker'' \<in> set rs)"
  using assms
proof (induction xs arbitrary: c)
  case Nil
  then show ?case by (simp add: cba_free_loop.simps v_free_loop.simps cba_layout_nil)
next
  case (Cons k ks)
  from cba_layout_tail_step [OF Cons.prems] obtain h i where
    k: "k = tail_idx c" "k \<noteq> free_idx c" and h: "buffer c k = Some h"
    and i: "cba_next_chunk_idx c k = Some i" "cba_layout (c\<lparr>tail_idx := i\<rparr>) ks" by auto
  define r where "r = cba_validate_head_marker h"
  have r: "chunks_ok c m (k # ks) \<Longrightarrow> r = []" using chunks_okD [of c m "k # ks" k] h by (auto simp: r_def cba_validate_head_marker_def)
  have nx: "v_next_chunk_idx c k = Some (i, r)"
    using i(1) h by (auto simp: v_next_chunk_idx_def cba_next_chunk_idx_def r_def split: if_splits)
  show ?case
  proof (cases "is_bound c k")
    case True
    with k h have "v_free_loop c m (tail_idx c) = Some (c, r)" "cba_free_loop c (tail_idx c) = Some c"
      by (simp_all add: cba_free_loop.simps v_free_loop.simps is_bound_def r_def)
    with True r show ?thesis by auto
  next
    case False
    define e where "e = (if m (k + CBA_HEADER_LEN + chunk_len h - 1) \<noteq> CBA_END_MARKER then [''invalid end marker''] else [])"
    have "k + CBA_HEADER_LEN + chunk_len h \<le> cba_size c" using cba_layout_bounds [OF Cons.prems(1), of k] h by simp
    then have e: "cba_validate_end_marker c m k h = Some e" by (simp add: cba_validate_end_marker_def e_def Let_def)
    have e0: "chunks_ok c m (k # ks) \<Longrightarrow> e = []" using chunks_okD [of c m "k # ks" k] h by (auto simp: e_def)
    have ok: "chunks_ok c m (k # ks) \<Longrightarrow> chunks_ok (c\<lparr>tail_idx := i\<rparr>) m ks" by (erule chunks_ok_buffer) auto
    from Cons.IH [OF i(2)] Cons.prems(2) obtain rs where
      rs: "v_free_loop (c\<lparr>tail_idx := i\<rparr>) m i = map_option (\<lambda>c'. (c', rs)) (cba_free_loop (c\<lparr>tail_idx := i\<rparr>) i)"
        "chunks_ok (c\<lparr>tail_idx := i\<rparr>) m ks \<longrightarrow> rs = []" by auto
    have "cba_free_loop c (tail_idx c) = cba_free_loop (c\<lparr>tail_idx := i\<rparr>) i"
      using False k h i by (subst cba_free_loop.simps) (simp add: is_bound_def)
    moreover have "v_free_loop c m (tail_idx c) = map_option (\<lambda>c'. (c', r @ e @ r @ rs)) (cba_free_loop (c\<lparr>tail_idx := i\<rparr>) i)"
      using False k h e rs(1) nx by (subst v_free_loop.simps, cases "cba_free_loop (c\<lparr>tail_idx := i\<rparr>) i") (simp_all add: is_bound_def r_def)
    ultimately show ?thesis using r e0 ok rs(2) h by (intro exI [of _ "r @ e @ r @ rs"]) (auto simp: e_def)
  qed
qed

lemma chunks_ok_unbind: "chunks_ok c m xs \<Longrightarrow> chunks_ok (unbind c k) m xs"
  by (erule chunks_ok_buffer) (auto simp: unbind_def option.map_comp comp_def)

lemma v_free_eq:
  assumes wf: "cba_wf c xs" and k: "k \<in> set xs"
  shows "\<exists>c' rs. v_free c m (Some (k + CBA_HEADER_LEN)) = Some (c', rs) \<and> cba_free c (Some (k + CBA_HEADER_LEN)) = Some c' \<and>
    free_post c xs k c' \<and> buffer c' = buffer (unbind c k) \<and> (chunks_ok c m xs \<longrightarrow> rs = []) \<and>
    (k = tail_idx c \<longrightarrow> m (chunk_end (buffer c) k - 1) \<noteq> CBA_END_MARKER \<longrightarrow> ''invalid end marker'' \<in> set rs)"
proof -
  from wf have pool: "cba_pool c" and lay: "cba_layout c xs" by (auto simp: cba_wf_def)
  from cba_layout_defined [OF lay k] obtain h where h: "buffer c k = Some h" by auto
  define r where "r = cba_validate_head_marker h"
  have r: "chunks_ok c m xs \<Longrightarrow> r = []" using chunks_okD [of c m xs k] h k by (auto simp: r_def cba_validate_head_marker_def)
  have "k + CBA_HEADER_LEN < 65536"
    using cba_layout_bounds [OF lay k] pool by (auto simp: cba_pool_def)
  then have idx: "sub16 (k + CBA_HEADER_LEN) CBA_HEADER_LEN = k" "cba_chunk_idx (k + CBA_HEADER_LEN) = k"
    by (simp_all add: cba_chunk_idx_def sub16_id)
  have c1: "c\<lparr>buffer := (buffer c)(k \<mapsto> h\<lparr>bound := 0\<rparr>)\<rparr> = unbind c k" by (simp add: unbind_def h)
  have vi: "v_chunk_idx c (k + CBA_HEADER_LEN) = Some (k, r)" using h by (simp add: v_chunk_idx_def idx(1) r_def)
  from cba_free_ok [OF wf k] obtain c' where f: "cba_free c (Some (k + CBA_HEADER_LEN)) = Some c'" "free_post c xs k c'" by auto
  show ?thesis
  proof (cases "k = tail_idx c")
    case False
    then have "v_free c m (Some (k + CBA_HEADER_LEN)) = Some (unbind c k, r @ r)" "cba_free c (Some (k + CBA_HEADER_LEN)) = Some (unbind c k)"
      using h by (simp_all add: v_free_def cba_free_def vi idx(2) c1 r_def)
    with f r False show ?thesis by auto
  next
    case True
    from k have ne: "xs \<noteq> []" by auto
    with cba_layout_tail_step [of c "hd xs" "tl xs"] lay pool True have hd: "hd xs = k" by simp
    from v_free_loop_eq [of "unbind c k" xs m] lay pool obtain rs where
      rs: "v_free_loop (unbind c k) m (tail_idx c) = map_option (\<lambda>c'. (c', rs)) (cba_free_loop (unbind c k) (tail_idx c))"
        "chunks_ok (unbind c k) m xs \<longrightarrow> rs = []"
        "m (chunk_end (buffer c) k - 1) \<noteq> CBA_END_MARKER \<longrightarrow> ''invalid end marker'' \<in> set rs" using ne hd by auto
    from cba_free_loop_ok [of "unbind c k" xs] lay pool obtain t where
      t: "cba_free_loop (unbind c k) (tail_idx c) = Some ((unbind c k)\<lparr>tail_idx := t\<rparr>)" by auto
    have "v_free c m (Some (k + CBA_HEADER_LEN)) = Some (c', r @ r @ rs)"
      using f(1) rs(1) t h by (simp add: v_free_def cba_free_def vi idx(2) c1 True [symmetric] r_def)
    moreover have "buffer c' = buffer (unbind c k)"
      using f(1) t h by (auto simp: cba_free_def idx(2) c1 True [symmetric] split: if_splits)
    ultimately show ?thesis using f r rs chunks_ok_unbind [of c m xs k] by auto
  qed
qed

section \<open>Sessions\<close>

text \<open>A client that writes into the blocks it holds. The size of the pool is a multiple of the alignment.\<close>

inductive v_session :: "cba \<Rightarrow> bytes \<Rightarrow> (nat \<times> nat) set \<Rightarrow> bool" where
  v_init: "buffer_ok buf n \<Longrightarrow> 4 dvd n \<Longrightarrow> v_session (cba_init buf n) m {}"
| v_reset: "v_session c m H \<Longrightarrow> v_session (cba_reset c) m {}"
| v_malloc: "v_session c m H \<Longrightarrow> len \<le> 65531 \<Longrightarrow> v_malloc c m len = Some (Some p, c', m') \<Longrightarrow>
    v_session c' m' (insert (p, len) H)"
| v_malloc_null: "v_session c m H \<Longrightarrow> len \<le> 65531 \<Longrightarrow> v_malloc c m len = Some (None, c', m') \<Longrightarrow> v_session c' m' H"
| v_free: "v_session c m H \<Longrightarrow> (p, n) \<in> H \<Longrightarrow> v_free c m (Some p) = Some (c', rs) \<Longrightarrow> v_session c' m (H - {(p, n)})"
| v_write: "v_session c m H \<Longrightarrow> (p, n) \<in> H \<Longrightarrow> i < n \<Longrightarrow> v_session c (m(p + i := x)) H"

text \<open>In the pool of the allocator a block has the end marker too.\<close>

definition marked :: "nat \<times> nat \<Rightarrow> nat \<times> nat" where
  "marked b = (fst b, max 3 (snd b) + 1)"

definition v_inv :: "cba \<Rightarrow> bytes \<Rightarrow> nat list \<Rightarrow> (nat \<times> nat) set \<Rightarrow> bool" where
  "v_inv c m xs H \<longleftrightarrow> session_inv c xs (marked ` H) \<and> chunks_ok c m xs \<and> inj_on fst H"

lemma block_no_marker:
  assumes inv: "session_inv c xs (marked ` H)" and b: "(p, n) \<in> H" "i < n" and k: "k \<in> set xs"
  shows "p + i + 1 \<noteq> chunk_end (buffer c) k"
proof -
  from inv have lay: "cba_layout c xs" by (simp add: session_inv_def cba_wf_def)
  have "(p, max 3 n + 1) \<in> marked ` H" using b(1) by (force simp: marked_def)
  from session_invD [OF inv this] obtain l where
    l: "l \<in> set xs" "p = l + CBA_HEADER_LEN" "p + (max 3 n + 1) \<le> chunk_end (buffer c) l" by auto
  consider "k = l" | "k < l" | "l < k" by linarith
  then show ?thesis
    using l b(2) cba_layout_disjoint [OF lay k l(1)] cba_layout_disjoint [OF lay l(1) k] cba_layout_bounds [OF lay k] by cases auto
qed

lemma only_markers_keeps:
  "only_markers c xs m m' \<Longrightarrow> session_inv c xs (marked ` H) \<Longrightarrow> (p, n) \<in> H \<Longrightarrow> i < n \<Longrightarrow> m' (p + i) = m (p + i)"
  using block_no_marker unfolding only_markers_def by (metis Suc_eq_plus1)

lemma chunks_ok_write:
  "chunks_ok c m xs \<Longrightarrow> (\<And>k. k \<in> set xs \<Longrightarrow> i + 1 \<noteq> chunk_end (buffer c) k) \<Longrightarrow> chunks_ok c (m(i := x)) xs"
  unfolding chunks_ok_def by fastforce

lemma v_inv_malloc:
  assumes inv: "v_inv c m xs H" and len: "len \<le> 65531"
  shows "v_malloc c m len = Some (None, c, m) \<or> (\<exists>p c' m' xs'. v_malloc c m len = Some (Some p, c', m') \<and>
    v_inv c' m' xs' (insert (p, len) H) \<and> (\<forall>(q, n)\<in>H. \<forall>i<n. m' (q + i) = m (q + i)))"
proof -
  from inv have s: "session_inv c xs (marked ` H)" and ok: "chunks_ok c m xs" and inj: "inj_on fst H" by (auto simp: v_inv_def)
  from s have wf: "cba_wf c xs" by (simp add: session_inv_def)
  from v_malloc_cases [OF wf ok len] show ?thesis
  proof (elim disjE exE conjE)
    fix k c' m'
    assume m': "v_malloc c m len = Some (Some (k + CBA_HEADER_LEN), c', m')" and post: "alloc_post c xs (cba_chunk_len (max 3 len + 1)) k c'"
      and ok': "chunks_ok c' m' (xs @ [k])" "only_markers c' (xs @ [k]) m m'"
    have "insert (k + CBA_HEADER_LEN, max 3 len + 1) (marked ` H) = marked ` insert (k + CBA_HEADER_LEN, len) H" by (simp add: marked_def)
    with session_inv_alloc [OF s _ post] len have s': "session_inv c' (xs @ [k]) (marked ` insert (k + CBA_HEADER_LEN, len) H)" by simp
    have "k + CBA_HEADER_LEN \<notin> fst ` H"
    proof
      assume "k + CBA_HEADER_LEN \<in> fst ` H"
      then obtain n where "(k + CBA_HEADER_LEN, n) \<in> marked ` H" by (force simp: marked_def)
      from session_invD [OF s this] alloc_postD(1) [OF post] show False by auto
    qed
    then have "inj_on fst (insert (k + CBA_HEADER_LEN, len) H)" using inj by auto
    with s' ok' have "v_inv c' m' (xs @ [k]) (insert (k + CBA_HEADER_LEN, len) H)" by (simp add: v_inv_def)
    moreover have "\<forall>(q, n)\<in>H. \<forall>i<n. m' (q + i) = m (q + i)"
      using only_markers_keeps [OF ok'(2) s'] by auto
    ultimately show ?thesis using m' by blast
  qed simp
qed

lemma v_inv_free:
  assumes inv: "v_inv c m xs H" and b: "(p, n) \<in> H"
  shows "\<exists>c' xs'. v_free c m (Some p) = Some (c', []) \<and> v_inv c' m xs' (H - {(p, n)})"
proof -
  from inv have s: "session_inv c xs (marked ` H)" and ok: "chunks_ok c m xs" and inj: "inj_on fst H" by (auto simp: v_inv_def)
  from s have wf: "cba_wf c xs" by (simp add: session_inv_def)
  have b': "(p, max 3 n + 1) \<in> marked ` H" using b by (force simp: marked_def)
  from session_invD [OF s b'] obtain k where k: "k \<in> set xs" "p = k + CBA_HEADER_LEN" by auto
  from v_free_eq [OF wf k(1), of m] ok k(2) obtain c' where f: "v_free c m (Some p) = Some (c', [])" "cba_free c (Some p) = Some c'"
    and post: "free_post c xs k c'" and buf: "buffer c' = buffer (unbind c k)" by auto
  from session_inv_free [OF s b'] f(2) obtain xs' where s': "session_inv c' xs' (marked ` H - {(p, max 3 n + 1)})" by auto
  from post obtain d where "cba_wf c' (drop d xs)" by (auto simp: free_post_def)
  with s' have "xs' = drop d xs" using cba_wf_unique by (auto simp: session_inv_def)
  then have "set xs' \<subseteq> set xs" by (simp add: set_drop_subset)
  with chunks_ok_buffer [OF chunks_ok_unbind [OF ok, of k], of c' xs'] post buf have "chunks_ok c' m xs'"
    by (simp add: free_post_def)
  moreover have "marked ` H - {(p, max 3 n + 1)} = marked ` (H - {(p, n)})"
  proof -
    have "inj_on marked H" using inj by (auto simp: marked_def inj_on_def)
    moreover have "marked (p, n) = (p, max 3 n + 1)" by (simp add: marked_def)
    ultimately show ?thesis using b inj_on_image_set_diff [of marked H H "{(p, n)}"] by simp
  qed
  ultimately show ?thesis using f(1) s' inj by (auto simp: v_inv_def inj_on_diff)
qed

lemma v_session_inv: "v_session c m H \<Longrightarrow> \<exists>xs. v_inv c m xs H"
proof (induction rule: v_session.induct)
  case (v_init buf n m)
  have "session_inv (cba_init buf n) [] {}" using cba_init_wf [OF v_init(1)] by (simp add: session_inv_def)
  moreover have "chunks_ok (cba_init buf n) m []" using v_init(2) by (simp add: chunks_ok_def cba_init_def)
  ultimately have "v_inv (cba_init buf n) m [] {}" by (simp add: v_inv_def)
  then show ?case ..
next
  case (v_reset c m H)
  then obtain xs where "v_inv c m xs H" by blast
  then have "v_inv (cba_reset c) m [] {}"
    using cba_reset_wf [of c xs] by (simp add: v_inv_def session_inv_def chunks_ok_def cba_reset_def)
  then show ?case ..
next
  case (v_malloc c m H len p c' m')
  then obtain xs where "v_inv c m xs H" by blast
  from v_inv_malloc [OF this v_malloc(2)] v_malloc(3) show ?case by auto
next
  case (v_malloc_null c m H len c' m')
  then obtain xs where inv: "v_inv c m xs H" by blast
  from v_inv_malloc [OF this v_malloc_null(2)] v_malloc_null(3) inv show ?case by auto
next
  case (v_free c m H p n c' rs)
  then obtain xs where "v_inv c m xs H" by blast
  from v_inv_free [OF this v_free(2)] v_free(3) show ?case by auto
next
  case (v_write c m H p n i x)
  then obtain xs where inv: "v_inv c m xs H" by blast
  with chunks_ok_write [of c m xs "p + i" x] block_no_marker [of c xs H p n i] v_write(2,3) have "v_inv c (m(p + i := x)) xs H"
    by (auto simp: v_inv_def)
  then show ?case ..
qed

text \<open>C30: With CBA_VALIDATION the checks never fail for a client that writes only inside the blocks it
  holds: in every state it reaches, in a pool whose size is a multiple of the alignment, the release
  of any block returns and reports nothing, and every allocation of up to 65531 bytes returns and
  leaves the bytes of all blocks held as they are, the markers it writes included.\<close>

theorem cba_validation_silent:
  assumes "v_session c m H" "len \<le> 65531"
  shows "(\<exists>r c' m'. v_malloc c m len = Some (r, c', m') \<and> (\<forall>(p, n)\<in>H. \<forall>i<n. m' (p + i) = m (p + i))) \<and>
    (\<forall>(p, n)\<in>H. \<exists>c'. v_free c m (Some p) = Some (c', []))"
proof -
  from v_session_inv [OF assms(1)] obtain xs where inv: "v_inv c m xs H" ..
  from v_inv_malloc [OF inv assms(2)] v_inv_free [OF inv] show ?thesis by fastforce
qed

lemmas v_eval = v_malloc_def v_allocate_chunk_def v_reallocate_chunk_def v_chunk_len_def v_free_def v_free_loop.simps
  v_chunk_idx_def v_next_chunk_idx_def cba_validate_head_marker_def cba_validate_end_marker_def
  cba_init_def trunc16_def sub16_def Let_def

definition pool48 :: "nat \<Rightarrow> cba_header option" where
  "pool48 i = (if i + CBA_HEADER_LEN \<le> 48 then Some \<lparr>marker = 0, bound = 0, chunk_len = 0\<rparr> else None)"

text \<open>A block of 5 bytes, of which the last is written.\<close>

theorem cba_validation_silent_witness:
  "\<exists>c m. v_session c m {(4, 5)} \<and> m (4 + 4) = 9 \<and> (\<exists>r c' m'. v_malloc c m 3 = Some (r, c', m') \<and> m' (4 + 4) = 9) \<and>
     (\<exists>c'. v_free c m (Some 4) = Some (c', []))"
proof -
  obtain c m where m: "v_malloc (cba_init pool48 48) (\<lambda>_. 7) 5 = Some (Some 4, c, m)"
    by (simp add: v_eval pool48_def)
  have "v_session (cba_init pool48 48) (\<lambda>_. 7) {}" by (rule v_init) (simp_all add: buffer_ok_def pool48_def)
  from v_malloc [OF this _ m] have "v_session c m {(4, 5)}" by simp
  from v_write [OF this, of 4 5 4 9] have s: "v_session c (m(4 + 4 := 9)) {(4, 5)}" by simp
  from cba_validation_silent [OF s, of 3] obtain r c' m' where
    v: "v_malloc c (m(4 + 4 := 9)) 3 = Some (r, c', m')" "\<forall>i<5. m' (4 + i) = (m(4 + 4 := 9)) (4 + i)" and
    f: "\<exists>c'. v_free c (m(4 + 4 := 9)) (Some 4) = Some (c', [])" by auto
  from v(2) have "m' (4 + 4) = (m(4 + 4 := 9)) (4 + 4)" by (simp only: numeral_less_iff num.simps less_num_simps)
  then have "m' (4 + 4) = 9" by simp
  with s v(1) f show ?thesis by (intro exI [of _ c] exI [of _ "m(4 + 4 := 9)"]) auto
qed

text \<open>What the option is for: whoever writes over the marker behind the oldest block is reported when
  the block is released.\<close>

theorem overrun_reported:
  assumes "cba_wf c xs" "xs \<noteq> []" "m (chunk_end (buffer c) (tail_idx c) - 1) \<noteq> CBA_END_MARKER"
  shows "\<exists>c' rs. v_free c m (Some (tail_idx c + CBA_HEADER_LEN)) = Some (c', rs) \<and> ''invalid end marker'' \<in> set rs"
proof -
  have "hd xs = tail_idx c" using assms(1,2) cba_layout_tail_step [of c "hd xs" "tl xs"] by (simp add: cba_wf_def)
  then have "tail_idx c \<in> set xs" using assms(2) by (metis list.set_sel(1))
  from v_free_eq [OF assms(1) this, of m] assms(3) show ?thesis by auto
qed

text \<open>The marker is the last byte of the chunk. Only behind a block of a length of 3 modulo 4 is it the next byte:
  one byte too many is found behind 3 bytes, and not behind 4.\<close>

definition overrun :: "nat \<Rightarrow> string list option" where
  "overrun n = do {
     (p, c, m) \<leftarrow> v_malloc (cba_init pool48 48) (\<lambda>_. 7) n;
     p \<leftarrow> p;
     map_option snd (v_free c (m(p + n := 9)) (Some p)) }"

theorem overrun_unnoticed: "overrun 3 = Some [''invalid end marker'']" "overrun 4 = Some []"
  by (simp_all add: overrun_def v_eval pool48_def)

end
