(* ===== verification/Mx_Message.thy ===== *)
theory Mx_Message
  imports Mx_Cba
begin

text \<open>
  Messages and the intrusive lists of them: \<open>include/mx/core/message.h\<close>,
  \<open>include/mx/core/message-list.h\<close> and \<open>source/core/message-list.c\<close>.

  A message pointer is the offset of its chunk in the pool. The heap gives the
  \<open>struct msg_ptr\<close> that lies at such an offset; its bytes after the fields are those of the
  message itself, and the first of them is the type (\<open>MSGTYPE_SIZE\<close> is 1 by default).
\<close>

section \<open>Message types\<close>

abbreviation (input) MSG_REPORT :: u8 where "MSG_REPORT \<equiv> 0"
abbreviation (input) MSG_REQUEST :: u8 where "MSG_REQUEST \<equiv> 0x40"
abbreviation (input) MSG_RESPONSE :: u8 where "MSG_RESPONSE \<equiv> 0x80"
abbreviation (input) MSG_TYPE_MASK :: u8 where "MSG_TYPE_MASK \<equiv> 0xC0"
abbreviation (input) MSG_ID_MASK :: u8 where "MSG_ID_MASK \<equiv> 0x3F"

section \<open>Message objects\<close>

record msg_ptr =
  msg_next :: "nat option"
  msg_private :: "nat option"
  msg_length :: nat
  msg_bytes :: "nat \<Rightarrow> u8"

type_synonym msg_heap = "nat \<Rightarrow> msg_ptr"

definition msg_type :: "msg_ptr \<Rightarrow> u8" where
  "msg_type m = msg_bytes m 0"

definition msg_content :: "msg_ptr \<Rightarrow> u8 list" where
  "msg_content m = map (msg_bytes m) [0..<msg_length m]"

text \<open>Sizes on the build's target, \<open>x86_64\<close>.\<close>

abbreviation (input) sizeof_msg :: nat where "sizeof_msg \<equiv> 1"
abbreviation (input) sizeof_msg_ptr :: nat where "sizeof_msg_ptr \<equiv> 32"

text \<open>The pool's headers say how many bytes the chunk at a pointer has; a write behind them would
  destroy the next header.\<close>

definition chunk_holds :: "cba \<Rightarrow> nat \<Rightarrow> nat \<Rightarrow> bool" where
  "chunk_holds c p n \<longleftrightarrow> (case buffer c (cba_chunk_idx p) of None \<Rightarrow> False | Some hdr \<Rightarrow> n \<le> chunk_len hdr)"

text \<open>The first \<open>n\<close> bytes of the object at a pointer lie in a chunk that is in use. What a client reads of a
  message it reads through the functions below: the field \<open>length\<close>, the type, the bytes from the first on.\<close>

definition msg_in_chunk :: "cba \<Rightarrow> nat \<Rightarrow> nat \<Rightarrow> bool" where
  "msg_in_chunk c p n \<longleftrightarrow> (case buffer c (cba_chunk_idx p) of None \<Rightarrow> False
     | Some hdr \<Rightarrow> bound hdr = 1 \<and> n \<le> chunk_len hdr)"

definition msg_get_length :: "cba \<Rightarrow> msg_heap \<Rightarrow> nat \<Rightarrow> nat option" where
  "msg_get_length c h p = (if msg_in_chunk c p 24 then Some (msg_length (h p)) else None)"

definition msg_get_type :: "cba \<Rightarrow> msg_heap \<Rightarrow> nat \<Rightarrow> u8 option" where
  "msg_get_type c h p = (if msg_in_chunk c p 25 then Some (msg_type (h p)) else None)"

definition msg_read :: "cba \<Rightarrow> msg_heap \<Rightarrow> nat \<Rightarrow> nat \<Rightarrow> u8 list option" where
  "msg_read c h p n = (if msg_in_chunk c p (24 + n) then Some (map (msg_bytes (h p)) [0..<n]) else None)"

text \<open>The size is truncated to \<open>uint16_t\<close> before the allocation; the three fields in front of the
  message take 24 bytes.\<close>

definition msg_ptr_malloc :: "cba \<Rightarrow> msg_heap \<Rightarrow> nat \<Rightarrow> (nat option \<times> cba \<times> msg_heap) option" where
  "msg_ptr_malloc c h msg_size =
     (let malloc_size = trunc16 (sizeof_msg_ptr - sizeof_msg + msg_size) in
      do { (p, c') \<leftarrow> cba_malloc c malloc_size;
           case p of
             None \<Rightarrow> Some (None, c', h)
           | Some q \<Rightarrow>
               if chunk_holds c' q 24 then
                 Some (Some q, c', h(q := (h q)\<lparr>msg_next := None, msg_private := None, msg_length := msg_size\<rparr>))
               else None })"

text \<open>Writing the bytes of a message from its first one on.\<close>

definition msg_write :: "cba \<Rightarrow> msg_heap \<Rightarrow> nat \<Rightarrow> u8 list \<Rightarrow> msg_heap option" where
  "msg_write c h p bs =
     (if chunk_holds c p (sizeof_msg_ptr - sizeof_msg + length bs)
      then Some (h(p := (h p)\<lparr>msg_bytes := (\<lambda>i. if i < length bs then bs ! i else msg_bytes (h p) i)\<rparr>))
      else None)"

definition msg_ptr_free :: "cba \<Rightarrow> nat option \<Rightarrow> cba option" where
  "msg_ptr_free c p = cba_free c p"

section \<open>Lists\<close>

record msg_list =
  msg_head :: "nat option"
  msg_tail :: "nat option"
  list_length :: nat

definition msg_list_init :: msg_list where
  "msg_list_init = \<lparr>msg_head = None, msg_tail = None, list_length = 0\<rparr>"

definition msg_list_push :: "msg_heap \<Rightarrow> msg_list \<Rightarrow> nat \<Rightarrow> nat \<times> msg_heap \<times> msg_list" where
  "msg_list_push h self p =
     (let h1 = h(p := (h p)\<lparr>msg_next := None\<rparr>);
          h2 = (case msg_tail self of
                  None \<Rightarrow> h1
                | Some t \<Rightarrow> h1(t := (h1 t)\<lparr>msg_next := Some p\<rparr>));
          self1 = self\<lparr>msg_tail := Some p\<rparr>;
          self2 = (if msg_head self1 = None then self1\<lparr>msg_head := Some p\<rparr> else self1)
      in (p, h2, self2\<lparr>list_length := list_length self2 + 1\<rparr>))"

definition msg_list_pop :: "msg_heap \<Rightarrow> msg_list \<Rightarrow> nat option \<times> msg_list" where
  "msg_list_pop h self =
     (case msg_head self of
        None \<Rightarrow> (None, self)
      | Some p \<Rightarrow>
          (let self1 = self\<lparr>msg_head := msg_next (h p)\<rparr>;
               self2 = (if msg_tail self1 = Some p then self1\<lparr>msg_tail := None\<rparr> else self1);
               self3 = (if list_length self2 > 0
                        then self2\<lparr>list_length := list_length self2 - 1\<rparr> else self2)
           in (Some p, self3)))"

definition msg_list_peek :: "msg_list \<Rightarrow> nat option" where
  "msg_list_peek self = msg_head self"

text \<open>
  The loop of \<open>msg_list_remove\<close>: \<open>tmp\<close> is the field that points to \<open>ptr\<close>, the list's head
  (\<open>None\<close>) or the \<open>next\<close> field of an object.
\<close>

partial_function (option) msg_list_remove_loop ::
    "msg_heap \<Rightarrow> msg_list \<Rightarrow> nat \<Rightarrow> nat option \<Rightarrow> nat option \<Rightarrow> (nat option \<times> msg_heap \<times> msg_list) option" where
  "msg_list_remove_loop h self p tmp ptr =
     (case ptr of
        None \<Rightarrow> Some (None, h, self)
      | Some q \<Rightarrow>
          (if q = p then
             (let self1 = (case tmp of None \<Rightarrow> self\<lparr>msg_head := msg_next (h q)\<rparr> | Some t \<Rightarrow> self);
                  h1 = (case tmp of None \<Rightarrow> h | Some t \<Rightarrow> h(t := (h t)\<lparr>msg_next := msg_next (h q)\<rparr>));
                  self2 = (if list_length self1 > 0
                           then self1\<lparr>list_length := list_length self1 - 1\<rparr> else self1)
              in Some (Some q, h1, self2))
           else msg_list_remove_loop h self p (Some q) (msg_next (h q))))"

definition msg_list_remove ::
    "msg_heap \<Rightarrow> msg_list \<Rightarrow> nat \<Rightarrow> (nat option \<times> msg_heap \<times> msg_list) option" where
  "msg_list_remove h self p = msg_list_remove_loop h self p None (msg_head self)"

partial_function (option) msg_list_find_loop :: "msg_heap \<Rightarrow> u8 \<Rightarrow> nat option \<Rightarrow> nat option option" where
  "msg_list_find_loop h type ptr =
     (case ptr of
        None \<Rightarrow> Some None
      | Some q \<Rightarrow> (if msg_type (h q) = type then Some (Some q)
                   else msg_list_find_loop h type (msg_next (h q))))"

definition msg_list_find_msgtype :: "msg_heap \<Rightarrow> msg_list \<Rightarrow> u8 \<Rightarrow> nat option option" where
  "msg_list_find_msgtype h self type = msg_list_find_loop h type (msg_head self)"

definition msg_list_length :: "msg_list \<Rightarrow> nat" where
  "msg_list_length self = list_length self"

section \<open>What a list holds\<close>

fun path :: "msg_heap \<Rightarrow> nat option \<Rightarrow> nat list \<Rightarrow> nat option \<Rightarrow> bool" where
  "path h p [] q \<longleftrightarrow> p = q"
| "path h p (x # xs) q \<longleftrightarrow> p = Some x \<and> path h (msg_next (h x)) xs q"

definition list_repr :: "msg_heap \<Rightarrow> msg_list \<Rightarrow> nat list \<Rightarrow> bool" where
  "list_repr h l xs \<longleftrightarrow> path h (msg_head l) xs None \<and> distinct xs \<and>
     msg_tail l = (if xs = [] then None else Some (last xs)) \<and> list_length l = length xs"

lemma path_append [simp]: "path h p (xs @ ys) q \<longleftrightarrow> (\<exists>m. path h p xs m \<and> path h m ys q)"
  by (induction xs arbitrary: p) auto

lemma path_cong:
  "(\<And>x. x \<in> set xs \<Longrightarrow> msg_next (h' x) = msg_next (h x)) \<Longrightarrow> path h' p xs q = path h p xs q"
  by (induction xs arbitrary: p) auto

lemma path_upd_other [simp]: "x \<notin> set xs \<Longrightarrow> path (h(x := m)) p xs q = path h p xs q"
  by (rule path_cong) auto

lemma list_repr_cong:
  "(\<And>x. x \<in> set xs \<Longrightarrow> msg_next (h' x) = msg_next (h x)) \<Longrightarrow> list_repr h' l xs = list_repr h l xs"
  by (simp add: list_repr_def cong: path_cong)

lemma list_repr_upd_other [simp]: "x \<notin> set xs \<Longrightarrow> list_repr (h(x := m)) l xs = list_repr h l xs"
  by (rule list_repr_cong) auto

lemma list_repr_nil [simp]: "list_repr h l [] \<longleftrightarrow> l = msg_list_init"
  by (cases l) (auto simp: list_repr_def msg_list_init_def)

lemma list_repr_head: "list_repr h l xs \<Longrightarrow> msg_head l = (case xs of [] \<Rightarrow> None | x # _ \<Rightarrow> Some x)"
  by (auto simp: list_repr_def split: list.splits)

lemma list_repr_push:
  assumes "list_repr h l xs" "p \<notin> set xs" "msg_list_push h l p = (r, h', l')"
  shows "r = p \<and> list_repr h' l' (xs @ [p])"
proof (cases xs rule: rev_cases)
  case Nil
  with assms show ?thesis
    by (auto simp: msg_list_push_def list_repr_def msg_list_init_def)
next
  case (snoc ys t)
  with assms have "p \<noteq> t" "t \<notin> set ys" "p \<notin> set ys" "msg_tail l = Some t" "msg_head l \<noteq> None"
    by (cases ys; auto simp: list_repr_def)+
  with snoc assms show ?thesis
    by (auto simp: msg_list_push_def list_repr_def Let_def)
qed

lemma list_repr_push_frame:
  assumes "list_repr h l xs" "msg_list_push h l p = (r, h', l')" "list_repr h m ys"
    "set ys \<inter> insert p (set xs) = {}"
  shows "list_repr h' m ys"
proof -
  have "msg_tail l = None \<or> (\<exists>t\<in>set xs. msg_tail l = Some t)"
    using assms(1) by (auto simp: list_repr_def)
  then have "\<And>x. x \<in> set ys \<Longrightarrow> msg_next (h' x) = msg_next (h x)"
    using assms(2,4) by (auto simp: msg_list_push_def Let_def)
  with assms(3) show ?thesis using list_repr_cong by blast
qed

lemma list_repr_pop:
  assumes "list_repr h l (x # xs)"
  shows "\<exists>l'. msg_list_pop h l = (Some x, l') \<and> list_repr h l' xs"
  using assms by (cases xs rule: rev_cases) (auto simp: msg_list_pop_def list_repr_def Let_def)

interpretation mlist: linked_fifo list_repr msg_list_init msg_list_push msg_list_pop msg_list_peek msg_list_length
proof (unfold_locales, goal_cases)
  case (3 h l xs p r h' l')
  then show ?case by (rule list_repr_push)
next
  case (4 h l xs p r h' l' m ys)
  then show ?case by (rule list_repr_push_frame)
next
  case (5 h l x xs)
  then show ?case by (rule list_repr_pop)
next
  case (7 h l xs)
  then show ?case by (simp add: msg_list_peek_def list_repr_head)
qed (simp_all add: list_repr_def msg_list_pop_def msg_list_length_def msg_list_init_def)

section \<open>Properties\<close>

lemma find_loop:
  "path h ptr xs None \<Longrightarrow> msg_list_find_loop h t ptr = Some (find (\<lambda>x. msg_type (h x) = t) xs)"
  by (induction xs arbitrary: ptr) (simp_all add: msg_list_find_loop.simps)

theorem msg_list_find_first:
  assumes "list_repr h l xs"
  shows "msg_list_find_msgtype h l t = Some (find (\<lambda>x. msg_type (h x) = t) xs)"
  using assms by (simp add: msg_list_find_msgtype_def list_repr_def find_loop)

lemma remove_loop_absent:
  "path h ptr xs None \<Longrightarrow> p \<notin> set xs \<Longrightarrow> msg_list_remove_loop h l p tmp ptr = Some (None, h, l)"
  by (induction xs arbitrary: ptr tmp) (simp_all add: msg_list_remove_loop.simps)

definition unlink :: "msg_heap \<Rightarrow> msg_list \<Rightarrow> nat option \<Rightarrow> nat \<Rightarrow> msg_heap \<times> msg_list" where
  "unlink h l tmp p =
     (case tmp of None \<Rightarrow> (h, l\<lparr>msg_head := msg_next (h p), list_length := list_length l - 1\<rparr>)
      | Some t \<Rightarrow> (h(t := (h t)\<lparr>msg_next := msg_next (h p)\<rparr>), l\<lparr>list_length := list_length l - 1\<rparr>))"

lemma remove_loop_present:
  "path h ptr (ys @ p # zs) None \<Longrightarrow> p \<notin> set ys \<Longrightarrow>
   msg_list_remove_loop h l p tmp ptr =
     (let (h', l') = unlink h l (if ys = [] then tmp else Some (last ys)) p in Some (Some p, h', l'))"
proof (induction ys arbitrary: ptr tmp)
  case Nil
  then show ?case
    by (auto simp: msg_list_remove_loop.simps unlink_def Let_def split: option.splits)
next
  case (Cons y ys)
  then have "msg_list_remove_loop h l p tmp ptr = msg_list_remove_loop h l p (Some y) (msg_next (h y))"
    by (simp add: msg_list_remove_loop.simps)
  with Cons show ?case by auto
qed

lemma msg_list_remove_eq:
  assumes "list_repr h l (ys @ p # zs)"
  shows "msg_list_remove h l p =
     (let (h', l') = unlink h l (if ys = [] then None else Some (last ys)) p in Some (Some p, h', l'))"
  unfolding msg_list_remove_def
  by (rule remove_loop_present) (use assms in \<open>auto simp: list_repr_def\<close>)

lemma unlink_path:
  assumes rep: "list_repr h l (ys @ p # zs)"
    and un: "unlink h l (if ys = [] then None else Some (last ys)) p = (h', l')"
  shows "path h' (msg_head l') (ys @ zs) None \<and> msg_tail l' = msg_tail l \<and> list_length l' = length (ys @ zs)"
proof (cases ys rule: rev_cases)
  case Nil
  with assms show ?thesis by (auto simp: unlink_def list_repr_def)
next
  case (snoc ws y)
  with rep have "y \<notin> set zs" "y \<notin> set ws" "y \<noteq> p" by (auto simp: list_repr_def)
  with snoc assms show ?thesis by (auto simp: unlink_def list_repr_def)
qed

text \<open>C33: msg_list_remove unlinks the given message: the list from the head is the old one without it
  and the length agrees. The list stays well formed exactly when the message was not the last: the
  tail pointer is not updated, so after the removal of the last message it points to the removed
  one.\<close>

theorem msg_list_remove_spec:
  assumes rep: "list_repr h l xs" and p: "p \<in> set xs"
  shows "\<exists>h' l'. msg_list_remove h l p = Some (Some p, h', l') \<and>
    path h' (msg_head l') (remove1 p xs) None \<and> msg_list_length l' = length (remove1 p xs) \<and>
    (list_repr h' l' (remove1 p xs) \<longleftrightarrow> p \<noteq> last xs)"
proof -
  from p obtain ys zs where xs: "xs = ys @ p # zs" "p \<notin> set ys" by (auto dest: split_list_first)
  with rep have "p \<notin> set zs" "distinct (ys @ zs)" by (auto simp: list_repr_def)
  with xs have r: "remove1 p xs = ys @ zs" by (simp add: remove1_append)
  obtain h' l' where un: "unlink h l (if ys = [] then None else Some (last ys)) p = (h', l')" by fastforce
  note eq = msg_list_remove_eq [OF rep [unfolded xs(1)], unfolded un]
  note un_path = unlink_path [OF rep [unfolded xs(1)] un]
  have tail: "msg_tail l' = Some (last xs)" using un_path rep xs by (simp add: list_repr_def)
  have "zs = [] \<Longrightarrow> last xs = p" "zs \<noteq> [] \<Longrightarrow> last xs = last zs \<and> last xs \<noteq> p"
    using xs \<open>p \<notin> set zs\<close> by auto
  moreover have "ys @ zs = [] \<Longrightarrow> last xs = p" using xs by simp
  moreover have "ys \<noteq> [] \<Longrightarrow> last ys \<noteq> p" using xs(2) by auto
  moreover have "list_repr h' l' (ys @ zs) \<longleftrightarrow> msg_tail l' = (if ys @ zs = [] then None else Some (last (ys @ zs)))"
    using un_path \<open>distinct (ys @ zs)\<close> unfolding list_repr_def by simp
  ultimately have "list_repr h' l' (ys @ zs) \<longleftrightarrow> p \<noteq> last xs" using tail by (cases "zs = []") auto
  with eq un_path r xs show ?thesis by (auto simp: msg_list_length_def)
qed

text \<open>A heap in which every object is untouched, and a list with two messages.\<close>

definition heap0 :: msg_heap where
  "heap0 _ = \<lparr>msg_next = None, msg_private = None, msg_length = 1, msg_bytes = (\<lambda>_. 7)\<rparr>"

definition heap2 :: msg_heap where
  "heap2 = heap0(4 := (heap0 4)\<lparr>msg_next := Some 40\<rparr>)"

definition list2 :: msg_list where
  "list2 = \<lparr>msg_head = Some 4, msg_tail = Some 40, list_length = 2\<rparr>"

lemma list2_repr: "list_repr heap2 list2 [4, 40]"
  by (simp add: list_repr_def heap2_def list2_def heap0_def)

theorem msg_list_find_first_witness:
  "msg_list_find_msgtype heap2 list2 7 = Some (find (\<lambda>x. msg_type (heap2 x) = 7) [4, 40])"
  by (rule msg_list_find_first [OF list2_repr])

theorem msg_list_remove_spec_witness:
  "\<exists>h' l'. msg_list_remove heap2 list2 4 = Some (Some 4, h', l') \<and>
    path h' (msg_head l') (remove1 4 [4, 40]) None \<and> msg_list_length l' = length (remove1 4 [4, 40::nat]) \<and>
    (list_repr h' l' (remove1 4 [4, 40]) \<longleftrightarrow> (4::nat) \<noteq> last [4, 40])"
  by (rule msg_list_remove_spec [OF list2_repr]) simp

text \<open>
  Removing the last message leaves \<open>msg_tail\<close> pointing to it, so that the next push links the new
  message behind the removed one: the list counts it, and no traversal reaches it.
\<close>

theorem msg_list_remove_last_loses_push:
  "\<exists>h1 l1 h2 l2. msg_list_remove heap2 list2 40 = Some (Some 40, h1, l1) \<and>
     msg_list_push h1 l1 80 = (80, h2, l2) \<and> msg_list_length l2 = 2 \<and>
     path h2 (msg_head l2) [4] None"
  by (simp add: msg_list_remove_def msg_list_remove_loop.simps heap2_def list2_def heap0_def
      msg_list_push_def msg_list_length_def)

section \<open>Allocation of message objects\<close>

lemma cba_malloc_holds:
  assumes ok: "cba_ok c" and m: "cba_malloc c n = Some (Some p, c')" and n: "n \<le> 65532"
  shows "chunk_holds c' p n"
proof -
  from ok obtain xs where wf: "cba_wf c xs" by (auto simp: cba_ok_def)
  from cba_malloc_cases [OF wf, of n] m obtain k where p: "p = k + CBA_HEADER_LEN"
    and post: "alloc_post c xs (cba_chunk_len n) k c'" by auto
  note post' = alloc_postD [OF post]
  from post'(2) have lay: "cba_layout c' (xs @ [k])" and pool: "cba_pool c'" by (auto simp: cba_wf_def)
  from cba_layout_bounds [OF lay, of k] pool have "k + CBA_HEADER_LEN < 65536"
    by (auto simp: cba_pool_def)
  then have "cba_chunk_idx p = k" by (simp add: cba_chunk_idx_def p sub16_id)
  with post'(3,4) cba_chunk_len_ge [OF n] show ?thesis
    by (auto simp: chunk_holds_def is_bound_def split: option.splits)
qed

lemma chunk_holds_mono: "chunk_holds c p m \<Longrightarrow> n \<le> m \<Longrightarrow> chunk_holds c p n"
  by (auto simp: chunk_holds_def split: option.splits)

lemma msg_in_chunk_mono: "msg_in_chunk c p m \<Longrightarrow> n \<le> m \<Longrightarrow> msg_in_chunk c p n"
  by (auto simp: msg_in_chunk_def split: option.splits)

lemma msg_in_chunk_live:
  assumes wf: "cba_wf c xs" and k: "k \<in> set xs" "is_bound c k" and p: "p = k + CBA_HEADER_LEN"
  shows "msg_in_chunk c p n \<longleftrightarrow> p + n \<le> chunk_end (buffer c) k"
proof -
  from wf have lay: "cba_layout c xs" and pool: "cba_pool c" by (auto simp: cba_wf_def)
  from cba_layout_bounds [OF lay k(1)] pool have "k + CBA_HEADER_LEN < 65536" by (auto simp: cba_pool_def)
  then have "cba_chunk_idx p = k" by (simp add: cba_chunk_idx_def p sub16_id)
  with k(2) p show ?thesis by (auto simp: msg_in_chunk_def is_bound_def chunk_end_def split: option.splits)
qed

text \<open>What lies in a chunk in use stays there when another chunk is taken or given back.\<close>

lemma msg_in_chunk_malloc:
  assumes ok: "cba_ok c" and m: "cba_malloc c n = Some (Some q, c')" and p: "p \<in> cba_live c" "msg_in_chunk c p i"
  shows "msg_in_chunk c' p i"
proof -
  from ok obtain xs where wf: "cba_wf c xs" by (auto simp: cba_ok_def)
  from cba_malloc_cases [OF wf, of n] m obtain k where post: "alloc_post c xs (cba_chunk_len n) k c'" by auto
  note post' = alloc_postD [OF post]
  from p(1) obtain j where j: "j \<in> set xs" "is_bound c j" "p = j + CBA_HEADER_LEN" by (auto simp: cba_live_iff [OF wf])
  from j(1) post'(6) [OF j(1,2)] msg_in_chunk_live [OF post'(2) _ _ j(3)]
  have "msg_in_chunk c' p i \<longleftrightarrow> p + i \<le> chunk_end (buffer c') j" by simp
  with msg_in_chunk_live [OF wf j] p(2) post'(5) [OF j(1)] show ?thesis by simp
qed

lemma msg_in_chunk_free:
  assumes ok: "cba_ok c" and f: "q \<in> cba_live c" "cba_free c (Some q) = Some c'"
    and p: "p \<in> cba_live c" "p \<noteq> q" "msg_in_chunk c p i"
  shows "msg_in_chunk c' p i"
proof -
  from ok obtain xs where wf: "cba_wf c xs" by (auto simp: cba_ok_def)
  from f(1) obtain k where k: "k \<in> set xs" "q = k + CBA_HEADER_LEN" by (auto simp: cba_live_iff [OF wf])
  from cba_free_ok [OF wf k(1)] f(2) k(2) have post: "free_post c xs k c'" by auto
  from p(1) obtain j where j: "j \<in> set xs" "is_bound c j" "p = j + CBA_HEADER_LEN" by (auto simp: cba_live_iff [OF wf])
  with p(2) k(2) have "j \<noteq> k" by auto
  with post j obtain ys where ys: "cba_wf c' (drop (length ys) xs)" "ys = take (length ys) xs" "j \<notin> set ys"
    and b: "is_bound c' j" and e: "chunk_end (buffer c') j = chunk_end (buffer c) j"
    by (auto simp: free_post_def)
  have "set xs = set ys \<union> set (drop (length ys) xs)" by (metis append_take_drop_id set_append ys(2))
  with j(1) ys(3) have "j \<in> set (drop (length ys) xs)" by blast
  from msg_in_chunk_live [OF ys(1) this b j(3)] msg_in_chunk_live [OF wf j] p(3) e show ?thesis by simp
qed

lemma msg_in_chunk_new:
  assumes ok: "cba_ok c" and m: "cba_malloc c n = Some (Some p, c')" and n: "n \<le> 65532"
  shows "msg_in_chunk c' p n"
proof -
  from ok obtain xs where wf: "cba_wf c xs" by (auto simp: cba_ok_def)
  from cba_malloc_cases [OF wf, of n] m obtain k where p: "p = k + CBA_HEADER_LEN"
    and post: "alloc_post c xs (cba_chunk_len n) k c'" by auto
  note post' = alloc_postD [OF post]
  from msg_in_chunk_live [OF post'(2) _ post'(3) p] post'(4) p cba_chunk_len_ge [OF n] show ?thesis by simp
qed

lemma msg_ptr_malloc_owns:
  assumes owns: "cba_pool.owns c H" and n: "n \<le> 65501"
  obtains (null) "msg_ptr_malloc c h n = Some (None, c, h)" "cba_malloc c (sizeof_msg_ptr - sizeof_msg + n) = Some (None, c)"
    | (chunk) p c' where "msg_ptr_malloc c h n =
        Some (Some p, c', h(p := (h p)\<lparr>msg_next := None, msg_private := None, msg_length := n\<rparr>))"
      "p \<notin> H" "cba_pool.owns c' (insert p H)" "chunk_holds c' p (sizeof_msg_ptr - sizeof_msg + n)"
      "msg_in_chunk c' p (sizeof_msg_ptr - sizeof_msg + n)" "\<And>q i. q \<in> H \<Longrightarrow> msg_in_chunk c q i \<Longrightarrow> msg_in_chunk c' q i"
      "cba_malloc c (sizeof_msg_ptr - sizeof_msg + n) = Some (Some p, c')"
proof (cases rule: cba_pool.owns_malloc [OF owns, of "sizeof_msg_ptr - sizeof_msg + n"])
  case 1
  with n show ?thesis by (intro null) (simp_all add: msg_ptr_malloc_def trunc16_id)
next
  case (2 p c')
  from owns have ok: "cba_ok c" and live: "H \<subseteq> cba_live c" by (simp_all add: cba_pool.owns_def)
  from cba_malloc_holds [OF ok 2(1)] n have holds: "chunk_holds c' p (sizeof_msg_ptr - sizeof_msg + n)" by simp
  from msg_in_chunk_new [OF ok 2(1)] n have "msg_in_chunk c' p (sizeof_msg_ptr - sizeof_msg + n)" by simp
  moreover have "\<And>q i. q \<in> H \<Longrightarrow> msg_in_chunk c q i \<Longrightarrow> msg_in_chunk c' q i"
    using live msg_in_chunk_malloc [OF ok 2(1)] by blast
  ultimately show ?thesis using 2 n
    by (intro chunk [of p c']) (simp_all add: msg_ptr_malloc_def trunc16_id chunk_holds_mono [OF holds])
qed

text \<open>The truncation of the size to \<open>uint16_t\<close>: a message of 65520 bytes gets a chunk too small for
  the fields of its object.\<close>

lemma msg_ptr_malloc_truncates:
  "msg_ptr_malloc (cba_init pool50 50) heap0 65520 = None"
  by (simp add: msg_ptr_malloc_def cba_eval pool50_def chunk_holds_def)

end
