(* ===== verification/Mx_MsgQueue.thy ===== *)
theory Mx_MsgQueue
  imports Mx_Message
begin

text \<open>
  The priority queue of messages: \<open>include/mx/core/message-queue.h\<close> and
  \<open>source/core/message-queue.c\<close>. It is an array of \<open>MSG_PRIO_LENGTH\<close> message lists over one
  heap. The lists are known here only through the contract \<open>linked_fifo\<close>, whose interpretation
  \<open>mlist\<close> is in \<open>Mx_Message\<close>.
\<close>

section \<open>Model\<close>

abbreviation (input) MSG_PRIO_HIGH :: nat where "MSG_PRIO_HIGH \<equiv> 0"
abbreviation (input) MSG_PRIO_NORMAL :: nat where "MSG_PRIO_NORMAL \<equiv> 1"
abbreviation (input) MSG_PRIO_LOW :: nat where "MSG_PRIO_LOW \<equiv> 2"
abbreviation (input) MSG_PRIO_LENGTH :: nat where "MSG_PRIO_LENGTH \<equiv> 3"
abbreviation (input) MSG_PRIO_ANY :: nat where "MSG_PRIO_ANY \<equiv> 4"

record msg_queue =
  list_prio :: "nat \<Rightarrow> msg_list"

definition set_list :: "msg_queue \<Rightarrow> nat \<Rightarrow> msg_list \<Rightarrow> msg_queue" where
  "set_list self i l = self\<lparr>list_prio := (list_prio self)(i := l)\<rparr>"

definition msg_queue_init :: "msg_queue \<Rightarrow> msg_queue" where
  "msg_queue_init self = fold (\<lambda>i q. set_list q i msg_list_init) [0..<MSG_PRIO_LENGTH] self"

text \<open>A pointer to one of the lists is its index; the null pointer is \<open>None\<close>.\<close>

definition msg_queue_get_msg_list :: "msg_queue \<Rightarrow> nat \<Rightarrow> nat option" where
  "msg_queue_get_msg_list self prio =
     (if prio < MSG_PRIO_LENGTH then Some prio
      else if prio = MSG_PRIO_ANY then
        find (\<lambda>i. msg_list_peek (list_prio self i) \<noteq> None) [0..<MSG_PRIO_LENGTH]
      else None)"

definition msg_queue_push ::
    "msg_heap \<Rightarrow> msg_queue \<Rightarrow> nat \<Rightarrow> nat \<Rightarrow> nat option \<times> msg_heap \<times> msg_queue" where
  "msg_queue_push h self prio p =
     (if prio \<ge> MSG_PRIO_LENGTH then (None, h, self)
      else (let (r, h', l') = msg_list_push h (list_prio self prio) p
            in (Some r, h', set_list self prio l')))"

text \<open>The loops return the message together with the priority they store in \<open>*prio\<close>.\<close>

fun msg_queue_pop_loop :: "msg_heap \<Rightarrow> msg_queue \<Rightarrow> nat list \<Rightarrow> (nat \<times> nat) option \<times> msg_queue" where
  "msg_queue_pop_loop h self [] = (None, self)"
| "msg_queue_pop_loop h self (i # is) =
     (let (p, l') = msg_list_pop h (list_prio self i); self1 = set_list self i l' in
      case p of Some q \<Rightarrow> (Some (q, i), self1) | None \<Rightarrow> msg_queue_pop_loop h self1 is)"

definition msg_queue_pop :: "msg_heap \<Rightarrow> msg_queue \<Rightarrow> (nat \<times> nat) option \<times> msg_queue" where
  "msg_queue_pop h self = msg_queue_pop_loop h self [0..<MSG_PRIO_LENGTH]"

fun msg_queue_peek_loop :: "msg_queue \<Rightarrow> nat list \<Rightarrow> (nat \<times> nat) option" where
  "msg_queue_peek_loop self [] = None"
| "msg_queue_peek_loop self (i # is) =
     (case msg_list_peek (list_prio self i) of
        Some q \<Rightarrow> Some (q, i) | None \<Rightarrow> msg_queue_peek_loop self is)"

definition msg_queue_peek :: "msg_queue \<Rightarrow> (nat \<times> nat) option" where
  "msg_queue_peek self = msg_queue_peek_loop self [0..<MSG_PRIO_LENGTH]"

fun msg_queue_find_loop :: "msg_heap \<Rightarrow> msg_queue \<Rightarrow> u8 \<Rightarrow> nat list \<Rightarrow> (nat \<times> nat) option option" where
  "msg_queue_find_loop h self type [] = Some None"
| "msg_queue_find_loop h self type (i # is) = do {
     r \<leftarrow> msg_list_find_msgtype h (list_prio self i) type;
     case r of Some q \<Rightarrow> Some (Some (q, i)) | None \<Rightarrow> msg_queue_find_loop h self type is }"

text \<open>\<open>prio\<close> is \<open>None\<close> for a null pointer and \<open>Some v\<close> for a pointer to the value \<open>v\<close>.\<close>

definition msg_queue_find_msgtype ::
    "msg_heap \<Rightarrow> msg_queue \<Rightarrow> nat option \<Rightarrow> u8 \<Rightarrow> (nat \<times> nat) option option" where
  "msg_queue_find_msgtype h self prio type =
     (let tmp_prio = (case prio of None \<Rightarrow> MSG_PRIO_ANY | Some v \<Rightarrow> v) in
      if tmp_prio < MSG_PRIO_LENGTH then
        map_option (map_option (\<lambda>q. (q, tmp_prio)))
          (msg_list_find_msgtype h (list_prio self tmp_prio) type)
      else msg_queue_find_loop h self type [0..<MSG_PRIO_LENGTH])"

definition msg_queue_length :: "msg_queue \<Rightarrow> nat" where
  "msg_queue_length self =
     fold (\<lambda>i len. len + msg_list_length (list_prio self i)) [0..<MSG_PRIO_LENGTH] 0"

section \<open>The abstract priority queue\<close>

datatype msg_prio = High | Normal | Low

fun prio_index :: "msg_prio \<Rightarrow> nat" where
  "prio_index High = MSG_PRIO_HIGH"
| "prio_index Normal = MSG_PRIO_NORMAL"
| "prio_index Low = MSG_PRIO_LOW"

instantiation msg_prio :: linorder
begin

definition less_eq_msg_prio :: "msg_prio \<Rightarrow> msg_prio \<Rightarrow> bool" where
  "less_eq_msg_prio p q \<longleftrightarrow> prio_index p \<le> prio_index q"

definition less_msg_prio :: "msg_prio \<Rightarrow> msg_prio \<Rightarrow> bool" where
  "less_msg_prio p q \<longleftrightarrow> prio_index p < prio_index q"

instance
proof
  fix p q :: msg_prio
  show "p \<le> q \<Longrightarrow> q \<le> p \<Longrightarrow> p = q"
    by (cases p; cases q) (simp_all add: less_eq_msg_prio_def)
qed (auto simp: less_eq_msg_prio_def less_msg_prio_def)

end

type_synonym prio_queue = "msg_prio \<Rightarrow> nat list"

definition pq_push :: "prio_queue \<Rightarrow> msg_prio \<Rightarrow> nat \<Rightarrow> prio_queue" where
  "pq_push a p x = a(p := a p @ [x])"

definition pq_pop :: "prio_queue \<Rightarrow> (nat \<times> msg_prio) option \<times> prio_queue" where
  "pq_pop a = (case find (\<lambda>p. a p \<noteq> []) [High, Normal, Low] of
     None \<Rightarrow> (None, a)
   | Some p \<Rightarrow> (Some (hd (a p), p), a(p := tl (a p))))"

definition pq_members :: "prio_queue \<Rightarrow> nat set" where
  "pq_members a = set (a High) \<union> set (a Normal) \<union> set (a Low)"

definition prio_of :: "nat \<Rightarrow> msg_prio" where
  "prio_of i = (if i = MSG_PRIO_HIGH then High else if i = MSG_PRIO_NORMAL then Normal else Low)"

lemma prio_of_index [simp]: "prio_of (prio_index p) = p"
  by (cases p) (simp_all add: prio_of_def)

lemma prio_index_less [simp]: "prio_index p < MSG_PRIO_LENGTH"
  by (cases p) simp_all

text \<open>The queue \<open>q\<close> of the code holds the abstract queue \<open>a\<close>.\<close>

definition queue_repr :: "msg_heap \<Rightarrow> msg_queue \<Rightarrow> prio_queue \<Rightarrow> bool" where
  "queue_repr h q a \<longleftrightarrow> mlist.family MSG_PRIO_LENGTH h (list_prio q) (\<lambda>i. a (prio_of i))"

lemma members_pq: "mlist.members MSG_PRIO_LENGTH (\<lambda>i. a (prio_of i)) = pq_members a"
proof -
  have "{..<MSG_PRIO_LENGTH} = {0, 1, 2}" by auto
  then show ?thesis by (auto simp: mlist.members_def pq_members_def prio_of_def)
qed

lemma family_index_upd:
  "mlist.family MSG_PRIO_LENGTH h ls ((\<lambda>i. a (prio_of i))(prio_index p := xs)) \<longleftrightarrow>
   mlist.family MSG_PRIO_LENGTH h ls (\<lambda>i. (a(p := xs)) (prio_of i))"
proof -
  have "((\<lambda>i. a (prio_of i))(prio_index p := xs)) i = (a(p := xs)) (prio_of i)" if "i < MSG_PRIO_LENGTH" for i
    using that by (cases p) (auto simp: prio_of_def)
  then show ?thesis by (simp add: mlist.family_def)
qed

lemma queue_repr_init: "queue_repr h (msg_queue_init q) (\<lambda>_. [])"
proof -
  have "list_prio (msg_queue_init q) i = msg_list_init" if "i < MSG_PRIO_LENGTH" for i
    using that by (simp add: msg_queue_init_def set_list_def upt_rec)
  then show ?thesis by (simp add: queue_repr_def mlist.family_def)
qed

lemma queue_repr_push:
  assumes "queue_repr h q a" "x \<notin> pq_members a"
  shows "\<exists>h' q'. msg_queue_push h q (prio_index p) x = (Some x, h', q') \<and> queue_repr h' q' (pq_push a p x)"
proof -
  obtain r h' l' where push: "msg_list_push h (list_prio q (prio_index p)) x = (r, h', l')"
    by (cases "msg_list_push h (list_prio q (prio_index p)) x")
  note fam = assms(1) [unfolded queue_repr_def]
  from mlist.family_push [OF fam prio_index_less [of p] _ push] assms(2)
  have "r = x \<and> mlist.family MSG_PRIO_LENGTH h' ((list_prio q)(prio_index p := l'))
      ((\<lambda>i. a (prio_of i))(prio_index p := a (prio_of (prio_index p)) @ [x]))"
    unfolding members_pq by blast
  with push show ?thesis
    by (simp add: msg_queue_push_def set_list_def queue_repr_def pq_push_def family_index_upd not_le)
qed

lemma queue_repr_nonempty:
  assumes "queue_repr h q a" "a p = x # xs"
  shows "\<exists>l'. msg_list_pop h (list_prio q (prio_index p)) = (Some x, l') \<and>
    queue_repr h (set_list q (prio_index p) l') (a(p := xs))"
proof -
  from mlist.family_pop [OF assms(1) [unfolded queue_repr_def] prio_index_less [of p], of x xs] assms(2)
  show ?thesis by (auto simp: queue_repr_def set_list_def family_index_upd)
qed

lemma queue_repr_empty_list:
  assumes "queue_repr h q a" "a p = []"
  shows "msg_list_pop h (list_prio q (prio_index p)) = (None, list_prio q (prio_index p))"
  using mlist.family_pop_empty [OF assms(1) [unfolded queue_repr_def] prio_index_less [of p]] assms(2) by simp

lemma set_list_same [simp]: "set_list q i (list_prio q i) = q"
  by (simp add: set_list_def)

lemma prio_all: "[0..<MSG_PRIO_LENGTH] = [prio_index High, prio_index Normal, prio_index Low]"
  by (simp add: upt_rec)

lemma msg_queue_pop_unfold:
  "msg_queue_pop h q = msg_queue_pop_loop h q [prio_index High, prio_index Normal, prio_index Low]"
  by (simp only: msg_queue_pop_def prio_all)

lemma pop_loop_step:
  assumes "queue_repr h q a" "a p \<noteq> []"
  shows "\<exists>q'. msg_queue_pop_loop h q (prio_index p # is) = (Some (hd (a p), prio_index p), q') \<and>
    queue_repr h q' (a(p := tl (a p)))"
  using queue_repr_nonempty [OF assms(1), of p "hd (a p)" "tl (a p)"] assms(2) by auto

lemma pop_loop_skip:
  "queue_repr h q a \<Longrightarrow> a p = [] \<Longrightarrow> msg_queue_pop_loop h q (prio_index p # is) = msg_queue_pop_loop h q is"
  by (simp add: queue_repr_empty_list)

declare msg_queue_pop_loop.simps(2) [simp del] prio_index.simps [simp del]

lemma queue_repr_pop:
  assumes "queue_repr h q a"
  shows "\<exists>q'. msg_queue_pop h q = (map_option (\<lambda>(x, p). (x, prio_index p)) (fst (pq_pop a)), q') \<and>
    queue_repr h q' (snd (pq_pop a))"
proof (cases "a High = []")
  case False
  with pop_loop_step [OF assms False] show ?thesis by (simp add: msg_queue_pop_unfold pq_pop_def)
next
  case high: True
  note h = pop_loop_skip [OF assms high]
  show ?thesis
  proof (cases "a Normal = []")
    case False
    with pop_loop_step [OF assms False] high h show ?thesis by (simp add: msg_queue_pop_unfold pq_pop_def)
  next
    case normal: True
    note n = pop_loop_skip [OF assms normal]
    show ?thesis
    proof (cases "a Low = []")
      case False
      with pop_loop_step [OF assms False] high normal h n show ?thesis
        by (simp add: msg_queue_pop_unfold pq_pop_def)
    next
      case True
      with pop_loop_skip [OF assms True] assms high normal h n show ?thesis
        by (simp add: msg_queue_pop_unfold pq_pop_def)
    qed
  qed
qed

lemma queue_repr_peek_list:
  "queue_repr h q a \<Longrightarrow>
   msg_list_peek (list_prio q (prio_index p)) = (case a p of [] \<Rightarrow> None | x # _ \<Rightarrow> Some x)"
  using mlist.family_peek [OF _ prio_index_less [of p], of h "list_prio q" "\<lambda>i. a (prio_of i)"]
  by (simp add: queue_repr_def)

lemma msg_queue_peek_unfold:
  "msg_queue_peek q = msg_queue_peek_loop q [prio_index High, prio_index Normal, prio_index Low]"
  by (simp only: msg_queue_peek_def prio_all)

lemma queue_repr_peek:
  assumes "queue_repr h q a"
  shows "msg_queue_peek q = map_option (\<lambda>(x, p). (x, prio_index p)) (fst (pq_pop a))"
  by (auto simp: msg_queue_peek_unfold pq_pop_def queue_repr_peek_list [OF assms] split: list.splits)

section \<open>Running a queue\<close>

datatype queue_op = QPush msg_prio nat | QPop

fun mq_run :: "msg_heap \<Rightarrow> msg_queue \<Rightarrow> queue_op list \<Rightarrow> (nat \<times> nat) option list" where
  "mq_run h q [] = []"
| "mq_run h q (QPush p x # ops) =
     (let (r, h', q') = msg_queue_push h q (prio_index p) x in mq_run h' q' ops)"
| "mq_run h q (QPop # ops) = (let (r, q') = msg_queue_pop h q in r # mq_run h q' ops)"

fun pq_run :: "prio_queue \<Rightarrow> queue_op list \<Rightarrow> (nat \<times> msg_prio) option list" where
  "pq_run a [] = []"
| "pq_run a (QPush p x # ops) = pq_run (pq_push a p x) ops"
| "pq_run a (QPop # ops) = (let (r, a') = pq_pop a in r # pq_run a' ops)"

text \<open>The client pushes only messages that are not in the queue.\<close>

fun pushes_fresh :: "prio_queue \<Rightarrow> queue_op list \<Rightarrow> bool" where
  "pushes_fresh a [] \<longleftrightarrow> True"
| "pushes_fresh a (QPush p x # ops) \<longleftrightarrow> x \<notin> pq_members a \<and> pushes_fresh (pq_push a p x) ops"
| "pushes_fresh a (QPop # ops) \<longleftrightarrow> pushes_fresh (snd (pq_pop a)) ops"

lemma mq_run_refines_from:
  "queue_repr h q a \<Longrightarrow> pushes_fresh a ops \<Longrightarrow>
   mq_run h q ops = map (map_option (\<lambda>(x, p). (x, prio_index p))) (pq_run a ops)"
proof (induction ops arbitrary: h q a)
  case Nil
  then show ?case by simp
next
  case (Cons op ops)
  show ?case
  proof (cases op)
    case (QPush p x)
    with Cons.prems queue_repr_push [of h q a x p] obtain h' q' where
      "msg_queue_push h q (prio_index p) x = (Some x, h', q')" "queue_repr h' q' (pq_push a p x)" by auto
    with Cons QPush show ?thesis by simp
  next
    case QPop
    with queue_repr_pop [OF Cons.prems(1)] obtain q' where
      "msg_queue_pop h q = (map_option (\<lambda>(x, p). (x, prio_index p)) (fst (pq_pop a)), q')"
      "queue_repr h q' (snd (pq_pop a))" by auto
    with Cons QPop show ?thesis by (simp add: case_prod_unfold Let_def)
  qed
qed

section \<open>Properties\<close>

text \<open>C19: The message queue built from intrusive linked lists refines a priority queue of plain lists:
  from an initialised queue, every sequence of pushes of messages not already queued and of pops
  gives the results of the abstract queue, with the priority reported for each message.\<close>

theorem mq_run_refines:
  assumes "pushes_fresh (\<lambda>_. []) ops"
  shows "mq_run h (msg_queue_init q) ops = map (map_option (\<lambda>(x, p). (x, prio_index p))) (pq_run (\<lambda>_. []) ops)"
  by (rule mq_run_refines_from [OF queue_repr_init assms])

theorem mq_run_refines_witness:
  "mq_run heap0 (msg_queue_init \<lparr>list_prio = (\<lambda>_. list2)\<rparr>) [QPush Low 4, QPush High 40, QPush High 80, QPop, QPop, QPop, QPop] =
   map (map_option (\<lambda>(x, p). (x, prio_index p)))
     (pq_run (\<lambda>_. []) [QPush Low 4, QPush High 40, QPush High 80, QPop, QPop, QPop, QPop])"
  by (rule mq_run_refines) (simp add: pq_members_def pq_push_def pq_pop_def)

text \<open>C20: msg_queue_pop returns the oldest message of the highest priority that has one, together with
  that priority, leaves all other messages in place, and returns nothing only when every priority is
  empty.\<close>

theorem msg_queue_pop_highest:
  assumes "queue_repr h q a"
  shows "case msg_queue_pop h q of
      (None, q') \<Rightarrow> (\<forall>p. a p = []) \<and> queue_repr h q' a
    | (Some (x, i), q') \<Rightarrow> (\<exists>p xs. i = prio_index p \<and> a p = x # xs \<and> (\<forall>p'<p. a p' = []) \<and>
        queue_repr h q' (a(p := xs)))"
proof -
  from queue_repr_pop [OF assms] obtain q' where
    q': "msg_queue_pop h q = (map_option (\<lambda>(x, p). (x, prio_index p)) (fst (pq_pop a)), q')"
    "queue_repr h q' (snd (pq_pop a))" by auto
  have all: "P High \<Longrightarrow> P Normal \<Longrightarrow> P Low \<Longrightarrow> P p" for P and p :: msg_prio by (cases p) auto
  show ?thesis
  proof (cases "find (\<lambda>p. a p \<noteq> []) [High, Normal, Low]")
    case None
    then have "\<forall>p. a p = []" by (auto simp: find_None_iff intro: all split: if_splits)
    with None q' show ?thesis by (simp add: pq_pop_def)
  next
    case (Some p)
    then have "a p \<noteq> []" by (auto split: if_splits)
    have "a p' = []" if "p' < p" for p'
      using Some that by (cases p') (auto simp: less_msg_prio_def prio_index.simps split: if_splits)
    then have "\<forall>p'<p. a p' = []" by blast
    from \<open>a p \<noteq> []\<close> obtain x xs where "a p = x # xs" by (cases "a p") auto
    with Some q' \<open>\<forall>p'<p. a p' = []\<close> show ?thesis by (auto simp: pq_pop_def)
  qed
qed

lemma heap2_queue:
  "queue_repr heap2 (set_list (msg_queue_init \<lparr>list_prio = (\<lambda>_. list2)\<rparr>) 1 list2) ((\<lambda>_. [])(Normal := [4, 40]))"
proof -
  have "list_repr heap2 (list_prio (set_list (msg_queue_init \<lparr>list_prio = (\<lambda>_. list2)\<rparr>) 1 list2) i)
      (((\<lambda>_. [])(Normal := [4, 40])) (prio_of i))" if "i < MSG_PRIO_LENGTH" for i
  proof -
    from that have "i = 0 \<or> i = 1 \<or> i = 2" by auto
    then show ?thesis
      by (elim disjE) (simp_all add: set_list_def msg_queue_init_def upt_rec prio_of_def list2_repr)
  qed
  then show ?thesis by (auto simp: queue_repr_def mlist.family_def prio_of_def)
qed

theorem msg_queue_pop_highest_witness:
  "case msg_queue_pop heap2 (set_list (msg_queue_init \<lparr>list_prio = (\<lambda>_. list2)\<rparr>) 1 list2) of
      (None, q') \<Rightarrow> (\<forall>p. ((\<lambda>_. [])(Normal := [4, 40::nat])) p = []) \<and> queue_repr heap2 q' ((\<lambda>_. [])(Normal := [4, 40]))
    | (Some (x, i), q') \<Rightarrow> (\<exists>p xs. i = prio_index p \<and> ((\<lambda>_. [])(Normal := [4, 40])) p = x # xs \<and>
        (\<forall>p'<p. ((\<lambda>_. [])(Normal := [4, 40::nat])) p' = []) \<and>
        queue_repr heap2 q' (((\<lambda>_. [])(Normal := [4, 40]))(p := xs)))"
  by (rule msg_queue_pop_highest [OF heap2_queue])

end
