(* ===== verification/Mx_Timer.thy ===== *)
theory Mx_Timer
  imports Mx_Prelude
begin

unbundle bit_operations_syntax

text \<open>
  The clock and the software timers: \<open>source/timer.c\<close> and \<open>include/mx/timer.h\<close>. The three static
  variables of \<open>timer.c\<close> are the fields of a record that every operation reading the time takes.
  All arithmetic is that of \<open>uint32_t\<close>.
\<close>

section \<open>The clock\<close>

record clock =
  clock_ms :: u32
  clock_s :: u32
  clock_chrono :: u32

definition clock_zero :: clock where
  "clock_zero = \<lparr>clock_ms = 0, clock_s = 0, clock_chrono = 0\<rparr>"

definition clock_update :: "clock \<Rightarrow> u32 \<Rightarrow> u32 \<Rightarrow> clock" where
  "clock_update clk ms chrono =
     (let clk1 = (if ms \<noteq> 0
                  then clk\<lparr>clock_s := clock_s clk + (clock_ms clk mod 1000 + ms) div 1000,
                           clock_ms := clock_ms clk + ms\<rparr>
                  else clk)
      in clk1\<lparr>clock_chrono := chrono\<rparr>)"

definition clock_get_milis :: "clock \<Rightarrow> u32" where
  "clock_get_milis clk = clock_ms clk"

definition clock_get_seconds :: "clock \<Rightarrow> u32" where
  "clock_get_seconds clk = clock_s clk"

definition clock_get_chrono :: "clock \<Rightarrow> u32" where
  "clock_get_chrono clk = (if clock_chrono clk \<noteq> 0 then clock_chrono clk else clock_s clk)"

section \<open>Timers\<close>

record timer =
  timer_start_at :: u32
  timer_interval :: u32
  timer_flags :: u8

abbreviation (input) TIMER_MS :: u8 where "TIMER_MS \<equiv> 0"
abbreviation (input) TIMER_SEC :: u8 where "TIMER_SEC \<equiv> 1"
abbreviation (input) TIMER_CHRONO :: u8 where "TIMER_CHRONO \<equiv> 2"

definition timer_tstamp :: "clock \<Rightarrow> u8 \<Rightarrow> u32" where
  "timer_tstamp clk flags =
     (if flags AND TIMER_SEC \<noteq> 0 then clock_get_seconds clk
      else if flags AND TIMER_CHRONO \<noteq> 0 then clock_get_chrono clk
      else clock_get_milis clk)"

definition timer_start :: "clock \<Rightarrow> u8 \<Rightarrow> u32 \<Rightarrow> timer" where
  "timer_start clk flags interval =
     \<lparr>timer_start_at = timer_tstamp clk flags, timer_interval = interval, timer_flags = flags\<rparr>"

definition timer_stop :: timer where
  "timer_stop = \<lparr>timer_start_at = 0, timer_interval = 0, timer_flags = 0\<rparr>"

definition timer_restart :: "clock \<Rightarrow> timer \<Rightarrow> timer" where
  "timer_restart clk self = self\<lparr>timer_start_at := timer_tstamp clk (timer_flags self)\<rparr>"

definition timer_running :: "timer \<Rightarrow> bool" where
  "timer_running self \<longleftrightarrow> timer_interval self \<noteq> 0"

definition timer_value :: "clock \<Rightarrow> timer \<Rightarrow> u32" where
  "timer_value clk self = timer_tstamp clk (timer_flags self) - timer_start_at self"

definition timer_remaining :: "clock \<Rightarrow> timer \<Rightarrow> u32" where
  "timer_remaining clk self =
     (let value = timer_value clk self in
      if value < timer_interval self then timer_interval self - value else 0)"

definition timer_expired :: "clock \<Rightarrow> timer \<Rightarrow> bool" where
  "timer_expired clk self =
     (if timer_interval self = 0 then False
      else if timer_value clk self < timer_interval self then False
      else True)"

section \<open>The clock over a sequence of updates\<close>

definition clock_run :: "clock \<Rightarrow> (u32 \<times> u32) list \<Rightarrow> clock" where
  "clock_run clk us = fold (\<lambda>(ms, chrono) c. clock_update c ms chrono) us clk"

definition elapsed :: "(u32 \<times> u32) list \<Rightarrow> nat" where
  "elapsed us = sum_list (map (unat \<circ> fst) us)"

lemma clock_update_ms [simp]: "clock_ms (clock_update clk ms ch) = clock_ms clk + ms"
  by (simp add: clock_update_def Let_def)

lemma clock_run_Nil [simp]: "clock_run clk [] = clk"
  by (simp add: clock_run_def)

lemma clock_run_Cons [simp]: "clock_run clk ((ms, ch) # us) = clock_run (clock_update clk ms ch) us"
  by (simp add: clock_run_def)

lemma elapsed_simps [simp]: "elapsed [] = 0" "elapsed ((ms, ch) # us) = unat ms + elapsed us"
  by (simp_all add: elapsed_def)

lemma elapsed_append [simp]: "elapsed (us @ vs) = elapsed us + elapsed vs"
  by (simp add: elapsed_def)

lemma clock_run_append: "clock_run (clock_run clk us) vs = clock_run clk (us @ vs)"
  by (simp add: clock_run_def)

lemma clock_run_ms: "clock_ms (clock_run clk us) = clock_ms clk + of_nat (elapsed us)"
  by (induction us arbitrary: clk) (auto simp: algebra_simps)

lemma timer_value_ms_word:
  "timer_value (clock_run clk us) (timer_start clk TIMER_MS ival) = of_nat (elapsed us)"
  by (simp add: timer_value_def timer_start_def timer_tstamp_def clock_get_milis_def clock_run_ms)

lemma clock_update_s:
  assumes "unat (clock_ms clk) + unat ms < 2 ^ 32"
    "unat (clock_s clk) * 1000 + unat (clock_ms clk) mod 1000 = n" "n < 2 ^ 32" "n + unat ms < 2 ^ 32"
  shows "unat (clock_s (clock_update clk ms ch)) * 1000 + unat (clock_ms (clock_update clk ms ch)) mod 1000 =
    n + unat ms"
proof (cases "ms = 0")
  case True
  with assms show ?thesis by (simp add: clock_update_def)
next
  case False
  let ?r = "unat (clock_ms clk) mod 1000"
  have r: "unat (clock_ms clk mod 1000 :: u32) = ?r" by (simp add: unat_mod)
  have "?r \<le> unat (clock_ms clk)" by simp
  with assms(1) have "?r + unat ms < 2 ^ 32" by linarith
  then have sum: "unat (clock_ms clk mod 1000 + ms) = ?r + unat ms"
    by (simp add: unat_word_ariths(1) r)
  have q: "unat ((clock_ms clk mod 1000 + ms) div 1000) = (?r + unat ms) div 1000"
    by (simp add: unat_div sum)
  have "unat (clock_s clk) + (?r + unat ms) div 1000 < 2 ^ 32"
    using assms(2,4) by linarith
  then have "unat (clock_s (clock_update clk ms ch)) = unat (clock_s clk) + (?r + unat ms) div 1000"
    using False by (simp add: clock_update_def Let_def unat_word_ariths(1) q)
  moreover have "unat (clock_ms (clock_update clk ms ch)) = unat (clock_ms clk) + unat ms"
    using assms(1) by (simp add: unat_word_ariths(1))
  moreover have "(unat (clock_ms clk) + unat ms) mod 1000 = (?r + unat ms) mod 1000"
    by (simp add: mod_add_left_eq)
  ultimately show ?thesis using assms(2) by (simp add: algebra_simps)
qed

lemma clock_run_s:
  "unat (clock_s clk) * 1000 + unat (clock_ms clk) mod 1000 = unat (clock_ms clk) \<Longrightarrow>
   unat (clock_ms clk) + elapsed us < 2 ^ 32 \<Longrightarrow>
   unat (clock_s (clock_run clk us)) * 1000 + unat (clock_ms (clock_run clk us)) mod 1000 =
     unat (clock_ms clk) + elapsed us"
proof (induction us arbitrary: clk)
  case Nil
  then show ?case by simp
next
  case (Cons u us)
  obtain ms ch where u: "u = (ms, ch)" by (cases u)
  have ms: "unat (clock_ms (clock_update clk ms ch)) = unat (clock_ms clk) + unat ms"
    using Cons.prems(2) u by (simp add: unat_word_ariths(1))
  have "unat (clock_s (clock_update clk ms ch)) * 1000 + unat (clock_ms (clock_update clk ms ch)) mod 1000 =
      unat (clock_ms (clock_update clk ms ch))"
    using clock_update_s [of clk ms "unat (clock_ms clk)" ch] Cons.prems u ms by simp
  from Cons.IH [OF this] Cons.prems(2) ms u show ?case by (simp add: add.assoc)
qed

lemma timer_value_ms:
  assumes "elapsed us < 2 ^ 32"
  shows "unat (timer_value (clock_run clk us) (timer_start clk TIMER_MS ival)) = elapsed us"
  using assms by (simp only: timer_value_ms_word unat_of_nat) simp

lemma timer_value_ms_less:
  "elapsed us < 2 ^ 32 \<Longrightarrow>
   timer_value (clock_run clk us) (timer_start clk TIMER_MS ival) < x \<longleftrightarrow> elapsed us < unat x"
  by (simp only: word_less_nat_alt timer_value_ms)

lemma timer_start_interval [simp]: "timer_interval (timer_start clk flags ival) = ival"
  by (simp add: timer_start_def)

lemma timer_ms_expired:
  "elapsed us < 2 ^ 32 \<Longrightarrow>
   timer_expired (clock_run clk us) (timer_start clk TIMER_MS ival) \<longleftrightarrow> ival \<noteq> 0 \<and> unat ival \<le> elapsed us"
  by (simp add: timer_expired_def timer_value_ms_less not_less)

lemma clock_seconds:
  assumes "elapsed us < 2 ^ 32"
  shows "unat (clock_get_seconds (clock_run clock_zero us)) = elapsed us div 1000"
proof -
  have "unat (clock_s (clock_run clock_zero us)) * 1000 + unat (clock_ms (clock_run clock_zero us)) mod 1000 = elapsed us"
    using clock_run_s [of clock_zero us] assms by (simp add: clock_zero_def)
  then have "elapsed us div 1000 = (unat (clock_s (clock_run clock_zero us)) * 1000 +
      unat (clock_ms (clock_run clock_zero us)) mod 1000) div 1000" by simp
  then show ?thesis by (simp add: clock_get_seconds_def)
qed

section \<open>Properties\<close>

text \<open>C34: A millisecond timer expires exactly when its interval has elapsed, and timer_remaining counts
  down to it, for any clock updates that sum to less than 2^32 ms, whatever the clock was at the
  start, so also across the wrap-around of the clock. A timer of interval 0 is stopped and never
  expires.\<close>

theorem timer_expires_on_time:
  assumes "elapsed us < 2 ^ 32"
  shows "(timer_expired (clock_run clk us) (timer_start clk TIMER_MS ival) \<longleftrightarrow>
           ival \<noteq> 0 \<and> unat ival \<le> elapsed us) \<and>
    unat (timer_remaining (clock_run clk us) (timer_start clk TIMER_MS ival)) = unat ival - elapsed us"
proof -
  let ?v = "timer_value (clock_run clk us) (timer_start clk TIMER_MS ival)"
  note less = timer_value_ms_less [OF assms, of clk ival ival]
  then have "?v < ival \<Longrightarrow> unat (ival - ?v) = unat ival - elapsed us"
    by (metis timer_value_ms [OF assms] less_imp_le unat_sub word_le_nat_alt word_less_nat_alt)
  then show ?thesis
    by (auto simp: timer_ms_expired [OF assms] timer_remaining_def Let_def less)
qed

theorem timer_expires_on_time_witness:
  "(timer_expired (clock_run \<lparr>clock_ms = 4294967290, clock_s = 0, clock_chrono = 0\<rparr> [(4, 0), (7, 0)])
       (timer_start \<lparr>clock_ms = 4294967290, clock_s = 0, clock_chrono = 0\<rparr> TIMER_MS 10) \<longleftrightarrow>
     (10::u32) \<noteq> 0 \<and> unat (10::u32) \<le> elapsed [(4, 0), (7, 0)]) \<and>
   unat (timer_remaining (clock_run \<lparr>clock_ms = 4294967290, clock_s = 0, clock_chrono = 0\<rparr> [(4, 0), (7, 0)])
       (timer_start \<lparr>clock_ms = 4294967290, clock_s = 0, clock_chrono = 0\<rparr> TIMER_MS 10)) =
     unat (10::u32) - elapsed [(4, 0), (7, 0)]"
  by (rule timer_expires_on_time) simp

text \<open>C35: The seconds counter does not drift: after any sequence of clock updates from zero, of any
  granularity and in total below 2^32 ms, it is the total divided by 1000.\<close>

theorem clock_seconds_exact:
  assumes "elapsed us < 2 ^ 32"
  shows "unat (clock_get_seconds (clock_run clock_zero us)) = elapsed us div 1000"
  by (rule clock_seconds [OF assms])

theorem clock_seconds_exact_witness:
  "unat (clock_get_seconds (clock_run clock_zero [(999, 0), (1, 0), (2500, 5)])) =
     elapsed [(999, 0), (1, 0), (2500, 5)] div 1000"
  by (rule clock_seconds_exact) simp

text \<open>
  Past the wrap of the millisecond counter the seconds are late by 296 ms, not by the 295 the
  source states: \<open>2 ^ 32 + 999\<close> ms are \<open>4294968\<close> full seconds, the clock shows one less; it shows
  \<open>4294968\<close> at \<open>2 ^ 32 + 1000\<close> ms, which is 296 ms after \<open>4294968000\<close> ms.
\<close>

theorem clock_wrap_lag:
  assumes "clk = \<lparr>clock_ms = 4294967295, clock_s = 4294967, clock_chrono = 0\<rparr>"
  shows "unat (clock_s (clock_run clk [(1, 0), (999, 0)])) = 4294967"
    "unat (clock_s (clock_run clk [(1, 0), (1000, 0)])) = 4294968"
    "(2 ^ 32 + 1000 - 4294968 * 1000 :: nat) = 296"
  by (simp_all add: assms clock_update_def)

end
