(* ===== verification/Mx_System.thy ===== *)
theory Mx_System
  imports Mx_Prelude
begin

text \<open>
  The sleeping functions of \<open>include/mx/soc/system.h\<close>. The system behind them is not in the repository:
  \<open>system_get_ticks\<close> and \<open>system_wait_for_interrupt\<close> are parameters, on a state \<open>'w\<close> of the system. The
  loop returns \<open>None\<close> when it does not end.
\<close>

section \<open>Sleeping\<close>

partial_function (option) sleep_loop :: "('w \<Rightarrow> u32) \<Rightarrow> ('w \<Rightarrow> 'w) \<Rightarrow> u32 \<Rightarrow> 'w \<Rightarrow> 'w option" where
  "sleep_loop system_get_ticks system_wait_for_interrupt wakeup w =
     (if wakeup > system_get_ticks w
      then sleep_loop system_get_ticks system_wait_for_interrupt wakeup (system_wait_for_interrupt w)
      else Some w)"

definition system_sleep_ms :: "('w \<Rightarrow> u32) \<Rightarrow> ('w \<Rightarrow> 'w) \<Rightarrow> u32 \<Rightarrow> 'w \<Rightarrow> 'w option" where
  "system_sleep_ms system_get_ticks system_wait_for_interrupt ms w =
     (let wakeup = system_get_ticks w + ms in sleep_loop system_get_ticks system_wait_for_interrupt wakeup w)"

definition system_sleep :: "('w \<Rightarrow> u32) \<Rightarrow> ('w \<Rightarrow> 'w) \<Rightarrow> u32 \<Rightarrow> 'w \<Rightarrow> 'w option" where
  "system_sleep system_get_ticks system_wait_for_interrupt s w =
     system_sleep_ms system_get_ticks system_wait_for_interrupt (s * 1000) w"

section \<open>How long it takes\<close>

text \<open>
  A system with a clock of \<open>elapsed\<close> milliseconds, of which the ticks are the low 32 bits. There is an
  interrupt at the latest every \<open>d\<close> milliseconds, so that waiting for one takes at most \<open>d\<close>; it may take
  less than a millisecond and leave the counter as it is, but time goes on after finitely many of them.
\<close>

definition ticking :: "('w \<Rightarrow> nat) \<Rightarrow> nat \<Rightarrow> ('w \<Rightarrow> u32) \<Rightarrow> ('w \<Rightarrow> 'w) \<Rightarrow> bool" where
  "ticking elapsed d ticks wait \<longleftrightarrow> (\<forall>w. ticks w = of_nat (elapsed w)) \<and>
     (\<forall>w. elapsed w \<le> elapsed (wait w) \<and> elapsed (wait w) \<le> elapsed w + d) \<and>
     (\<forall>w. \<exists>n. elapsed w < elapsed ((wait ^^ n) w))"

lemma ticking_ticks: "ticking elapsed d ticks wait \<Longrightarrow> ticks w = of_nat (elapsed w)"
  and ticking_wait: "ticking elapsed d ticks wait \<Longrightarrow> elapsed w \<le> elapsed (wait w)"
    "ticking elapsed d ticks wait \<Longrightarrow> elapsed (wait w) \<le> elapsed w + d"
  and ticking_on: "ticking elapsed d ticks wait \<Longrightarrow> \<exists>n. elapsed w < elapsed ((wait ^^ n) w)"
  by (simp_all add: ticking_def)

text \<open>Whole turns of the counter, and where it is in the present one.\<close>

lemma unat_ticks_since: "base mod 2 ^ 32 = 0 \<Longrightarrow> base \<le> t \<Longrightarrow> t < base + 2 ^ 32 \<Longrightarrow> unat (of_nat t :: u32) = t - base"
proof -
  assume "base mod 2 ^ 32 = 0" "base \<le> t" "t < base + 2 ^ 32"
  then obtain q where q: "base = 2 ^ 32 * q" using mult_div_mod_eq [of "2 ^ 32" base] by (metis add.right_neutral)
  define r where "r = t - base"
  from \<open>base \<le> t\<close> \<open>t < base + 2 ^ 32\<close> have r: "t = r + 2 ^ 32 * q" "r < 2 ^ 32" unfolding r_def q by linarith+
  have "t mod 2 ^ 32 = r" unfolding r(1) using r(2) by (simp only: mod_mult_self2 mod_less)
  then have "t mod 2 ^ 32 = t - base" unfolding r_def .
  then show ?thesis by (simp add: unat_of_nat)
qed

lemma sleep_loop_wakes:
  assumes t: "ticking elapsed d ticks wait" and base: "base mod 2 ^ 32 = 0" and wakeup: "unat wakeup + d \<le> 2 ^ 32"
  shows "base \<le> elapsed w \<Longrightarrow> elapsed w < base + 2 ^ 32 \<Longrightarrow> \<exists>w'. sleep_loop ticks wait wakeup w = Some w' \<and>
    base + unat wakeup \<le> elapsed w' \<and> (elapsed w' < base + unat wakeup + d \<or> w' = w)"
proof (induction "base + unat wakeup - elapsed w" arbitrary: w rule: less_induct)
  case less
  let ?woken = "\<lambda>v. \<exists>w'. sleep_loop ticks wait wakeup v = Some w' \<and>
    base + unat wakeup \<le> elapsed w' \<and> (elapsed w' < base + unat wakeup + d \<or> w' = v)"
  have u: "unat (ticks v) = elapsed w - base" if "elapsed v = elapsed w" for v
    using unat_ticks_since [OF base less.prems] ticking_ticks [OF t, of v] that by simp
  show ?case
  proof (cases "ticks w < wakeup")
    case True
    with u [OF refl] have gap: "elapsed w < base + unat wakeup" by (simp add: word_less_nat_alt)
    text \<open>Interrupts that leave the counter as it is.\<close>
    have "elapsed v = elapsed w \<Longrightarrow> elapsed v < elapsed ((wait ^^ n) v) \<Longrightarrow> ?woken v" for v n
    proof (induction n arbitrary: v)
      case (Suc n)
      have asleep: "ticks v < wakeup" using u [OF Suc.prems(1)] u [OF refl] True by (simp add: word_less_nat_alt)
      note wait = ticking_wait [OF t, of v]
      have "?woken (wait v)"
      proof (cases "elapsed (wait v) = elapsed v")
        case True
        with Suc.prems show ?thesis by (intro Suc.IH) (simp_all add: funpow_swap1)
      next
        case False
        show ?thesis by (rule less.hyps) (use False wait gap wakeup less.prems Suc.prems(1) in simp_all)
      qed
      then obtain w' where "sleep_loop ticks wait wakeup (wait v) = Some w'" "base + unat wakeup \<le> elapsed w'"
        "elapsed w' < base + unat wakeup + d \<or> w' = wait v" by blast
      with asleep wait gap Suc.prems(1) show ?case by (subst sleep_loop.simps) auto
    qed simp
    with ticking_on [OF t, of w] show ?thesis by blast
  next
    case False
    with u [OF refl] have "unat wakeup \<le> elapsed w - base" by (simp add: word_less_nat_alt)
    with False less.prems(1) show ?thesis by (subst sleep_loop.simps) auto
  qed
qed

text \<open>C36: system_sleep_ms returns, never early and less than one interrupt period late, on a system
  whose tick counter counts milliseconds and where waiting for an interrupt takes at most d of them,
  provided that the 32 bit counter does not turn over before the end of the sleep plus one period.
  An interrupt may come within the same millisecond, as often as it likes, if only time goes on
  after finitely many. The condition on the turn is needed (sleep_over_the_turn, sleep_for_ever).\<close>

theorem sleep_is_bounded:
  assumes "ticking elapsed d ticks wait" "0 < d" "unat (ticks w) + unat ms + d \<le> 2 ^ 32"
  shows "\<exists>w'. system_sleep_ms ticks wait ms w = Some w' \<and> elapsed w + unat ms \<le> elapsed w' \<and> elapsed w' < elapsed w + unat ms + d"
proof -
  define base where "base = elapsed w - elapsed w mod 2 ^ 32"
  have ticks: "unat (ticks w) = elapsed w mod 2 ^ 32" using ticking_ticks [OF assms(1), of w] by (simp add: unat_of_nat)
  have base: "base mod 2 ^ 32 = 0" "base + unat (ticks w) = elapsed w"
    by (simp_all add: base_def ticks minus_mod_eq_mult_div)
  have less: "elapsed w < base + 2 ^ 32" using base(2) ticks by (metis add_less_cancel_left mod_less_divisor zero_less_numeral zero_less_power)
  have wakeup: "unat (ticks w + ms) = unat (ticks w) + unat ms"
    using assms(2,3) by (intro unat_add_lem [THEN iffD1]) simp
  from sleep_loop_wakes [OF assms(1) base(1), of "ticks w + ms" w] wakeup assms(3) base(2) less obtain w' where
    "sleep_loop ticks wait (ticks w + ms) w = Some w'" "base + (unat (ticks w) + unat ms) \<le> elapsed w'"
    "elapsed w' < base + (unat (ticks w) + unat ms) + d \<or> w' = w" by auto
  then show ?thesis using base(2) assms(2) by (auto simp: system_sleep_ms_def)
qed

text \<open>A clock with four interrupts in every millisecond, in the second turn of the counter.\<close>

theorem sleep_is_bounded_witness:
  "\<exists>w'. system_sleep_ms (\<lambda>w. of_nat (w div 4)) (\<lambda>w. w + 1) 10 (4 * (2 ^ 32 + 5)) = Some w' \<and> (w' :: nat) div 4 = 2 ^ 32 + 15"
proof -
  have "((\<lambda>w. w + 1) ^^ n) w = w + n" for n w :: nat by (induction n) simp_all
  then have "ticking (\<lambda>w :: nat. w div 4) 1 (\<lambda>w. of_nat (w div 4)) (\<lambda>w. w + 1)"
    by (auto simp: ticking_def intro: exI [of _ 4])
  from sleep_is_bounded [OF this, of "4 * (2 ^ 32 + 5)" 10] show ?thesis by auto
qed

text \<open>The condition on the counter is needed. Just before it turns over, the wake-up time is a small
  number and the function returns at once. And when the wake-up time is the last number before the
  turn, an interrupt may pass it every time: with one every 4 ms a sleep of 1 ms never ends.\<close>

theorem sleep_over_the_turn: "system_sleep_ms of_nat (\<lambda>w. w + 1) 10 (2 ^ 32 - 1) = Some (2 ^ 32 - 1 :: nat)"
  by (simp add: system_sleep_ms_def sleep_loop.simps)

lemma sleep_loop_some:
  assumes "sleep_loop ticks wait wakeup w = Some w'" "P w" "\<And>w. P w \<Longrightarrow> P (wait w)"
  shows "\<exists>w. P w \<and> wakeup \<le> ticks w"
  using assms
proof (induction ticks wait wakeup w w' rule: sleep_loop.raw_induct [rotated, consumes 1])
  case (1 f ticks wait wakeup w w')
  then show ?case by (cases "ticks w < wakeup") (auto simp: not_less)
qed

theorem sleep_for_ever: "system_sleep_ms of_nat (\<lambda>w. w + 4) 1 (2 ^ 32 - 2 :: nat) = None"
proof (rule ccontr)
  assume "system_sleep_ms of_nat (\<lambda>w. w + 4) 1 (2 ^ 32 - 2 :: nat) \<noteq> None"
  then obtain w' where "sleep_loop of_nat (\<lambda>w. w + 4) (of_nat (2 ^ 32 - 2) + 1) (2 ^ 32 - 2 :: nat) = Some w'"
    unfolding system_sleep_ms_def Let_def by blast
  from sleep_loop_some [OF this, of "\<lambda>w. w mod 4 = 2"] obtain w :: nat where
    w: "w mod 4 = 2" "of_nat (2 ^ 32 - 2) + 1 \<le> (of_nat w :: u32)" by auto
  then have "4294967295 \<le> w mod 4294967296" by (simp add: word_le_nat_alt unat_of_nat)
  moreover have "w mod 4294967296 mod 4 = 2" using w(1) by (simp add: mod_mod_cancel)
  moreover have "w mod 4294967296 < 4294967296" by simp
  ultimately have "w mod 4294967296 = 4294967295" by linarith
  with \<open>w mod 4294967296 mod 4 = 2\<close> show False by simp
qed

text \<open>The milliseconds of \<open>system_sleep\<close> wrap too: 4294968 seconds are 704 milliseconds.\<close>

theorem sleep_seconds_wrap: "system_sleep ticks wait 4294968 w = system_sleep_ms ticks wait 704 w"
proof -
  have "4294968 * 1000 = (704 :: u32)" by transfer (simp add: take_bit_eq_mod)
  then show ?thesis by (simp only: system_sleep_def)
qed

end
