(* ===== verification/Mx_Locker.thy ===== *)
theory Mx_Locker
  imports Mx_Timer
begin

text \<open>The timed lock: \<open>source/lock.c\<close> and \<open>include/mx/lock.h\<close>.\<close>

section \<open>Model\<close>

datatype locker_status = LOCK_FAIL | LOCK_SUCCESS | LOCK_INTERCEPTED

record locker =
  lock_timer :: timer
  locked :: bool

definition locker_init :: locker where
  "locker_init = \<lparr>lock_timer = timer_stop, locked = False\<rparr>"

definition locker_clean :: "locker \<Rightarrow> locker" where
  "locker_clean self = self\<lparr>locked := False\<rparr>"

definition locker_restart :: "clock \<Rightarrow> locker \<Rightarrow> locker" where
  "locker_restart clk self = self\<lparr>lock_timer := timer_restart clk (lock_timer self)\<rparr>"

definition locker_lock :: "clock \<Rightarrow> locker \<Rightarrow> u8 \<Rightarrow> u32 \<Rightarrow> locker_status \<times> locker" where
  "locker_lock clk self flags time =
     (if locked self \<and> \<not> timer_expired clk (lock_timer self) then (LOCK_FAIL, self)
      else (let status = (if locked self then LOCK_INTERCEPTED else LOCK_SUCCESS)
            in (status, self\<lparr>lock_timer := timer_start clk flags time, locked := True\<rparr>)))"

definition locker_release :: "locker \<Rightarrow> locker" where
  "locker_release self = self\<lparr>locked := False\<rparr>"

definition locker_is_locked :: "locker \<Rightarrow> bool" where
  "locker_is_locked self = locked self"

definition locker_is_expired :: "clock \<Rightarrow> locker \<Rightarrow> bool" where
  "locker_is_expired clk self = (if locked self then timer_expired clk (lock_timer self) else False)"

section \<open>Two contenders\<close>

text \<open>
  A contender takes the lock for some \<open>time\<close>, in the unit it chooses; another one asks for it after
  the clock has been updated by \<open>us\<close>, while nobody has released it. What has passed is what the
  counter of the unit says, a difference of 32 bits.
\<close>

definition passed :: "u8 \<Rightarrow> clock \<Rightarrow> (u32 \<times> u32) list \<Rightarrow> u32" where
  "passed unit clk us = timer_tstamp (clock_run clk us) unit - timer_tstamp clk unit"

lemma passed_ms: "elapsed us < 2 ^ 32 \<Longrightarrow> unat (passed TIMER_MS clk us) = elapsed us"
  by (simp add: passed_def timer_tstamp_def clock_get_milis_def clock_run_ms unat_of_nat)

lemma passed_seconds:
  assumes "elapsed vs + elapsed us < 2 ^ 32"
  shows "unat (passed TIMER_SEC (clock_run clock_zero vs) us) = (elapsed vs + elapsed us) div 1000 - elapsed vs div 1000"
proof -
  let ?a = "clock_get_seconds (clock_run clock_zero vs)" and ?b = "clock_get_seconds (clock_run clock_zero (vs @ us))"
  have "unat ?a = elapsed vs div 1000" "unat ?b = (elapsed vs + elapsed us) div 1000"
    using clock_seconds [of vs] clock_seconds [of "vs @ us"] assms by simp_all
  moreover from this have "?a \<le> ?b" by (simp add: word_le_nat_alt div_le_mono)
  ultimately show ?thesis by (simp add: passed_def timer_tstamp_def clock_run_append unat_sub word_le_nat_alt)
qed

lemma lock_granted:
  "locker_lock clk self unit time = (st, self') \<Longrightarrow> st \<noteq> LOCK_FAIL \<Longrightarrow>
   locked self' \<and> lock_timer self' = timer_start clk unit time"
  by (auto simp: locker_lock_def Let_def split: if_splits)

lemma lock_expired:
  "timer_expired (clock_run clk us) (timer_start clk unit time) \<longleftrightarrow> time \<noteq> 0 \<and> time \<le> passed unit clk us"
  by (auto simp: timer_expired_def timer_value_def passed_def timer_start_def)

lemma lock_refused_unchanged [frame]:
  "locker_lock clk self flags time = (LOCK_FAIL, self') \<Longrightarrow> self' = self"
  by (auto simp: locker_lock_def Let_def split: if_splits)

section \<open>Properties\<close>

text \<open>C37: A lock is exclusive until it expires, in every unit: after a successful locker_lock for some
  time, a further attempt fails and changes nothing as long as the time is 0 or greater than what
  has passed, and else it is intercepted and locker_is_expired holds; after locker_release it
  succeeds at once. What has passed is the 32 bit difference of the counter of the unit: for
  TIMER_MS the elapsed milliseconds as long as they are below 2^32, for TIMER_SEC the full seconds
  as long as the clock has run for less than 2^32 ms.\<close>

theorem lock_exclusive_until_expiry:
  assumes held: "locker_lock clk self unit time = (st, self')" "st \<noteq> LOCK_FAIL"
  shows "(if time = 0 \<or> passed unit clk us < time
     then locker_lock (clock_run clk us) self' flags time' = (LOCK_FAIL, self') \<and>
          \<not> locker_is_expired (clock_run clk us) self'
     else fst (locker_lock (clock_run clk us) self' flags time') = LOCK_INTERCEPTED \<and>
          locker_is_expired (clock_run clk us) self') \<and>
    fst (locker_lock (clock_run clk us) (locker_release self') flags time') = LOCK_SUCCESS \<and>
    (elapsed us < 2 ^ 32 \<longrightarrow> unat (passed TIMER_MS clk us) = elapsed us) \<and>
    (clk = clock_run clock_zero vs \<and> elapsed vs + elapsed us < 2 ^ 32 \<longrightarrow>
       unat (passed TIMER_SEC clk us) = (elapsed vs + elapsed us) div 1000 - elapsed vs div 1000)"
proof -
  note g = lock_granted [OF held]
  from g have "timer_expired (clock_run clk us) (lock_timer self') \<longleftrightarrow> time \<noteq> 0 \<and> time \<le> passed unit clk us"
    by (simp add: lock_expired)
  with g have "if time = 0 \<or> passed unit clk us < time
     then locker_lock (clock_run clk us) self' flags time' = (LOCK_FAIL, self') \<and>
          \<not> locker_is_expired (clock_run clk us) self'
     else fst (locker_lock (clock_run clk us) self' flags time') = LOCK_INTERCEPTED \<and>
          locker_is_expired (clock_run clk us) self'"
    by (auto simp: locker_lock_def locker_is_expired_def not_le)
  moreover have "fst (locker_lock (clock_run clk us) (locker_release self') flags time') = LOCK_SUCCESS"
    by (simp add: locker_lock_def locker_release_def)
  ultimately show ?thesis using passed_ms [of us clk] passed_seconds [of vs us] by blast
qed

text \<open>A lock of two seconds, asked for 2500 ms later.\<close>

theorem lock_exclusive_until_expiry_witness:
  "fst (locker_lock (clock_run (clock_run clock_zero [(1700, 0)]) [(2000, 0), (500, 0)])
     (snd (locker_lock (clock_run clock_zero [(1700, 0)]) locker_init TIMER_SEC 2)) TIMER_MS 9) = LOCK_INTERCEPTED \<and>
   unat (passed TIMER_SEC (clock_run clock_zero [(1700, 0)]) [(2000, 0), (500, 0)]) = 3"
proof -
  let ?clk = "clock_run clock_zero [(1700, 0)]" and ?us = "[(2000, 0), (500, 0)] :: (u32 \<times> u32) list"
  have lock: "locker_lock ?clk locker_init TIMER_SEC 2 = (LOCK_SUCCESS, snd (locker_lock ?clk locker_init TIMER_SEC 2))"
    by (simp add: locker_lock_def locker_init_def)
  have ne: "LOCK_SUCCESS \<noteq> LOCK_FAIL" by simp
  have els: "elapsed [(1700, 0)] + elapsed ?us < 2 ^ 32" "(elapsed [(1700, 0)] + elapsed ?us) div 1000 - elapsed [(1700, 0)] div 1000 = 3"
    by simp_all
  note res = lock_exclusive_until_expiry [OF lock ne, of ?us TIMER_MS 9 "[(1700, 0)]"]
  from res els have three: "unat (passed TIMER_SEC ?clk ?us) = 3" by metis
  then have "\<not> ((2 :: u32) = 0 \<or> passed TIMER_SEC ?clk ?us < 2)" by (simp add: word_less_nat_alt)
  with res three show ?thesis by presburger
qed

end
