(* ===== verification/Mx_Ringbuf.thy ===== *)
theory Mx_Ringbuf
  imports Mx_Interfaces
begin

unbundle bit_operations_syntax

text \<open>
  The byte ring buffer of \<open>source/ringbuf.c\<close> and \<open>include/mx/ringbuf.h\<close>, sequentially and with a
  producer and a consumer that interleave (the fields are \<open>volatile\<close>: one side runs in an
  interrupt handler).

  In C the difference of the two indices is an \<open>int\<close>; masked with a byte it is the difference
  modulo 256, which is the difference of words.
\<close>

section \<open>Model\<close>

record ringbuf =
  rb_data :: "u8 list"
  rb_mask :: u8
  put_ptr :: u8
  get_ptr :: u8

definition ringbuf_init :: "u8 list \<Rightarrow> u8 \<Rightarrow> ringbuf" where
  "ringbuf_init buffer sz =
     \<lparr>rb_data = buffer, rb_mask = sz - 1, put_ptr = 0, get_ptr = 0\<rparr>"

definition ringbuf_put :: "ringbuf \<Rightarrow> u8 \<Rightarrow> (bool \<times> ringbuf) option" where
  "ringbuf_put self c =
     (if (put_ptr self - get_ptr self) AND rb_mask self = rb_mask self then Some (False, self)
      else do {
        data \<leftarrow> wr (rb_data self) (unat (put_ptr self)) c;
        let self1 = self\<lparr>rb_data := data\<rparr>;
        Some (True, self1\<lparr>put_ptr := (put_ptr self1 + 1) AND rb_mask self1\<rparr>) })"

text \<open>The byte stored in \<open>*c\<close>, with \<open>None\<close> where the code returns false.\<close>

definition ringbuf_get :: "ringbuf \<Rightarrow> (u8 option \<times> ringbuf) option" where
  "ringbuf_get self =
     (if (put_ptr self - get_ptr self) AND rb_mask self > 0 then do {
        c \<leftarrow> rd (rb_data self) (unat (get_ptr self));
        Some (Some c, self\<lparr>get_ptr := (get_ptr self + 1) AND rb_mask self\<rparr>) }
      else Some (None, self))"

definition ringbuf_size :: "ringbuf \<Rightarrow> u8" where
  "ringbuf_size self = rb_mask self + 1"

definition ringbuf_elements :: "ringbuf \<Rightarrow> u8" where
  "ringbuf_elements self = (put_ptr self - get_ptr self) AND rb_mask self"

section \<open>Invariant and contents\<close>

definition ring_ok :: "ringbuf \<Rightarrow> bool" where
  "ring_ok r \<longleftrightarrow> (\<exists>k\<le>8. rb_mask r = mask k) \<and> length (rb_data r) = unat (rb_mask r) + 1 \<and>
     put_ptr r \<le> rb_mask r \<and> get_ptr r \<le> rb_mask r"

definition ring_cap :: "ringbuf \<Rightarrow> nat" where
  "ring_cap r = unat (rb_mask r)"

definition window :: "'a list \<Rightarrow> nat \<Rightarrow> nat \<Rightarrow> 'a list" where
  "window data g n = map (\<lambda>i. data ! ((g + i) mod length data)) [0..<n]"

definition ring_list :: "ringbuf \<Rightarrow> u8 list" where
  "ring_list r = window (rb_data r) (unat (get_ptr r)) (unat (ringbuf_elements r))"

lemma length_window [simp]: "length (window data g n) = n"
  by (simp add: window_def)

lemma window_Suc: "window data g (Suc n) = window data g n @ [data ! ((g + n) mod length data)]"
  by (simp add: window_def)

lemma window_Cons:
  assumes "g < length data"
  shows "window data g (Suc n) = data ! g # window data ((g + 1) mod length data) n"
proof -
  have "window data g (Suc n) = data ! ((g + 0) mod length data) # map (\<lambda>i. data ! ((g + Suc i) mod length data)) [0..<n]"
    unfolding window_def by (subst upt_conv_Cons) (simp_all add: map_Suc_upt [symmetric] comp_def del: upt_Suc)
  with assms show ?thesis by (simp add: window_def mod_add_left_eq)
qed

lemma add_mod_neq:
  assumes "i < n" "n < (m::nat)"
  shows "(g + i) mod m \<noteq> (g + n) mod m"
proof
  assume "(g + i) mod m = (g + n) mod m"
  then have "m dvd (g + n) - (g + i)" using assms mod_eq_dvd_iff_nat [of "g + i" "g + n" m] by simp
  then have "m dvd n - i" by simp
  with assms show False by (auto dest: dvd_imp_le)
qed

lemma add_mod_inj:
  assumes "a \<le> (m::nat)" "0 < a" "b < m" "0 < b" "(g + a) mod m = (g + b) mod m"
  shows "a = b"
proof (rule ccontr)
  assume "a \<noteq> b"
  then consider "a < b" | "b < a" "a < m" | "a = m" using assms(1) by linarith
  then show False
  proof cases
    case 3
    with assms add_mod_neq [of 0 b m g] show False by simp
  qed (use assms add_mod_neq [of a b m g] add_mod_neq [of b a m g] in auto)
qed

lemma window_upd:
  "n < length data \<Longrightarrow> window (data[(g + n) mod length data := c]) g n = window data g n"
  by (auto simp: window_def nth_list_update add_mod_neq [symmetric])

text \<open>The masked arithmetic of the indices.\<close>

lemma unat_and_mask: "unat ((x::u8) AND mask k) = unat x mod 2 ^ k"
  by (simp only: take_bit_eq_mask [symmetric] unsigned_take_bit_eq) (simp add: take_bit_eq_mod)

lemma unat_mask_u8:
  assumes "k \<le> 8"
  shows "unat (mask k :: u8) = 2 ^ k - 1"
proof -
  from assms have "k = 0 \<or> k = 1 \<or> k = 2 \<or> k = 3 \<or> k = 4 \<or> k = 5 \<or> k = 6 \<or> k = 7 \<or> k = 8" by auto
  then show ?thesis by (elim disjE) (simp_all add: mask_eq_exp_minus_1)
qed

lemma pow2_dvd_256: "k \<le> 8 \<Longrightarrow> (2::nat) ^ k dvd 256"
  using le_imp_power_dvd [of k 8 "2::nat"] by simp

lemma masked_diff:
  assumes "k \<le> 8" "unat g < 2 ^ k"
  shows "unat (((p::u8) - g) AND mask k) = (unat p + 2 ^ k - unat g) mod 2 ^ k"
proof (cases "unat g \<le> unat p")
  case True
  then have "unat (p - g) = unat p - unat g" by (simp add: unat_sub_if')
  moreover have "unat p + 2 ^ k - unat g = (unat p - unat g) + 2 ^ k" using True by simp
  ultimately show ?thesis by (simp add: unat_and_mask)
next
  case False
  from pow2_dvd_256 [OF assms(1)] obtain q where q: "(256::nat) = 2 ^ k * q" by blast
  then obtain r where r: "q = Suc r" by (cases q) auto
  have "unat (p - g) = unat p + 256 - unat g" using False by (simp add: unat_sub_if')
  moreover have "unat p + 256 - unat g = (unat p + 2 ^ k - unat g) + 2 ^ k * r"
    using q r assms(2) by simp
  ultimately show ?thesis by (simp add: unat_and_mask)
qed

lemma masked_Suc:
  assumes "k \<le> 8"
  shows "unat (((p::u8) + 1) AND mask k) = (unat p + 1) mod 2 ^ k"
proof -
  have "unat (p + 1) = (unat p + 1) mod 256" by (simp add: unat_word_ariths)
  then show ?thesis using pow2_dvd_256 [OF assms] by (simp add: unat_and_mask mod_mod_cancel)
qed

text \<open>What the invariant says of the indices as numbers.\<close>

lemma ring_okE:
  assumes "ring_ok r"
  obtains k where "k \<le> 8" "rb_mask r = mask k" "length (rb_data r) = 2 ^ k"
    "unat (put_ptr r) < 2 ^ k" "unat (get_ptr r) < 2 ^ k" "ring_cap r = 2 ^ k - 1"
proof -
  from assms obtain k where k: "k \<le> 8" "rb_mask r = mask k" by (auto simp: ring_ok_def)
  have pos: "(0::nat) < 2 ^ k" by simp
  from k unat_mask_u8 have "unat (rb_mask r) = 2 ^ k - 1" by simp
  then have lt: "x < 2 ^ k" if "x \<le> unat (rb_mask r)" for x using that pos by linarith
  from assms have "unat (put_ptr r) \<le> unat (rb_mask r)" "unat (get_ptr r) \<le> unat (rb_mask r)"
    "length (rb_data r) = unat (rb_mask r) + 1" by (auto simp: ring_ok_def word_le_nat_alt)
  with lt k pos show ?thesis
    by (intro that [of k]) (auto simp: ring_cap_def unat_mask_u8)
qed

lemma ring_elements:
  assumes "ring_ok r"
  shows "unat (ringbuf_elements r) =
      (unat (put_ptr r) + length (rb_data r) - unat (get_ptr r)) mod length (rb_data r)"
    and "unat (ringbuf_elements r) \<le> ring_cap r"
    and "(unat (get_ptr r) + unat (ringbuf_elements r)) mod length (rb_data r) = unat (put_ptr r)"
proof -
  from assms obtain k where k: "k \<le> 8" "rb_mask r = mask k" "length (rb_data r) = 2 ^ k"
    "unat (put_ptr r) < 2 ^ k" "unat (get_ptr r) < 2 ^ k" "ring_cap r = 2 ^ k - 1" by (rule ring_okE)
  then show e: "unat (ringbuf_elements r) =
      (unat (put_ptr r) + length (rb_data r) - unat (get_ptr r)) mod length (rb_data r)"
    by (simp add: ringbuf_elements_def masked_diff)
  have "unat (ringbuf_elements r) < 2 ^ k" by (simp add: e k(3))
  with k(6) show "unat (ringbuf_elements r) \<le> ring_cap r" by simp
  have "(unat (get_ptr r) + (unat (put_ptr r) + 2 ^ k - unat (get_ptr r))) mod 2 ^ k = unat (put_ptr r)"
    using k(4,5) by simp
  then show "(unat (get_ptr r) + unat (ringbuf_elements r)) mod length (rb_data r) = unat (put_ptr r)"
    by (simp add: e k(3) mod_add_right_eq)
qed

lemma ring_full_iff: "ring_ok r \<Longrightarrow> (put_ptr r - get_ptr r) AND rb_mask r = rb_mask r \<longleftrightarrow> unat (ringbuf_elements r) = ring_cap r"
  by (simp add: ringbuf_elements_def ring_cap_def word_unat_eq_iff)

lemma length_ring_list [simp]: "length (ring_list r) = unat (ringbuf_elements r)"
  by (simp add: ring_list_def)

text \<open>The three effects of the operations on the contents: storing the byte behind the last one,
  publishing it, and releasing the oldest one.\<close>

lemma ring_store:
  assumes "ring_ok r" "unat (ringbuf_elements r) < ring_cap r"
  shows "ring_list (r\<lparr>rb_data := (rb_data r)[unat (put_ptr r) := c]\<rparr>) = ring_list r"
proof -
  have "unat (ringbuf_elements r) < length (rb_data r)"
    using assms by (auto simp: ring_ok_def ring_cap_def)
  from window_upd [OF this, of "unat (get_ptr r)" c] show ?thesis
    unfolding ring_elements(3) [OF assms(1)] by (simp add: ring_list_def ringbuf_elements_def)
qed

lemma ring_publish:
  assumes ok: "ring_ok r" and room: "unat (ringbuf_elements r) < ring_cap r"
  defines "r' \<equiv> r\<lparr>put_ptr := (put_ptr r + 1) AND rb_mask r\<rparr>"
  shows "ring_ok r'" "ring_list r' = ring_list r @ [rb_data r ! unat (put_ptr r)]"
    "unat (ringbuf_elements r') = unat (ringbuf_elements r) + 1"
proof -
  from ok obtain k where k: "k \<le> 8" "rb_mask r = mask k" "length (rb_data r) = 2 ^ k"
    "unat (put_ptr r) < 2 ^ k" "unat (get_ptr r) < 2 ^ k" "ring_cap r = 2 ^ k - 1" by (rule ring_okE)
  have p: "unat (put_ptr r') = (unat (put_ptr r) + 1) mod 2 ^ k" using k by (simp add: r'_def masked_Suc)
  then have "unat (put_ptr r') < 2 ^ k" by simp
  with ok k show ok': "ring_ok r'" by (auto simp: ring_ok_def r'_def word_le_nat_alt unat_mask_u8)
  let ?n = "unat (ringbuf_elements r)"
  have sel: "rb_data r' = rb_data r" "get_ptr r' = get_ptr r" by (simp_all add: r'_def)
  have "(unat (get_ptr r) + (?n + 1)) mod 2 ^ k = unat (put_ptr r')"
    using ring_elements(3) [OF ok] p k(3) by (metis add.assoc mod_add_left_eq)
  moreover have "unat (ringbuf_elements r') < 2 ^ k" "?n + 1 < 2 ^ k"
    using ring_elements(2) [OF ok'] room k by (simp_all add: r'_def ring_cap_def)
  moreover note ring_elements(3) [OF ok']
  ultimately show n: "unat (ringbuf_elements r') = ?n + 1"
    using sel k(3) by (metis add_mod_neq linorder_neqE_nat)
  show "ring_list r' = ring_list r @ [rb_data r ! unat (put_ptr r)]"
    using ring_elements(3) [OF ok] by (simp add: ring_list_def n sel window_Suc)
qed

lemma ring_release:
  assumes ok: "ring_ok r" and some: "0 < unat (ringbuf_elements r)"
  defines "r' \<equiv> r\<lparr>get_ptr := (get_ptr r + 1) AND rb_mask r\<rparr>"
  shows "ring_ok r'" "ring_list r = rb_data r ! unat (get_ptr r) # ring_list r'"
    "unat (ringbuf_elements r') + 1 = unat (ringbuf_elements r)"
proof -
  from ok obtain k where k: "k \<le> 8" "rb_mask r = mask k" "length (rb_data r) = 2 ^ k"
    "unat (put_ptr r) < 2 ^ k" "unat (get_ptr r) < 2 ^ k" "ring_cap r = 2 ^ k - 1" by (rule ring_okE)
  have g: "unat (get_ptr r') = (unat (get_ptr r) + 1) mod 2 ^ k" using k by (simp add: r'_def masked_Suc)
  then have "unat (get_ptr r') < 2 ^ k" by simp
  with ok k show ok': "ring_ok r'" by (auto simp: ring_ok_def r'_def word_le_nat_alt unat_mask_u8)
  let ?n = "unat (ringbuf_elements r)" and ?n' = "unat (ringbuf_elements r')"
  have sel: "rb_data r' = rb_data r" "put_ptr r' = put_ptr r" by (simp_all add: r'_def)
  have "(unat (get_ptr r) + (?n' + 1)) mod 2 ^ k = (unat (get_ptr r') + ?n') mod 2 ^ k"
    unfolding g by (simp only: mod_add_left_eq) (simp add: ac_simps)
  also have "\<dots> = unat (put_ptr r)" using ring_elements(3) [OF ok'] sel k(3) by simp
  finally have e: "(unat (get_ptr r) + (?n' + 1)) mod 2 ^ k = (unat (get_ptr r) + ?n) mod 2 ^ k"
    using ring_elements(3) [OF ok] k(3) by simp
  have "unat (ringbuf_elements r') \<le> 2 ^ k - 1" "?n \<le> 2 ^ k - 1" "(0::nat) < 2 ^ k"
    using ring_elements(2) [OF ok'] ring_elements(2) [OF ok] k by (simp_all add: r'_def ring_cap_def)
  then have "?n' + 1 \<le> 2 ^ k" "?n < 2 ^ k" by linarith+
  from add_mod_inj [OF this(1) _ this(2) some e] show n: "?n' + 1 = ?n" by simp
  have "window (rb_data r) (unat (get_ptr r)) (Suc ?n') =
      rb_data r ! unat (get_ptr r) # window (rb_data r) ((unat (get_ptr r) + 1) mod length (rb_data r)) ?n'"
    by (rule window_Cons) (simp add: k)
  then show "ring_list r = rb_data r ! unat (get_ptr r) # ring_list r'"
    using n g k(3) by (simp add: ring_list_def sel)
qed

lemma ring_size: "ring_ok r \<Longrightarrow> length (rb_data r) = ring_cap r + 1"
  by (simp add: ring_ok_def ring_cap_def)

lemma ring_indices:
  assumes "ring_ok r"
  shows "unat (put_ptr r) < length (rb_data r)" "unat (get_ptr r) < length (rb_data r)"
  using assms by (auto simp: ring_ok_def word_le_nat_alt)

lemma ring_store_ok: "ring_ok r \<Longrightarrow> ring_ok (r\<lparr>rb_data := (rb_data r)[i := c]\<rparr>)"
  by (simp add: ring_ok_def)

lemma ring_some_iff:
  "(put_ptr r - get_ptr r) AND rb_mask r > 0 \<longleftrightarrow> 0 < unat (ringbuf_elements r)"
  by (simp add: ringbuf_elements_def word_neq_0_conv unat_gt_0)

lemma ringbuf_elements_store [simp]:
  "ringbuf_elements (r\<lparr>rb_data := d\<rparr>) = ringbuf_elements r"
  by (simp add: ringbuf_elements_def)

lemma ring_cap_update [simp]: "ring_cap (r\<lparr>rb_data := d\<rparr>) = ring_cap r"
    "ring_cap (r\<lparr>put_ptr := p\<rparr>) = ring_cap r" "ring_cap (r\<lparr>get_ptr := p\<rparr>) = ring_cap r"
  by (simp_all add: ring_cap_def)

lemma ringbuf_put_ok:
  assumes ok: "ring_ok r"
  shows "\<exists>r'. ringbuf_put r c = Some (length (ring_list r) < ring_cap r, r') \<and> ring_ok r' \<and>
     ring_cap r' = ring_cap r \<and>
     ring_list r' = (if length (ring_list r) < ring_cap r then ring_list r @ [c] else ring_list r)"
proof (cases "unat (ringbuf_elements r) = ring_cap r")
  case True
  with ok show ?thesis by (simp add: ringbuf_put_def ring_full_iff)
next
  case False
  with ring_elements(2) [OF ok] have room: "unat (ringbuf_elements r) < ring_cap r" by simp
  define r1 where "r1 = r\<lparr>rb_data := (rb_data r)[unat (put_ptr r) := c]\<rparr>"
  have 1: "ring_ok r1" "unat (ringbuf_elements r1) < ring_cap r1" "ring_list r1 = ring_list r"
    using ok room ring_store [OF ok room, of c] by (simp_all add: r1_def ring_store_ok)
  note ring_publish [OF 1(1,2)]
  moreover have "rb_data r1 ! unat (put_ptr r1) = c"
    using ring_indices [OF ok] by (simp add: r1_def)
  moreover have "ringbuf_put r c = Some (True, r1\<lparr>put_ptr := (put_ptr r1 + 1) AND rb_mask r1\<rparr>)"
    using ring_indices [OF ok] ring_full_iff [OF ok] False by (simp add: ringbuf_put_def r1_def Let_def)
  ultimately show ?thesis using 1(3) room by (simp add: r1_def)
qed

lemma ringbuf_get_ok:
  assumes ok: "ring_ok r"
  shows "\<exists>r'. ringbuf_get r = Some (case ring_list r of [] \<Rightarrow> None | c # _ \<Rightarrow> Some c, r') \<and>
     ring_ok r' \<and> ring_cap r' = ring_cap r \<and> ring_list r' = tl (ring_list r)"
proof (cases "0 < unat (ringbuf_elements r)")
  case True
  note ring_release [OF ok this]
  with True show ?thesis using ring_indices [OF ok] by (simp add: ringbuf_get_def ring_some_iff)
next
  case False
  then have "ring_list r = []" by (metis length_ring_list gr0I length_0_conv)
  with ok False show ?thesis by (simp add: ringbuf_get_def ring_some_iff)
qed

interpretation ring: byte_fifo ring_ok ring_cap ring_list ringbuf_put ringbuf_get
proof
  show "ring_ok s \<Longrightarrow> length (ring_list s) \<le> ring_cap s" for s
    by (simp add: ring_elements(2))
qed (blast intro: ringbuf_put_ok ringbuf_get_ok)+

lemma ringbuf_init_ok:
  assumes "k \<le> 8" "length buffer = 2 ^ k"
  shows "ring_ok (ringbuf_init buffer (of_nat (2 ^ k)))"
    "ring_list (ringbuf_init buffer (of_nat (2 ^ k))) = []"
    "ring_cap (ringbuf_init buffer (of_nat (2 ^ k))) = 2 ^ k - 1"
proof -
  have m: "of_nat (2 ^ k) - 1 = (mask k :: u8)" by (simp add: mask_eq_exp_minus_1)
  show "ring_ok (ringbuf_init buffer (of_nat (2 ^ k)))"
    unfolding ring_ok_def ringbuf_init_def m using assms by (auto simp: unat_mask_u8)
  show "ring_list (ringbuf_init buffer (of_nat (2 ^ k))) = []"
    by (simp add: ring_list_def window_def ringbuf_elements_def ringbuf_init_def)
  show "ring_cap (ringbuf_init buffer (of_nat (2 ^ k))) = 2 ^ k - 1"
    unfolding ring_cap_def ringbuf_init_def m using assms by (simp add: unat_mask_u8)
qed

section \<open>The buffer as a queue\<close>

text \<open>C21: The ring buffer is a first-in first-out queue: for every sequence of puts and gets on a
  buffer of a power of two bytes, the accepted bytes are the delivered bytes followed by the
  content, ringbuf_elements counts the content even after the 8 bit indices wrapped, and at most
  size - 1 bytes are held. No access is outside the array.\<close>

theorem ringbuf_is_fifo:
  assumes "k \<le> 8" "length buffer = 2 ^ k"
  shows "\<exists>ins outs r. ring.run (ringbuf_init buffer (of_nat (2 ^ k))) ops = Some (ins, outs, r) \<and>
    ins = outs @ ring_list r \<and> unat (ringbuf_elements r) = length ins - length outs \<and>
    unat (ringbuf_elements r) \<le> 2 ^ k - 1"
proof -
  note init = ringbuf_init_ok [OF assms]
  from ring.run_fifo [OF init(1), of ops] obtain ins outs r where
    r: "ring.run (ringbuf_init buffer (of_nat (2 ^ k))) ops = Some (ins, outs, r)" "ring_ok r"
    "ring_cap r = 2 ^ k - 1" "ins = outs @ ring_list r" unfolding init by auto
  moreover have "unat (ringbuf_elements r) \<le> 2 ^ k - 1" using ring_elements(2) [OF r(2)] r(3) by simp
  ultimately show ?thesis by simp
qed

theorem ringbuf_is_fifo_witness:
  "\<exists>ins outs r. ring.run (ringbuf_init [0, 0] 2) [Some 7, Some 8, None, Some 9] = Some (ins, outs, r) \<and>
    ins = outs @ ring_list r \<and> unat (ringbuf_elements r) = length ins - length outs \<and>
    unat (ringbuf_elements r) \<le> 1"
  using ringbuf_is_fifo [of 1 "[0, 0]" "[Some 7, Some 8, None, Some 9]"] by simp

section \<open>A producer and a consumer that interleave\<close>

text \<open>
  One context calls \<open>ringbuf_put\<close>, another (an interrupt handler, say) \<open>ringbuf_get\<close>. Each call is
  cut at its volatile accesses to what the other side writes or reads: the test, which reads the
  index the other side owns, the access to the data, the store of the call's own index. The two
  ghost lists record the bytes whose put returned true and the bytes whose get returned true.
\<close>

datatype producer = PIdle | PStore u8 | PPublish
datatype consumer = CIdle | CRead | CRelease u8

record spsc =
  sp_ring :: ringbuf
  sp_prod :: producer
  sp_cons :: consumer
  sp_accepted :: "u8 list"
  sp_delivered :: "u8 list"

definition spsc_start :: "u8 list \<Rightarrow> u8 \<Rightarrow> spsc" where
  "spsc_start buffer sz = \<lparr>sp_ring = ringbuf_init buffer sz, sp_prod = PIdle, sp_cons = CIdle,
     sp_accepted = [], sp_delivered = []\<rparr>"

inductive spsc_step :: "spsc \<Rightarrow> spsc \<Rightarrow> bool" where
  put_full: "sp_prod s = PIdle \<Longrightarrow> r = sp_ring s \<Longrightarrow>
    (put_ptr r - get_ptr r) AND rb_mask r = rb_mask r \<Longrightarrow> spsc_step s s"
| put_test: "sp_prod s = PIdle \<Longrightarrow> r = sp_ring s \<Longrightarrow>
    (put_ptr r - get_ptr r) AND rb_mask r \<noteq> rb_mask r \<Longrightarrow> spsc_step s (s\<lparr>sp_prod := PStore c\<rparr>)"
| put_store: "sp_prod s = PStore c \<Longrightarrow> r = sp_ring s \<Longrightarrow>
    wr (rb_data r) (unat (put_ptr r)) c = Some d \<Longrightarrow>
    spsc_step s (s\<lparr>sp_ring := r\<lparr>rb_data := d\<rparr>, sp_prod := PPublish,
      sp_accepted := sp_accepted s @ [c]\<rparr>)"
| put_publish: "sp_prod s = PPublish \<Longrightarrow> r = sp_ring s \<Longrightarrow>
    spsc_step s (s\<lparr>sp_ring := r\<lparr>put_ptr := (put_ptr r + 1) AND rb_mask r\<rparr>, sp_prod := PIdle\<rparr>)"
| get_empty: "sp_cons s = CIdle \<Longrightarrow> r = sp_ring s \<Longrightarrow>
    \<not> (put_ptr r - get_ptr r) AND rb_mask r > 0 \<Longrightarrow> spsc_step s s"
| get_test: "sp_cons s = CIdle \<Longrightarrow> r = sp_ring s \<Longrightarrow>
    (put_ptr r - get_ptr r) AND rb_mask r > 0 \<Longrightarrow> spsc_step s (s\<lparr>sp_cons := CRead\<rparr>)"
| get_read: "sp_cons s = CRead \<Longrightarrow> r = sp_ring s \<Longrightarrow>
    rd (rb_data r) (unat (get_ptr r)) = Some c \<Longrightarrow> spsc_step s (s\<lparr>sp_cons := CRelease c\<rparr>)"
| get_release: "sp_cons s = CRelease c \<Longrightarrow> r = sp_ring s \<Longrightarrow>
    spsc_step s (s\<lparr>sp_ring := r\<lparr>get_ptr := (get_ptr r + 1) AND rb_mask r\<rparr>, sp_cons := CIdle,
      sp_delivered := sp_delivered s @ [c]\<rparr>)"

text \<open>What a producer between its store and its publication has in flight.\<close>

definition in_flight :: "spsc \<Rightarrow> u8 list" where
  "in_flight s = (case sp_prod s of
     PPublish \<Rightarrow> [rb_data (sp_ring s) ! unat (put_ptr (sp_ring s))] | _ \<Rightarrow> [])"

definition spsc_inv :: "spsc \<Rightarrow> bool" where
  "spsc_inv s \<longleftrightarrow> ring_ok (sp_ring s) \<and>
     (sp_prod s \<noteq> PIdle \<longrightarrow> unat (ringbuf_elements (sp_ring s)) < ring_cap (sp_ring s)) \<and>
     (sp_cons s \<noteq> CIdle \<longrightarrow> 0 < unat (ringbuf_elements (sp_ring s))) \<and>
     (\<forall>c. sp_cons s = CRelease c \<longrightarrow> c = hd (ring_list (sp_ring s))) \<and>
     sp_accepted s = sp_delivered s @ ring_list (sp_ring s) @ in_flight s"

lemma spsc_invD:
  assumes "spsc_inv s"
  shows "ring_ok (sp_ring s)"
    "sp_prod s \<noteq> PIdle \<Longrightarrow> unat (ringbuf_elements (sp_ring s)) < ring_cap (sp_ring s)"
    "sp_cons s \<noteq> CIdle \<Longrightarrow> 0 < unat (ringbuf_elements (sp_ring s))"
    "sp_cons s = CRelease c \<Longrightarrow> c = hd (ring_list (sp_ring s))"
    "sp_accepted s = sp_delivered s @ ring_list (sp_ring s) @ in_flight s"
  using assms by (auto simp: spsc_inv_def)

lemma hd_append_nonempty: "0 < length xs \<Longrightarrow> hd (xs @ ys) = hd xs"
  by (cases xs) auto

lemma spsc_step_inv:
  assumes "spsc_step s s'" "spsc_inv s"
  shows "spsc_inv s'"
  using assms(1)
proof cases
  case (put_store c r d)
  note i = spsc_invD [OF assms(2)]
  from put_store i(2) have room: "unat (ringbuf_elements r) < ring_cap r" by simp
  from put_store have d: "d = (rb_data r)[unat (put_ptr r) := c]" by (simp add: wr_eq_Some)
  from ring_store [OF i(1), folded put_store(3), OF room, of c] i put_store room
  show ?thesis
    by (auto simp: spsc_inv_def in_flight_def d ring_store_ok ring_indices)
next
  case (put_publish r)
  note i = spsc_invD [OF assms(2)]
  from put_publish i(2) have room: "unat (ringbuf_elements r) < ring_cap r" by simp
  from ring_publish [OF i(1), folded put_publish(3), OF room] i(3-5) put_publish room
  show ?thesis
    by (auto simp: spsc_inv_def in_flight_def hd_append_nonempty)
next
  case (get_release c r)
  note i = spsc_invD [OF assms(2)]
  from get_release i(3) have some: "0 < unat (ringbuf_elements r)" by simp
  from ring_release [OF i(1), folded get_release(3), OF some] i(2,4,5) get_release some
  show ?thesis
    by (auto simp: spsc_inv_def in_flight_def split: producer.splits)
next
  case (get_read r c)
  note i = spsc_invD [OF assms(2)]
  from get_read i(3) have some: "0 < unat (ringbuf_elements r)" by simp
  from ring_release(2) [OF i(1), folded get_read(3), OF some] get_read i some
  show ?thesis by (simp add: spsc_inv_def in_flight_def rd_eq_Some split: producer.splits)
next
  case (put_test r c)
  note i = spsc_invD [OF assms(2)]
  have "unat (ringbuf_elements (sp_ring s)) \<noteq> ring_cap (sp_ring s)"
    using put_test ring_full_iff [OF i(1)] by simp
  with ring_elements(2) [OF i(1)] have "unat (ringbuf_elements (sp_ring s)) < ring_cap (sp_ring s)" by simp
  with i put_test show ?thesis by (simp add: spsc_inv_def in_flight_def)
next
  case (get_test r)
  with assms(2) show ?thesis
    by (simp add: spsc_inv_def in_flight_def ring_some_iff split: producer.splits)
qed (use assms(2) in simp_all)

lemma spsc_start_inv:
  assumes "k \<le> 8" "length buffer = 2 ^ k"
  shows "spsc_inv (spsc_start buffer (of_nat (2 ^ k)))"
  using ringbuf_init_ok [OF assms] by (simp add: spsc_inv_def spsc_start_def in_flight_def)

lemma spsc_reachable_inv:
  assumes "k \<le> 8" "length buffer = 2 ^ k" "spsc_step\<^sup>*\<^sup>* (spsc_start buffer (of_nat (2 ^ k))) s"
  shows "spsc_inv s"
  using assms(3)
proof (induction rule: rtranclp_induct)
  case base
  show ?case by (rule spsc_start_inv [OF assms(1,2)])
next
  case (step s s')
  then show ?case by (blast intro: spsc_step_inv)
qed

text \<open>A call of either side that is not interrupted is the operation itself.\<close>

lemma spsc_put_alone:
  assumes "sp_prod s = PIdle" "ringbuf_put (sp_ring s) c = Some (b, r')"
  shows "spsc_step\<^sup>*\<^sup>* s (s\<lparr>sp_ring := r', sp_accepted := sp_accepted s @ (if b then [c] else [])\<rparr>)"
proof (cases "(put_ptr (sp_ring s) - get_ptr (sp_ring s)) AND rb_mask (sp_ring s) = rb_mask (sp_ring s)")
  case True
  with assms(2) have "\<not> b" "r' = sp_ring s" by (simp_all add: ringbuf_put_def)
  then have "s\<lparr>sp_ring := r', sp_accepted := sp_accepted s @ (if b then [c] else [])\<rparr> = s" by simp
  then show ?thesis by simp
next
  case False
  with assms(2) obtain d where d: "wr (rb_data (sp_ring s)) (unat (put_ptr (sp_ring s))) c = Some d"
    and b: b and r': "r' = (sp_ring s)\<lparr>rb_data := d,
      put_ptr := (put_ptr (sp_ring s) + 1) AND rb_mask (sp_ring s)\<rparr>"
    by (auto simp: ringbuf_put_def bind_eq_Some_conv Let_def)
  define s1 where "s1 = s\<lparr>sp_prod := PStore c\<rparr>"
  define s2 where "s2 = s1\<lparr>sp_ring := (sp_ring s1)\<lparr>rb_data := d\<rparr>, sp_prod := PPublish,
      sp_accepted := sp_accepted s1 @ [c]\<rparr>"
  have 1: "spsc_step s s1" unfolding s1_def by (rule put_test [OF assms(1) refl False])
  have 2: "spsc_step s1 s2" unfolding s2_def by (rule put_store [OF _ refl]) (simp_all add: s1_def d)
  have 3: "spsc_step s2 (s2\<lparr>sp_ring := (sp_ring s2)\<lparr>put_ptr := (put_ptr (sp_ring s2) + 1) AND rb_mask (sp_ring s2)\<rparr>,
      sp_prod := PIdle\<rparr>)"
    by (rule put_publish [OF _ refl]) (simp_all add: s2_def)
  from converse_rtranclp_into_rtranclp [OF 1 converse_rtranclp_into_rtranclp [OF 2 r_into_rtranclp [of spsc_step, OF 3]]]
  show ?thesis using b assms(1) by (cases s) (simp add: s1_def s2_def r')
qed

lemma spsc_get_alone:
  assumes "sp_cons s = CIdle" "ringbuf_get (sp_ring s) = Some (b, r')"
  shows "spsc_step\<^sup>*\<^sup>* s (s\<lparr>sp_ring := r',
    sp_delivered := sp_delivered s @ (case b of None \<Rightarrow> [] | Some c \<Rightarrow> [c])\<rparr>)"
proof (cases "(put_ptr (sp_ring s) - get_ptr (sp_ring s)) AND rb_mask (sp_ring s) > 0")
  case False
  with assms(2) have "b = None" "r' = sp_ring s" by (auto simp: ringbuf_get_def)
  then have "s\<lparr>sp_ring := r', sp_delivered := sp_delivered s @ (case b of None \<Rightarrow> [] | Some c \<Rightarrow> [c])\<rparr> = s"
    by simp
  then show ?thesis by simp
next
  case True
  with assms(2) obtain c where c: "rd (rb_data (sp_ring s)) (unat (get_ptr (sp_ring s))) = Some c"
    and b: "b = Some c" and r': "r' = (sp_ring s)\<lparr>get_ptr := (get_ptr (sp_ring s) + 1) AND rb_mask (sp_ring s)\<rparr>"
    by (auto simp: ringbuf_get_def bind_eq_Some_conv)
  define s1 where "s1 = s\<lparr>sp_cons := CRead\<rparr>"
  define s2 where "s2 = s1\<lparr>sp_cons := CRelease c\<rparr>"
  have 1: "spsc_step s s1" unfolding s1_def by (rule get_test [OF assms(1) refl True])
  have 2: "spsc_step s1 s2" unfolding s2_def by (rule get_read [OF _ refl]) (simp_all add: s1_def c)
  have 3: "spsc_step s2 (s2\<lparr>sp_ring := (sp_ring s2)\<lparr>get_ptr := (get_ptr (sp_ring s2) + 1) AND rb_mask (sp_ring s2)\<rparr>,
      sp_cons := CIdle, sp_delivered := sp_delivered s2 @ [c]\<rparr>)"
    by (rule get_release [OF _ refl]) (simp_all add: s2_def)
  from converse_rtranclp_into_rtranclp [OF 1 converse_rtranclp_into_rtranclp [OF 2 r_into_rtranclp [of spsc_step, OF 3]]]
  show ?thesis using b assms(1) by (cases s) (simp add: s1_def s2_def r')
qed

text \<open>C14: One producer and one consumer may use the ring buffer concurrently without a lock: in every
  state reachable by interleaving the single memory accesses of ringbuf_put and ringbuf_get, the
  bytes accepted so far are the bytes delivered, then the content of the ring, then the byte stored
  but not yet published; nothing is lost, duplicated or reordered, the producer never stores into a
  full ring, and both indices stay inside the array. The size is a power of two of at most 256.\<close>

theorem spsc_no_loss:
  assumes "k \<le> 8" "length buffer = 2 ^ k" "spsc_step\<^sup>*\<^sup>* (spsc_start buffer (of_nat (2 ^ k))) s"
  shows "sp_accepted s = sp_delivered s @ ring_list (sp_ring s) @ in_flight s \<and>
    (sp_prod s \<noteq> PIdle \<longrightarrow> unat (ringbuf_elements (sp_ring s)) < ring_cap (sp_ring s)) \<and>
    unat (put_ptr (sp_ring s)) < length (rb_data (sp_ring s)) \<and>
    unat (get_ptr (sp_ring s)) < length (rb_data (sp_ring s))"
  using spsc_reachable_inv [OF assms] by (simp add: spsc_inv_def ring_indices)

definition spsc_demo :: spsc where
  "spsc_demo = \<lparr>sp_ring = \<lparr>rb_data = [7, 0], rb_mask = 1, put_ptr = 1, get_ptr = 0\<rparr>,
     sp_prod = PIdle, sp_cons = CRead, sp_accepted = [7], sp_delivered = []\<rparr>"

lemma spsc_demo_reachable: "spsc_step\<^sup>*\<^sup>* (spsc_start [0, 0] 2) spsc_demo"
proof -
  have p: "ringbuf_put (sp_ring (spsc_start [0, 0] 2)) 7 =
      Some (True, \<lparr>rb_data = [7, 0], rb_mask = 1, put_ptr = 1, get_ptr = 0\<rparr>)"
    by (simp add: spsc_start_def ringbuf_init_def ringbuf_put_def wr_def)
  have "spsc_step (spsc_demo\<lparr>sp_cons := CIdle\<rparr>) (spsc_demo\<lparr>sp_cons := CIdle, sp_cons := CRead\<rparr>)"
    by (rule get_test [OF _ refl]) (simp_all add: spsc_demo_def)
  then have r: "spsc_step (spsc_demo\<lparr>sp_cons := CIdle\<rparr>) spsc_demo" by (simp add: spsc_demo_def)
  from spsc_put_alone [OF _ p] have "spsc_step\<^sup>*\<^sup>* (spsc_start [0, 0] 2) (spsc_demo\<lparr>sp_cons := CIdle\<rparr>)"
    by (simp add: spsc_start_def spsc_demo_def)
  from rtranclp.rtrancl_into_rtrancl [OF this r] show ?thesis .
qed

theorem spsc_no_loss_witness:
  "sp_accepted spsc_demo = sp_delivered spsc_demo @ ring_list (sp_ring spsc_demo) @ in_flight spsc_demo"
  using spsc_no_loss [of 1 "[0, 0]" spsc_demo] spsc_demo_reachable by simp

end
