(* ===== verification/Mx_Avg.thy ===== *)
theory Mx_Avg
  imports Mx_Prelude "HOL-Library.Multiset"
begin

text \<open>
  The averaging filter of \<open>source/lib/avg.c\<close>: it keeps the \<open>min_size\<close> smallest and the
  \<open>max_size\<close> largest inputs aside in two caller-supplied arrays (either may be absent) and
  averages the rest. The extremes are \<open>uint8_t\<close> counters and never wrap, so they are numbers; the
  sum and the count of the averaged inputs are \<open>uint32_t\<close> and may wrap, so they are words.
\<close>

section \<open>Model\<close>

record avg =
  avg_sum :: u32
  avg_elements :: u32
  avg_min :: "u32 list option"
  avg_max :: "u32 list option"
  min_size :: nat
  min_len :: nat
  max_size :: nat
  max_len :: nat

definition avg_init :: "u32 list option \<Rightarrow> u8 \<Rightarrow> u32 list option \<Rightarrow> u8 \<Rightarrow> avg" where
  "avg_init mins minsz maxs maxsz = \<lparr>avg_sum = 0, avg_elements = 0, avg_min = mins, avg_max = maxs,
     min_size = unat minsz, min_len = 0, max_size = unat maxsz, max_len = 0\<rparr>"

text \<open>The two searches, from index \<open>i\<close> up to the size, \<open>idx\<close> being the best so far.\<close>

function find_biggest :: "u32 list \<Rightarrow> nat \<Rightarrow> nat \<Rightarrow> nat \<Rightarrow> nat option" where
  "find_biggest a n i idx = (if i < n then do {
       x \<leftarrow> rd a idx; y \<leftarrow> rd a i; find_biggest a n (Suc i) (if x < y then i else idx) }
     else Some idx)"
  by pat_completeness auto
termination by (relation "measure (\<lambda>(a, n, i, idx). n - i)") auto

function find_lowest :: "u32 list \<Rightarrow> nat \<Rightarrow> nat \<Rightarrow> nat \<Rightarrow> nat option" where
  "find_lowest a n i idx = (if i < n then do {
       x \<leftarrow> rd a idx; y \<leftarrow> rd a i; find_lowest a n (Suc i) (if x > y then i else idx) }
     else Some idx)"
  by pat_completeness auto
termination by (relation "measure (\<lambda>(a, n, i, idx). n - i)") auto

declare find_biggest.simps [simp del] find_lowest.simps [simp del]

text \<open>The result is \<open>None\<close> where the code returns true (the input was kept aside) and the value
  written to \<open>*output\<close> where it returns false.\<close>

definition avg_add_min :: "avg \<Rightarrow> u32 \<Rightarrow> (u32 option \<times> avg) option" where
  "avg_add_min self input = (case avg_min self of
     None \<Rightarrow> Some (Some input, self)
   | Some a \<Rightarrow>
       if min_len self < min_size self then do {
         a' \<leftarrow> wr a (min_len self) input;
         Some (None, self\<lparr>avg_min := Some a', min_len := min_len self + 1\<rparr>) }
       else do {
         idx \<leftarrow> find_biggest a (min_size self) 1 0;
         tmp \<leftarrow> rd a idx;
         if tmp > input then do {
           a' \<leftarrow> wr a idx input;
           Some (Some tmp, self\<lparr>avg_min := Some a'\<rparr>) }
         else Some (Some input, self) })"

definition avg_add_max :: "avg \<Rightarrow> u32 \<Rightarrow> (u32 option \<times> avg) option" where
  "avg_add_max self input = (case avg_max self of
     None \<Rightarrow> Some (Some input, self)
   | Some a \<Rightarrow>
       if max_len self < max_size self then do {
         a' \<leftarrow> wr a (max_len self) input;
         Some (None, self\<lparr>avg_max := Some a', max_len := max_len self + 1\<rparr>) }
       else do {
         idx \<leftarrow> find_lowest a (max_size self) 1 0;
         tmp \<leftarrow> rd a idx;
         if tmp < input then do {
           a' \<leftarrow> wr a idx input;
           Some (Some tmp, self\<lparr>avg_max := Some a'\<rparr>) }
         else Some (Some input, self) })"

definition avg_add :: "avg \<Rightarrow> u32 \<Rightarrow> avg option" where
  "avg_add self value = do {
     (r, self1) \<leftarrow> avg_add_min self value;
     case r of None \<Rightarrow> Some self1
     | Some v1 \<Rightarrow> do {
         (r2, self2) \<leftarrow> avg_add_max self1 v1;
         case r2 of None \<Rightarrow> Some self2
         | Some v2 \<Rightarrow> Some (self2\<lparr>avg_sum := avg_sum self2 + v2, avg_elements := avg_elements self2 + 1\<rparr>) } }"

definition avg_ready :: "avg \<Rightarrow> bool" where
  "avg_ready self = (if avg_elements self = 0 then False else True)"

definition avg_calculate :: "avg \<Rightarrow> u32" where
  "avg_calculate self =
     (let s = avg_sum self; n = avg_elements self in
      if n \<noteq> 0 then
        let r = s div n in
        if n \<ge> 2 then (if s mod n \<ge> n div 2 then r + 1 else r) else r
      else 0)"

fun avg_run :: "avg \<Rightarrow> u32 list \<Rightarrow> avg option" where
  "avg_run self [] = Some self"
| "avg_run self (x # xs) = do { self1 \<leftarrow> avg_add self x; avg_run self1 xs }"

lemma avg_run_snoc: "avg_run self (xs @ [x]) = do { s \<leftarrow> avg_run self xs; avg_add s x }"
  by (induction xs arbitrary: self) (simp_all add: bind_assoc)

section \<open>The searches\<close>

lemma find_biggest_ok:
  "idx < i \<Longrightarrow> i \<le> n \<Longrightarrow> n \<le> length a \<Longrightarrow> \<forall>j<i. a ! j \<le> a ! idx \<Longrightarrow>
   \<exists>m<n. find_biggest a n i idx = Some m \<and> (\<forall>j<n. a ! j \<le> a ! m)"
proof (induction a n i idx rule: find_biggest.induct)
  case (1 a n i idx)
  show ?case
  proof (cases "i < n")
    case False
    with 1 show ?thesis by (subst find_biggest.simps) auto
  next
    case True
    let ?k = "if a ! idx < a ! i then i else idx"
    have le: "\<forall>j<Suc i. a ! j \<le> a ! ?k" using 1(5) by (fastforce simp: less_Suc_eq)
    have "\<exists>m<n. find_biggest a n (Suc i) ?k = Some m \<and> (\<forall>j<n. a ! j \<le> a ! m)"
      using True 1(2-4) le by (intro 1(1)) auto
    with True 1(2-4) show ?thesis by (subst find_biggest.simps) auto
  qed
qed

lemma find_lowest_ok:
  "idx < i \<Longrightarrow> i \<le> n \<Longrightarrow> n \<le> length a \<Longrightarrow> \<forall>j<i. a ! idx \<le> a ! j \<Longrightarrow>
   \<exists>m<n. find_lowest a n i idx = Some m \<and> (\<forall>j<n. a ! m \<le> a ! j)"
proof (induction a n i idx rule: find_lowest.induct)
  case (1 a n i idx)
  show ?case
  proof (cases "i < n")
    case False
    with 1 show ?thesis by (subst find_lowest.simps) auto
  next
    case True
    let ?k = "if a ! idx > a ! i then i else idx"
    have le: "\<forall>j<Suc i. a ! ?k \<le> a ! j" using 1(5) by (fastforce simp: less_Suc_eq)
    have "\<exists>m<n. find_lowest a n (Suc i) ?k = Some m \<and> (\<forall>j<n. a ! m \<le> a ! j)"
      using True 1(2-4) le by (intro 1(1)) auto
    with True 1(2-4) show ?thesis by (subst find_lowest.simps) auto
  qed
qed

section \<open>What the filter has kept of its inputs\<close>

definition kept :: "u32 list option \<Rightarrow> nat \<Rightarrow> u32 list" where
  "kept a n = (case a of None \<Rightarrow> [] | Some xs \<Rightarrow> take n xs)"

definition extreme_ok :: "u32 list option \<Rightarrow> nat \<Rightarrow> nat \<Rightarrow> bool" where
  "extreme_ok a sz len \<longleftrightarrow> (case a of None \<Rightarrow> len = 0 | Some xs \<Rightarrow> 0 < sz \<and> sz \<le> length xs \<and> len \<le> sz)"

definition room :: "u32 list option \<Rightarrow> nat \<Rightarrow> nat" where
  "room a sz = (case a of None \<Rightarrow> 0 | Some _ \<Rightarrow> sz)"

definition avg_ok :: "avg \<Rightarrow> bool" where
  "avg_ok s \<longleftrightarrow> extreme_ok (avg_min s) (min_size s) (min_len s) \<and> extreme_ok (avg_max s) (max_size s) (max_len s)"

abbreviation (input) "lows s \<equiv> kept (avg_min s) (min_len s)"
abbreviation (input) "highs s \<equiv> kept (avg_max s) (max_len s)"
abbreviation (input) "low_room s \<equiv> room (avg_min s) (min_size s)"
abbreviation (input) "high_room s \<equiv> room (avg_max s) (max_size s)"

lemma mset_take_upd:
  assumes "i < n" "n \<le> length a"
  shows "add_mset (a ! i) (mset (take n (a[i := x]))) = add_mset x (mset (take n a))"
proof -
  have "take n (a[i := x]) = (take n a)[i := x]" using assms by (simp add: take_update_swap)
  with assms show ?thesis by (simp add: mset_update insert_DiffM nth_mem [of i "take n a", simplified])
qed

text \<open>The step on the low side: the input joins the kept ones, and the largest of them leaves
  when there is no room.\<close>

lemma avg_add_min_cases:
  assumes ok: "extreme_ok (avg_min s) (min_size s) (min_len s)"
  obtains (stored) a where "avg_add_min s x = Some (None, s\<lparr>avg_min := a, min_len := min_len s + 1\<rparr>)"
      "min_len s < low_room s" "extreme_ok a (min_size s) (min_len s + 1)" "room a (min_size s) = low_room s"
      "mset (kept a (min_len s + 1)) = add_mset x (mset (lows s))"
    | (passed) a y where "avg_add_min s x = Some (Some y, s\<lparr>avg_min := a\<rparr>)"
      "min_len s = low_room s" "extreme_ok a (min_size s) (min_len s)" "room a (min_size s) = low_room s"
      "add_mset y (mset (kept a (min_len s))) = add_mset x (mset (lows s))"
      "\<forall>z\<in>set (kept a (min_len s)). z \<le> y"
proof (cases "avg_min s")
  case None
  with ok show thesis
    by (intro passed [of x "avg_min s"]) (simp_all add: avg_add_min_def extreme_ok_def room_def kept_def)
next
  case (Some a)
  show thesis
  proof (cases "min_len s < min_size s")
    case True
    then show thesis using ok Some
      by (intro stored [of "Some (a[min_len s := x])"])
        (simp_all add: avg_add_min_def extreme_ok_def room_def kept_def take_Suc_conv_app_nth)
  next
    case False
    with ok Some have sz: "min_len s = min_size s" "0 < min_size s" "min_size s \<le> length a"
      by (auto simp: extreme_ok_def)
    then obtain m where m: "m < min_size s" "find_biggest a (min_size s) 1 0 = Some m"
      "\<forall>j<min_size s. a ! j \<le> a ! m"
      using find_biggest_ok [of 0 1 "min_size s" a] by auto
    from m sz have le: "\<forall>z\<in>set (take (min_size s) a). z \<le> a ! m"
      by (auto simp: in_set_conv_nth)
    show thesis
    proof (cases "a ! m > x")
      case True
      have "\<forall>z\<in>set (take (min_size s) (a[m := x])). z \<le> a ! m"
        using le True set_update_subset_insert [of "take (min_size s) a" m x]
        by (auto simp: take_update_swap)
      with True m sz Some show thesis
        by (intro passed [of "a ! m" "Some (a[m := x])"])
          (simp_all add: avg_add_min_def extreme_ok_def room_def kept_def mset_take_upd)
    next
      case False
      then have "a ! m \<le> x" by simp
      with m sz Some le show thesis
        by (intro passed [of x "avg_min s"])
          (auto simp: avg_add_min_def extreme_ok_def room_def kept_def intro: order_trans)
    qed
  qed
qed

lemma avg_add_max_cases:
  assumes ok: "extreme_ok (avg_max s) (max_size s) (max_len s)"
  obtains (stored) a where "avg_add_max s x = Some (None, s\<lparr>avg_max := a, max_len := max_len s + 1\<rparr>)"
      "max_len s < high_room s" "extreme_ok a (max_size s) (max_len s + 1)" "room a (max_size s) = high_room s"
      "mset (kept a (max_len s + 1)) = add_mset x (mset (highs s))"
    | (passed) a y where "avg_add_max s x = Some (Some y, s\<lparr>avg_max := a\<rparr>)"
      "max_len s = high_room s" "extreme_ok a (max_size s) (max_len s)" "room a (max_size s) = high_room s"
      "add_mset y (mset (kept a (max_len s))) = add_mset x (mset (highs s))"
      "\<forall>z\<in>set (kept a (max_len s)). y \<le> z"
proof (cases "avg_max s")
  case None
  with ok show thesis
    by (intro passed [of x "avg_max s"]) (simp_all add: avg_add_max_def extreme_ok_def room_def kept_def)
next
  case (Some a)
  show thesis
  proof (cases "max_len s < max_size s")
    case True
    then show thesis using ok Some
      by (intro stored [of "Some (a[max_len s := x])"])
        (simp_all add: avg_add_max_def extreme_ok_def room_def kept_def take_Suc_conv_app_nth)
  next
    case False
    with ok Some have sz: "max_len s = max_size s" "0 < max_size s" "max_size s \<le> length a"
      by (auto simp: extreme_ok_def)
    then obtain m where m: "m < max_size s" "find_lowest a (max_size s) 1 0 = Some m"
      "\<forall>j<max_size s. a ! m \<le> a ! j"
      using find_lowest_ok [of 0 1 "max_size s" a] by auto
    from m sz have le: "\<forall>z\<in>set (take (max_size s) a). a ! m \<le> z"
      by (auto simp: in_set_conv_nth)
    show thesis
    proof (cases "a ! m < x")
      case True
      have "\<forall>z\<in>set (take (max_size s) (a[m := x])). a ! m \<le> z"
        using le True set_update_subset_insert [of "take (max_size s) a" m x]
        by (auto simp: take_update_swap)
      with True m sz Some show thesis
        by (intro passed [of "a ! m" "Some (a[m := x])"])
          (simp_all add: avg_add_max_def extreme_ok_def room_def kept_def mset_take_upd)
    next
      case False
      then have "x \<le> a ! m" by simp
      with m sz Some le show thesis
        by (intro passed [of x "avg_max s"])
          (auto simp: avg_add_max_def extreme_ok_def room_def kept_def intro: order_trans)
    qed
  qed
qed

text \<open>
  The whole filter: the inputs are the low ones, the high ones and a rest; no low one exceeds any
  of the others and no high one is below the rest; sum and count are those of the rest.
\<close>

definition tracks :: "nat \<Rightarrow> nat \<Rightarrow> avg \<Rightarrow> u32 list \<Rightarrow> u32 multiset \<Rightarrow> bool" where
  "tracks lo hi s xs M \<longleftrightarrow>
     extreme_ok (avg_min s) (min_size s) (min_len s) \<and> extreme_ok (avg_max s) (max_size s) (max_len s) \<and>
     low_room s = lo \<and> high_room s = hi \<and>
     mset xs = mset (lows s) + (M + mset (highs s)) \<and>
     (\<forall>a\<in>#mset (lows s). \<forall>b\<in>#M + mset (highs s). a \<le> b) \<and>
     (\<forall>a\<in>#M. \<forall>b\<in>#mset (highs s). a \<le> b) \<and>
     (M + mset (highs s) \<noteq> {#} \<longrightarrow> min_len s = lo) \<and> (M \<noteq> {#} \<longrightarrow> max_len s = hi) \<and>
     avg_sum s = sum_mset M \<and> avg_elements s = of_nat (size M)"

lemma exchange_le:
  assumes "add_mset y A' = add_mset (x::'a::order) A" "\<forall>z\<in>#A'. z \<le> y" "\<forall>z\<in>#A. z \<le> b" "z \<in># A'"
  shows "z \<le> b"
proof (cases "y = x")
  case True
  with assms show ?thesis by simp
next
  case False
  with assms(1) have "y \<in># A" by (metis insert_noteq_member)
  with assms show ?thesis by (meson order_trans)
qed

lemma exchange_ge:
  assumes "add_mset y A' = add_mset (x::'a::order) A" "\<forall>z\<in>#A'. y \<le> z" "\<forall>z\<in>#A. b \<le> z" "z \<in># A'"
  shows "b \<le> z"
proof (cases "y = x")
  case True
  with assms show ?thesis by simp
next
  case False
  with assms(1) have "y \<in># A" by (metis insert_noteq_member)
  with assms show ?thesis by (meson order_trans)
qed

lemma exchange_mset:
  assumes "add_mset y K = add_mset x L" "add_mset w C = add_mset y H"
  shows "add_mset x (L + (M + H)) = K + (add_mset w M + C)"
proof -
  have "add_mset x (L + (M + H)) = add_mset x L + (M + H)" by simp
  also have "\<dots> = K + (M + add_mset y H)" unfolding assms(1) [symmetric] by simp
  finally show ?thesis unfolding assms(2) [symmetric] by simp
qed

lemma tracks_add:
  assumes t: "tracks lo hi s xs M"
  shows "\<exists>s' M'. avg_add s x = Some s' \<and> tracks lo hi s' (xs @ [x]) M'"
proof -
  from t have ok: "extreme_ok (avg_min s) (min_size s) (min_len s)"
    "extreme_ok (avg_max s) (max_size s) (max_len s)" by (simp_all add: tracks_def)
  from ok(1) show ?thesis
  proof (cases rule: avg_add_min_cases [where x = x])
    case (stored a)
    with t have "M + mset (highs s) = {#}" by (auto simp: tracks_def)
    with stored t show ?thesis by (auto simp: avg_add_def tracks_def)
  next
    case low: (passed a y)
    have min1: "\<forall>z\<in>#mset (kept a (min_len s)). \<forall>b\<in>#M + mset (highs s). z \<le> b"
      using exchange_le [OF low(5)] low(6) t by (auto simp: tracks_def)
    define s1 where "s1 = s\<lparr>avg_min := a\<rparr>"
    have ok1: "extreme_ok (avg_max s1) (max_size s1) (max_len s1)" using ok(2) by (simp add: s1_def)
    then show ?thesis
    proof (cases rule: avg_add_max_cases [where x = y])
      case high: (stored c)
      with t have M: "M = {#}" by (auto simp: tracks_def s1_def)
      let ?s = "s1\<lparr>avg_max := c, max_len := max_len s1 + 1\<rparr>"
      have "mset (xs @ [x]) = mset (lows ?s) + ({#} + mset (highs ?s))"
        using t low(5) high(5) by (simp add: tracks_def s1_def M)
      then have "tracks lo hi ?s (xs @ [x]) {#}"
        using t low min1 high by (simp add: tracks_def s1_def M)
      moreover have "avg_add s x = Some ?s" using low(1) high(1) by (simp add: avg_add_def s1_def)
      ultimately show ?thesis by blast
    next
      case high: (passed c w)
      have max1: "\<forall>z\<in>#mset (kept c (max_len s1)). \<forall>b\<in>#M. b \<le> z"
        using exchange_ge [OF high(5)] high(6) t by (auto simp: tracks_def s1_def)
      have sub: "set_mset (add_mset w (mset (kept c (max_len s1)))) = set_mset (add_mset y (mset (highs s)))"
        using high(5) by (simp add: s1_def)
      have min2: "\<forall>z\<in>#mset (kept a (min_len s)). \<forall>b\<in>#add_mset w M + mset (kept c (max_len s1)). z \<le> b"
      proof (intro ballI)
        fix z b
        assume z: "z \<in># mset (kept a (min_len s))" and b: "b \<in># add_mset w M + mset (kept c (max_len s1))"
        from b sub have "b \<in># M \<or> b \<in># add_mset y (mset (highs s))" by auto
        with z min1 low(6) show "z \<le> b" by auto
      qed
      let ?s2 = "s1\<lparr>avg_max := c\<rparr>"
      let ?s = "?s2\<lparr>avg_sum := avg_sum ?s2 + w, avg_elements := avg_elements ?s2 + 1\<rparr>"
      have "mset (xs @ [x]) = mset (lows ?s) + (add_mset w M + mset (highs ?s))"
        using t exchange_mset [OF low(5) high(5)] by (simp add: tracks_def s1_def)
      moreover have "\<forall>z\<in>#add_mset w M. \<forall>b\<in>#mset (highs ?s). z \<le> b"
        using max1 high(6) by (simp add: s1_def)
      moreover have "\<forall>z\<in>#mset (lows ?s). \<forall>b\<in>#add_mset w M + mset (highs ?s). z \<le> b"
        using min2 by (simp add: s1_def)
      moreover have "low_room ?s = lo" "high_room ?s = hi" "min_len ?s = lo" "max_len ?s = hi"
        "extreme_ok (avg_min ?s) (min_size ?s) (min_len ?s)" "extreme_ok (avg_max ?s) (max_size ?s) (max_len ?s)"
        using low(2-4) high(2-4) t by (simp_all add: tracks_def s1_def)
      moreover have "avg_sum ?s = sum_mset (add_mset w M)" "avg_elements ?s = of_nat (size (add_mset w M))"
        using t by (simp_all add: tracks_def s1_def)
      ultimately have "tracks lo hi ?s (xs @ [x]) (add_mset w M)" unfolding tracks_def by blast
      moreover have "avg_add s x = Some ?s" using low(1) high(1) by (simp add: avg_add_def s1_def)
      ultimately show ?thesis by blast
    qed
  qed
qed


lemma length_kept: "extreme_ok a sz len \<Longrightarrow> length (kept a len) = len"
  by (auto simp: extreme_ok_def kept_def split: option.splits)

lemma extreme_le_room: "extreme_ok a sz len \<Longrightarrow> len \<le> room a sz"
  by (auto simp: extreme_ok_def room_def split: option.splits)

text \<open>The inputs that are averaged: all but the \<open>lo\<close> smallest and the \<open>hi\<close> largest.\<close>

definition trimmed :: "nat \<Rightarrow> nat \<Rightarrow> u32 list \<Rightarrow> u32 list" where
  "trimmed lo hi xs = take (length xs - lo - hi) (drop lo (sort xs))"

lemma tracks_trimmed:
  assumes "tracks lo hi s xs M"
  shows "M = mset (trimmed lo hi xs)"
proof -
  define L C H where "L = sort (lows s)" and "C = sorted_list_of_multiset M" and "H = sort (highs s)"
  from assms have ok: "extreme_ok (avg_min s) (min_size s) (min_len s)"
    "extreme_ok (avg_max s) (max_size s) (max_len s)" by (simp_all add: tracks_def)
  have len: "length L = min_len s" "length H = max_len s" using length_kept [OF ok(1)] length_kept [OF ok(2)]
    by (simp_all add: L_def H_def)
  have mC: "mset C = M" by (simp add: C_def)
  have "mset xs = mset (L @ C @ H)" using assms by (simp add: L_def H_def C_def tracks_def)
  moreover have "sorted (L @ C @ H)"
    using assms by (auto simp: sorted_append L_def C_def H_def tracks_def)
  ultimately have sort: "sort xs = L @ C @ H" by (metis properties_for_sort)
  then have n: "length xs = length L + length C + length H" by (metis length_sort length_append add.assoc)
  show ?thesis
  proof (cases "M = {#}")
    case True
    then have "C = []" by (simp add: C_def)
    moreover from ok len assms have "length L \<le> lo" "length H \<le> hi"
      using extreme_le_room [OF ok(1)] extreme_le_room [OF ok(2)] by (simp_all add: tracks_def)
    ultimately show ?thesis using n True by (simp add: trimmed_def)
  next
    case False
    with assms len have "length L = lo" "length H = hi" by (simp_all add: tracks_def)
    with n sort mC show ?thesis by (simp add: trimmed_def)
  qed
qed

definition fits :: "u32 list option \<Rightarrow> u8 \<Rightarrow> bool" where
  "fits a sz = (case a of None \<Rightarrow> True | Some xs \<Rightarrow> 0 < sz \<and> unat sz \<le> length xs)"

lemma avg_run_tracks:
  assumes "fits mins minsz" "fits maxs maxsz"
  shows "\<exists>s M. avg_run (avg_init mins minsz maxs maxsz) xs = Some s \<and>
     tracks (room mins (unat minsz)) (room maxs (unat maxsz)) s xs M"
proof (induction xs rule: rev_induct)
  case Nil
  have "tracks (room mins (unat minsz)) (room maxs (unat maxsz)) (avg_init mins minsz maxs maxsz) [] {#}"
    using assms by (auto simp: tracks_def avg_init_def extreme_ok_def fits_def kept_def unat_gt_0
      split: option.splits)
  then show ?case by auto
next
  case (snoc x xs)
  then show ?case using tracks_add by (fastforce simp: avg_run_snoc)
qed

section \<open>The average\<close>

text \<open>C24: The streaming trimmed average computes the reference definition: after any stream of values
  the accumulator holds the sum (modulo 2^32) and the count of the stream with its smallest and
  largest values cut off, as many as the arrays of minima and maxima have room for, whatever the
  order of the values.\<close>

theorem avg_run_trimmed:
  assumes "fits mins minsz" "fits maxs maxsz"
  shows "\<exists>s. avg_run (avg_init mins minsz maxs maxsz) xs = Some s \<and>
    (let ys = trimmed (room mins (unat minsz)) (room maxs (unat maxsz)) xs in
     avg_sum s = sum_list ys \<and> avg_elements s = of_nat (length ys))"
proof -
  from avg_run_tracks [OF assms, of xs] obtain s M where
    r: "avg_run (avg_init mins minsz maxs maxsz) xs = Some s"
    and t: "tracks (room mins (unat minsz)) (room maxs (unat maxsz)) s xs M" by blast
  from t tracks_trimmed [OF t] r show ?thesis by (simp add: tracks_def Let_def sum_mset_sum_list)
qed

theorem avg_run_trimmed_witness:
  "\<exists>s. avg_run (avg_init (Some [0]) 1 (Some [0]) 1) [5, 1, 9, 6] = Some s \<and>
    avg_sum s = 11 \<and> avg_elements s = 2"
  using avg_run_trimmed [of "Some [0]" 1 "Some [0]" 1 "[5, 1, 9, 6]"]
  by (simp add: fits_def room_def trimmed_def Let_def word_le_nat_alt)

lemma avg_calculate_unat:
  "unat (avg_calculate s) = (let S = unat (avg_sum s); n = unat (avg_elements s) in
     if n = 0 then 0 else S div n + (if 2 \<le> n \<and> n div 2 \<le> S mod n then 1 else 0))"
proof -
  let ?S = "avg_sum s" and ?n = "avg_elements s"
  consider "?n = 0" | "?n = 1" | "2 \<le> unat ?n"
    by (cases "unat ?n") (auto simp: word_unat_eq_iff Suc_le_eq)
  then show ?thesis
  proof cases
    case 3
    then have n: "2 \<le> ?n" "?n \<noteq> 0" by (auto simp: word_le_nat_alt)
    have "unat ?S div unat ?n \<le> unat ?S div 2" using 3 by (intro div_le_mono2) auto
    also have "\<dots> < 2 ^ 31" using unsigned_less [of ?S, where 'a = nat] by simp
    finally have "unat (?S div ?n + 1) = unat ?S div unat ?n + 1"
      by (simp add: unat_word_ariths unat_div)
    with 3 n show ?thesis
      by (simp add: avg_calculate_def Let_def word_le_nat_alt unat_div unat_mod)
  qed (simp_all add: avg_calculate_def Let_def word_le_nat_alt)
qed

theorem avg_calculate_rounding:
  assumes "avg_elements s \<noteq> 0"
  defines "S \<equiv> unat (avg_sum s)" and "n \<equiv> unat (avg_elements s)"
  shows "unat (avg_calculate s) =
    (if n = 1 then S else if even n then (2 * S + n) div (2 * n) else (2 * S + n + 1) div (2 * n))"
proof (cases "n = 1")
  case True
  then show ?thesis by (simp add: avg_calculate_unat S_def [symmetric] n_def [symmetric])
next
  case False
  from assms(1) have "n \<noteq> 0" by (simp add: n_def unat_eq_0)
  with False have n: "2 \<le> n" by simp
  define q r m where "q = S div n" and "r = S mod n" and "m = n div 2"
  have S: "S = q * n + r" and r: "r < n" using n by (simp_all add: q_def r_def)
  have calc: "unat (avg_calculate s) = q + (if m \<le> r then 1 else 0)"
    using n by (simp add: avg_calculate_unat S_def [symmetric] n_def [symmetric] q_def r_def m_def Let_def)
  have split: "(2 * S + e) div (2 * n) = q + (2 * r + e) div (2 * n)" for e
  proof -
    have "2 * S + e = (2 * r + e) + q * (2 * n)" by (simp add: S algebra_simps)
    then show ?thesis using n by (simp only: div_mult_self1)
  qed
  have round: "e div (2 * n) = (if 2 * n \<le> e then 1 else 0)" if "e < 4 * n" for e
    using that by (simp add: div_eq_0_iff le_div_geq)
  show ?thesis
  proof (cases "even n")
    case True
    then have "n = 2 * m" by (simp add: m_def)
    then show ?thesis using calc split [of n] round [of "2 * r + n"] r True False by auto
  next
    case odd: False
    then have "n = 2 * m + 1" by (simp add: m_def)
    then show ?thesis using calc split [of "n + 1"] round [of "2 * r + (n + 1)"] r odd False by auto
  qed
qed

definition avg_demo :: avg where
  "avg_demo = (avg_init None 0 None 0)\<lparr>avg_sum := 7, avg_elements := 4\<rparr>"

theorem avg_calculate_rounding_witness: "unat (avg_calculate avg_demo) = 2"
  using avg_calculate_rounding [of avg_demo] by (simp add: avg_demo_def avg_init_def)

text \<open>Rounding an odd count: one element in three at 1 gives the average 1, not 0.\<close>

theorem avg_odd_rounds_up:
  "\<exists>s. avg_run (avg_init None 0 None 0) [0, 0, 1] = Some s \<and> avg_calculate s = 1"
  by (simp add: avg_init_def avg_add_def avg_add_min_def avg_add_max_def avg_calculate_def)

text \<open>An array of size 0 is read out of bounds by the first input; only a null pointer switches an
  extreme off.\<close>

theorem avg_empty_array_undefined: "avg_add (avg_init (Some []) 0 None 0) x = None"
  by (simp add: avg_add_def avg_add_min_def avg_init_def find_biggest.simps rd_def)

end
