(* ===== verification/Mx_String.thy ===== *)
theory Mx_String
  imports Mx_Prelude
begin

text \<open>
  The string helpers of \<open>source/string.c\<close> and \<open>include/mx/string.h\<close>. A \<open>const char *\<close> is the list
  of the bytes from the pointer to the end of the object it points into: dereferencing the empty
  list is undefined, advancing the pointer drops the head. A \<open>char\<close> is its byte; the comparisons
  the code makes do not depend on whether \<open>char\<close> is signed. The three functions of the C library the
  code calls come first.
\<close>

section \<open>Model\<close>

type_synonym cstr = "u8 list"

text \<open>Of the result of \<open>strcmp\<close> and \<open>strncmp\<close> C promises the sign only, and the code compares it
  with 0 only.\<close>

fun c_strlen :: "cstr \<Rightarrow> nat option" where
  "c_strlen [] = None"
| "c_strlen (c # s) = (if c = 0 then Some 0 else map_option Suc (c_strlen s))"

fun c_strcmp :: "cstr \<Rightarrow> cstr \<Rightarrow> int option" where
  "c_strcmp (a # s) (b # t) =
     (if a \<noteq> b then Some (uint a - uint b) else if a = 0 then Some 0 else c_strcmp s t)"
| "c_strcmp _ _ = None"

fun c_strncmp :: "cstr \<Rightarrow> cstr \<Rightarrow> nat \<Rightarrow> int option" where
  "c_strncmp _ _ 0 = Some 0"
| "c_strncmp (a # s) (b # t) (Suc n) =
     (if a \<noteq> b then Some (uint a - uint b) else if a = 0 then Some 0 else c_strncmp s t n)"
| "c_strncmp _ _ (Suc n) = None"

definition is_upper :: "u8 \<Rightarrow> bool" where
  "is_upper c \<longleftrightarrow> 65 \<le> c \<and> c \<le> 90"

definition is_alpha :: "u8 \<Rightarrow> bool" where
  "is_alpha c \<longleftrightarrow> (65 \<le> c \<and> c \<le> 90) \<or> (97 \<le> c \<and> c \<le> 122)"

text \<open>The fourth alternative is the octal escape \<open>'\12'\<close>, the newline again.\<close>

definition is_space :: "u8 \<Rightarrow> bool" where
  "is_space c \<longleftrightarrow> c = 32 \<or> c = 9 \<or> c = 10 \<or> c = 10"

definition is_digit :: "u8 \<Rightarrow> bool" where
  "is_digit c \<longleftrightarrow> 48 \<le> c \<and> c \<le> 57"

fun str_strip_left :: "cstr \<Rightarrow> cstr option" where
  "str_strip_left [] = None"
| "str_strip_left (c # s) = (if c \<noteq> 0 \<and> is_space c then str_strip_left s else Some (c # s))"

definition str_equals :: "cstr \<Rightarrow> cstr \<Rightarrow> bool option" where
  "str_equals str pattern = do { r \<leftarrow> c_strcmp str pattern; Some (if r = 0 then True else False) }"

text \<open>The result is the followup pointer, where the code returns true. \<open>wanted\<close> is whether the
  caller passes a place for it.\<close>

definition str_starts_with :: "cstr \<Rightarrow> cstr \<Rightarrow> bool \<Rightarrow> (bool \<times> cstr option) option" where
  "str_starts_with str pattern wanted = do {
     pattern_len \<leftarrow> c_strlen pattern;
     r \<leftarrow> c_strncmp str pattern pattern_len;
     if r \<noteq> 0 then Some (False, None)
     else if wanted then Some (True, Some (drop pattern_len str))
     else Some (True, None) }"

text \<open>Arithmetic on \<open>long\<close>: an overflow is undefined.\<close>

definition c_long :: "int \<Rightarrow> int option" where
  "c_long v = (if - (2 ^ 63) \<le> v \<and> v < 2 ^ 63 then Some v else None)"

text \<open>The value of a character as a digit, \<open>None\<close> where the code returns false.\<close>

definition digit_of :: "u8 \<Rightarrow> int option" where
  "digit_of c = (if is_digit c then Some (uint c - 48)
     else if is_alpha c then Some (if is_upper c then uint c - (65 - 10) else uint c - (97 - 10))
     else None)"

fun to_long_loop :: "cstr \<Rightarrow> int \<Rightarrow> int \<Rightarrow> int option option" where
  "to_long_loop [] base retval = None"
| "to_long_loop (c # s) base retval =
     (if c = 0 then Some (Some retval)
      else case digit_of c of
        None \<Rightarrow> Some None
      | Some d \<Rightarrow>
          if d \<ge> base then Some None
          else do { r1 \<leftarrow> c_long (retval * base); r2 \<leftarrow> c_long (r1 + d); to_long_loop s base r2 })"

definition str_to_long :: "cstr \<Rightarrow> int \<Rightarrow> int option option" where
  "str_to_long str0 base0 = do {
     str \<leftarrow> str_strip_left str0;
     c0 \<leftarrow> rd str 0;
     let (sgn, str) = (if c0 = 45 then (-1, drop 1 str) else if c0 = 43 then (1, drop 1 str) else (1, str));
     prefixed \<leftarrow> (if base0 = 0 \<or> base0 = 16 then do {
         a \<leftarrow> rd str 0;
         if a = 48 then do { b \<leftarrow> rd str 1; Some (b = 120 \<or> b = 88) } else Some False }
       else Some False);
     let (str, base) = (if prefixed then (drop 2 str, 16) else (str, base0));
     base \<leftarrow> (if base = 0 then do { a \<leftarrow> rd str 0; Some (if a = 48 then 8 else 10) } else Some base);
     r \<leftarrow> to_long_loop str base 0;
     case r of None \<Rightarrow> Some None | Some v \<Rightarrow> do { w \<leftarrow> c_long (sgn * v); Some (Some w) } }"

section \<open>Terminated strings\<close>

text \<open>\<open>str t s\<close>: the pointer \<open>s\<close> points to the string \<open>t\<close>, followed by its terminator.\<close>

definition points_to :: "cstr \<Rightarrow> u8 list \<Rightarrow> bool" where
  "points_to s t \<longleftrightarrow> 0 \<notin> set t \<and> (\<exists>rest. s = t @ 0 # rest)"

lemma points_to_Nil [simp]: "points_to s [] \<longleftrightarrow> (\<exists>rest. s = 0 # rest)"
  by (simp add: points_to_def)

lemma points_to_Cons [simp]: "points_to s (c # t) \<longleftrightarrow> c \<noteq> 0 \<and> (\<exists>s'. s = c # s' \<and> points_to s' t)"
  by (auto simp: points_to_def)

lemma c_strlen_ok: "points_to s t \<Longrightarrow> c_strlen s = Some (length t)"
  by (induction t arbitrary: s) auto

lemma uint_diff_0_iff [simp]: "uint (a::u8) - uint b = 0 \<longleftrightarrow> a = b"
  by (simp add: word_uint_eq_iff)

lemma uint_eq_iff [simp]: "uint (a::u8) = uint b \<longleftrightarrow> a = b" "uint a = 0 \<longleftrightarrow> a = 0"
  by (simp_all add: word_uint_eq_iff)

lemma c_strcmp_ok: "points_to s t \<Longrightarrow> points_to s' t' \<Longrightarrow> \<exists>r. c_strcmp s s' = Some r \<and> (r = 0 \<longleftrightarrow> t = t')"
proof (induction t arbitrary: s s' t')
  case Nil
  then show ?case by (cases t') auto
next
  case (Cons a t)
  then show ?case by (cases t') auto
qed

lemma c_strncmp_ok:
  "points_to s t \<Longrightarrow> points_to s' t' \<Longrightarrow>
   \<exists>r. c_strncmp s s' (length t') = Some r \<and> (r = 0 \<longleftrightarrow> take (length t') t = t')"
proof (induction t' arbitrary: s s' t)
  case Nil
  then show ?case by simp
next
  case (Cons a t')
  then show ?case by (cases t) auto
qed

lemma points_to_drop: "points_to s (p @ t) \<Longrightarrow> points_to (drop (length p) s) t"
  by (induction p arbitrary: s) auto

section \<open>Comparison\<close>

theorem str_equals_ok: "points_to s t \<Longrightarrow> points_to s' t' \<Longrightarrow> str_equals s s' = Some (t = t')"
  using c_strcmp_ok [of s t s' t'] by (auto simp: str_equals_def)

theorem str_equals_ok_witness: "str_equals [111, 107, 0, 9] [111, 107, 0] = Some True"
  using str_equals_ok [of "[111, 107, 0, 9]" "[111, 107]" "[111, 107, 0]" "[111, 107]"] by simp

theorem str_starts_with_ok:
  assumes "points_to s t" "points_to s' p"
  shows "\<exists>f. str_starts_with s s' True = Some (\<exists>u. t = p @ u, f) \<and>
    (\<forall>u. t = p @ u \<longrightarrow> (\<exists>q. f = Some q \<and> points_to q u))"
proof -
  from c_strncmp_ok [OF assms] obtain r where r: "c_strncmp s s' (length p) = Some r"
    "r = 0 \<longleftrightarrow> take (length p) t = p" by blast
  have "take (length p) t = p \<longleftrightarrow> (\<exists>u. t = p @ u)" by (metis append_eq_conv_conj)
  with r assms show ?thesis
    by (auto simp: str_starts_with_def c_strlen_ok intro: points_to_drop)
qed

theorem str_starts_with_ok_witness:
  "\<exists>f. str_starts_with [97, 61, 55, 0] [97, 61, 0] True = Some (True, f) \<and> (\<exists>q. f = Some q \<and> points_to q [55])"
  using str_starts_with_ok [of "[97, 61, 55, 0]" "[97, 61, 55]" "[97, 61, 0]" "[97, 61]"] by simp

section \<open>Conversion of numbers\<close>

text \<open>The digits of a number, most significant first, in lower case as C prints them.\<close>

definition digit_char :: "nat \<Rightarrow> u8" where
  "digit_char d = (if d < 10 then of_nat (48 + d) else of_nat (97 + (d - 10)))"

function print_nat :: "nat \<Rightarrow> nat \<Rightarrow> u8 list" where
  "print_nat base n = (if base < 2 \<or> n < base then [digit_char n]
     else print_nat base (n div base) @ [digit_char (n mod base)])"
  by pat_completeness auto
termination by (relation "measure snd") auto

declare print_nat.simps [simp del]

definition print_long :: "nat \<Rightarrow> int \<Rightarrow> u8 list" where
  "print_long base v = (if v < 0 then [45] else []) @ print_nat base (nat \<bar>v\<bar>)"

lemma digit_chars:
  assumes "d < 36"
  shows "digit_of (digit_char d) = Some (int d)" "digit_char d \<noteq> 0" "\<not> is_space (digit_char d)"
    "digit_char d \<noteq> 45" "digit_char d \<noteq> 43"
    "d < 16 \<Longrightarrow> digit_char d \<noteq> 120" "d < 16 \<Longrightarrow> digit_char d \<noteq> 88"
proof -
  have all: "list_all (\<lambda>d. digit_of (digit_char d) = Some (int d) \<and> digit_char d \<noteq> 0 \<and>
      \<not> is_space (digit_char d) \<and> digit_char d \<noteq> 45 \<and> digit_char d \<noteq> 43 \<and>
      (d < 16 \<longrightarrow> digit_char d \<noteq> 120 \<and> digit_char d \<noteq> 88)) [0..<36]"
    by code_simp
  from assms have "d \<in> set [0..<36]" by simp
  with all show "digit_of (digit_char d) = Some (int d)" "digit_char d \<noteq> 0" "\<not> is_space (digit_char d)"
    "digit_char d \<noteq> 45" "digit_char d \<noteq> 43"
    "d < 16 \<Longrightarrow> digit_char d \<noteq> 120" "d < 16 \<Longrightarrow> digit_char d \<noteq> 88"
    unfolding list_all_iff by blast+
qed

lemma print_nat_digits:
  "2 \<le> base \<Longrightarrow> base \<le> 36 \<Longrightarrow> c \<in> set (print_nat base n) \<Longrightarrow> \<exists>d<base. c = digit_char d"
proof (induction base n rule: print_nat.induct)
  case (1 base n)
  show ?case
  proof (cases "n < base")
    case True
    with 1 show ?thesis by (auto simp: print_nat.simps [of base n])
  next
    case False
    with 1(2-4) have "c \<in> set (print_nat base (n div base)) \<or> c = digit_char (n mod base)"
      by (auto simp: print_nat.simps [of base n])
    with 1 False show ?thesis by (auto intro: exI [of _ "n mod base"])
  qed
qed

lemma print_nat_nonempty: "\<exists>c cs. print_nat base n = c # cs"
  by (cases "print_nat base n") (auto simp: print_nat.simps [of base n] split: if_splits)

lemma to_long_print:
  "2 \<le> base \<Longrightarrow> base \<le> 36 \<Longrightarrow> int n < 2 ^ 63 \<Longrightarrow>
   to_long_loop (print_nat base n @ s) (int base) 0 = to_long_loop s (int base) (int n)"
proof (induction base n arbitrary: s rule: print_nat.induct)
  case (1 base n)
  show ?case
  proof (cases "n < base")
    case True
    with 1 show ?thesis by (simp add: print_nat.simps [of base n] digit_chars c_long_def)
  next
    case False
    let ?q = "n div base" and ?d = "n mod base"
    have d: "?d < base" using 1(2) by simp
    have n: "int ?q * int base + int ?d = int n"
      by (metis of_nat_add of_nat_mult div_mult_mod_eq)
    then have le: "int ?q * int base < 2 ^ 63" "int ?q < 2 ^ 63"
      using 1(4) of_nat_0_le_iff [of ?d] div_le_dividend [of n base] by linarith+
    have "to_long_loop (print_nat base n @ s) (int base) 0 =
        to_long_loop (digit_char ?d # s) (int base) (int ?q)"
      using False 1(2,3) le 1(1) [of "digit_char ?d # s"] by (simp add: print_nat.simps [of base n])
    also have "\<dots> = to_long_loop s (int base) (int n)"
      using d 1(3,4) le n by (simp add: digit_chars c_long_def del: of_nat_mod of_nat_div)
    finally show ?thesis .
  qed
qed

lemma strip_spaces: "list_all is_space ws \<Longrightarrow> 0 \<notin> set ws \<Longrightarrow> str_strip_left (ws @ s) = str_strip_left s"
  by (induction ws) auto

lemma strip_stop: "\<not> is_space c \<or> c = 0 \<Longrightarrow> str_strip_left (c # s) = Some (c # s)"
  by auto

lemma space_not_nul: "list_all is_space ws \<Longrightarrow> 0 \<notin> set ws"
  by (induction ws) (auto simp: is_space_def)

text \<open>The sign of a printed number and what remains to be read.\<close>

lemma printed_head:
  assumes "2 \<le> base" "base \<le> 36"
  obtains c cs where "print_nat base n @ 0 # rest = c # cs" "c \<noteq> 0" "\<not> is_space c" "c \<noteq> 45" "c \<noteq> 43"
    "base \<le> 16 \<Longrightarrow> \<exists>b cs'. cs = b # cs' \<and> b \<noteq> 120 \<and> b \<noteq> 88"
proof -
  obtain c ds where p: "print_nat base n = c # ds" using print_nat_nonempty by blast
  have dig: "\<exists>d<base. x = digit_char d" if "x \<in> set (c # ds)" for x
    using print_nat_digits [OF assms, of x n] that p by simp
  then obtain d where d: "d < base" "c = digit_char d" by auto
  with assms have d36: "d < 36" by simp
  have "\<exists>b cs'. ds @ 0 # rest = b # cs' \<and> b \<noteq> 120 \<and> b \<noteq> 88" if "base \<le> 16"
  proof (cases ds)
    case (Cons b ds')
    with dig obtain e where "e < base" "b = digit_char e" by auto
    with that Cons digit_chars(6,7) [of e] show ?thesis by auto
  qed auto
  with p d digit_chars(2-5) [OF d36] show thesis by (intro that [of c "ds @ 0 # rest"]) auto
qed

text \<open>C25: str_to_long parses back every number printed in the same base: for bases 2 to 36, any value
  of absolute value below 2^63, and any leading white space, the result is success with that value,
  and the conversion has no signed overflow.\<close>

theorem str_to_long_print:
  assumes "2 \<le> base" "base \<le> 36" "\<bar>v\<bar> < 2 ^ 63" "list_all is_space ws"
  shows "str_to_long (ws @ print_long base v @ 0 # rest) (int base) = Some (Some v)"
proof -
  obtain c cs where c: "print_nat base (nat \<bar>v\<bar>) @ 0 # rest = c # cs" "c \<noteq> 0"
    "\<not> is_space c" "c \<noteq> 45" "c \<noteq> 43" "base \<le> 16 \<Longrightarrow> \<exists>b cs'. cs = b # cs' \<and> b \<noteq> 120 \<and> b \<noteq> 88"
    using printed_head [OF assms(1,2), of "nat \<bar>v\<bar>" rest] by metis
  have loop: "to_long_loop (c # cs) (int base) 0 = Some (Some \<bar>v\<bar>)"
    using to_long_print [OF assms(1,2), of "nat \<bar>v\<bar>" "0 # rest"] assms(3) c(1) by simp
  have str: "print_long base v @ 0 # rest = (if v < 0 then 45 # c # cs else c # cs)"
    by (simp add: print_long_def c(1) [symmetric])
  have strip: "str_strip_left (ws @ print_long base v @ 0 # rest) = Some (if v < 0 then 45 # c # cs else c # cs)"
    using strip_spaces [OF assms(4) space_not_nul [OF assms(4)]] str c(3) by (simp add: is_space_def)
  have long: "c_long v = Some v" using assms(3) by (auto simp: c_long_def)
  have "(if int base = 0 \<or> int base = 16 then do { a \<leftarrow> rd (c # cs) 0;
      if a = 48 then do { b \<leftarrow> rd (c # cs) 1; Some (b = 120 \<or> b = 88) } else Some False }
    else Some False) = Some False"
    using c(6) assms(1) by (auto simp: rd_def)
  then show ?thesis
    using strip loop long assms(1) c(4,5) by (cases "v < 0") (simp_all add: str_to_long_def)
qed

theorem str_to_long_print_witness:
  "str_to_long [32, 45, 50, 55, 0] 10 = Some (Some (- 27))"
  using str_to_long_print [of 10 "- 27" "[32]" "[]"]
  by (simp add: print_long_def print_nat.simps digit_char_def is_space_def)

theorem str_to_long_hex_prefix:
  assumes "0 \<le> v" "v < 2 ^ 63" "x = 120 \<or> x = 88" "base = 0 \<or> base = 16"
  shows "str_to_long (48 # x # print_nat 16 (nat v) @ 0 # rest) base = Some (Some v)"
proof -
  have "to_long_loop (print_nat 16 (nat v) @ 0 # rest) 16 0 = Some (Some v)"
    using to_long_print [of 16 "nat v" "0 # rest"] assms(1,2) by simp
  moreover have "c_long v = Some v" using assms(1,2) by (simp add: c_long_def)
  ultimately show ?thesis using assms(3,4) by (auto simp: str_to_long_def is_space_def rd_def)
qed

theorem str_to_long_hex_prefix_witness: "str_to_long [48, 120, 102, 48, 0] 0 = Some (Some 240)"
  using str_to_long_hex_prefix [of 240 120 0 "[]"] by (simp add: print_nat.simps digit_char_def)

text \<open>What the code takes for a number: a string with no digit is 0, and the smallest \<open>long\<close> is not
  read back, because its absolute value overflows.\<close>

lemma str_to_long_no_digits: "str_to_long [45, 0] 10 = Some (Some 0)"
  by (simp add: str_to_long_def is_space_def c_long_def)

text \<open>A carriage return is no white space: the octal escape \<open>'\12'\<close> of the source is the newline.\<close>

theorem carriage_return_rejected: "is_space c \<longleftrightarrow> c \<in> {32, 9, 10}" "str_to_long [13, 55, 0] 10 = Some None"
  by (auto simp: is_space_def str_to_long_def rd_def digit_of_def is_digit_def is_alpha_def)

end
