(* ===== verification/Mx_Hsm.thy ===== *)
theory Mx_Hsm
  imports Mx_Prelude
begin

unbundle bit_operations_syntax

text \<open>
  The hierarchical state machine of \<open>source/core/hsm.c\<close> and \<open>include/mx/core/hsm.h\<close>. The handlers of
  the states are the application's: the router maps a state to its handler, and to \<open>None\<close> where the
  table has no entry, so that calling it is undefined. A handler gets the machine, the container, the
  event and its data, and returns a code, the machine and the container; it may change all of the
  machine's fields, which the container embeds.

  \<open>unsigned long\<close> has 64 bits, as on the platform of the unit tests.
\<close>

section \<open>Model\<close>

abbreviation (input) HSM_EV_EXIT_STATE :: int where "HSM_EV_EXIT_STATE \<equiv> 0x08"
abbreviation (input) HSM_EV_ENTER_STATE :: int where "HSM_EV_ENTER_STATE \<equiv> 0x09"
abbreviation (input) HSM_EV_TIMER_1MS :: int where "HSM_EV_TIMER_1MS \<equiv> 0x0A"
abbreviation (input) HSM_EV_TIMER_10MS :: int where "HSM_EV_TIMER_10MS \<equiv> 0x0B"
abbreviation (input) HSM_EV_TIMER_100MS :: int where "HSM_EV_TIMER_100MS \<equiv> 0x0C"
abbreviation (input) HSM_EV_TIMER_1S :: int where "HSM_EV_TIMER_1S \<equiv> 0x0D"
abbreviation (input) HSM_EV_TIMER_10S :: int where "HSM_EV_TIMER_10S \<equiv> 0x0E"
abbreviation (input) HSM_EV_TIMER_1M :: int where "HSM_EV_TIMER_1M \<equiv> 0x0F"

abbreviation (input) HSM_RET_HANDLED :: int where "HSM_RET_HANDLED \<equiv> 0"
abbreviation (input) HSM_RET_IGNORED :: int where "HSM_RET_IGNORED \<equiv> 1"
abbreviation (input) HSM_RET_SUPER :: int where "HSM_RET_SUPER \<equiv> 2"
abbreviation (input) HSM_RET_TRANS :: int where "HSM_RET_TRANS \<equiv> 3"

abbreviation (input) HSM_TIMER_DISABLED :: u16 where "HSM_TIMER_DISABLED \<equiv> 0"
abbreviation (input) HSM_TIMER_1MS :: u16 where "HSM_TIMER_1MS \<equiv> 1"
abbreviation (input) HSM_TIMER_10MS :: u16 where "HSM_TIMER_10MS \<equiv> 2"
abbreviation (input) HSM_TIMER_100MS :: u16 where "HSM_TIMER_100MS \<equiv> 4"
abbreviation (input) HSM_TIMER_1S :: u16 where "HSM_TIMER_1S \<equiv> 8"
abbreviation (input) HSM_TIMER_10S :: u16 where "HSM_TIMER_10S \<equiv> 16"
abbreviation (input) HSM_TIMER_1M :: u16 where "HSM_TIMER_1M \<equiv> 32"

record hsm_timer =
  tm_counter :: u64
  tm_mask :: u16

record hsm =
  hsm_state :: int
  hsm_current :: int
  hsm_unwind :: int
  hsm_tmr :: hsm_timer

type_synonym ('c, 'd) handler = "hsm \<Rightarrow> 'c \<Rightarrow> int \<Rightarrow> 'd option \<Rightarrow> (int \<times> hsm \<times> 'c) option"
type_synonym ('c, 'd) router = "int \<Rightarrow> ('c, 'd) handler option"

definition hsm_timer_init :: "hsm \<Rightarrow> hsm" where
  "hsm_timer_init self = self\<lparr>hsm_tmr := \<lparr>tm_counter = 0, tm_mask = HSM_TIMER_DISABLED\<rparr>\<rparr>"

definition hsm_timer_reset :: "hsm \<Rightarrow> hsm" where
  "hsm_timer_reset self = self\<lparr>hsm_tmr := (hsm_tmr self)\<lparr>tm_counter := 0\<rparr>\<rparr>"

definition hsm_timer_enable :: "hsm \<Rightarrow> u16 \<Rightarrow> hsm" where
  "hsm_timer_enable self m = self\<lparr>hsm_tmr := (hsm_tmr self)\<lparr>tm_mask := tm_mask (hsm_tmr self) OR m\<rparr>\<rparr>"

definition hsm_timer_disable :: "hsm \<Rightarrow> u16 \<Rightarrow> hsm" where
  "hsm_timer_disable self m = self\<lparr>hsm_tmr := (hsm_tmr self)\<lparr>tm_mask := tm_mask (hsm_tmr self) AND NOT m\<rparr>\<rparr>"

text \<open>\<open>enabled m bit\<close> is the C condition \<open>m & bit\<close>.\<close>

abbreviation (input) enabled :: "u16 \<Rightarrow> u16 \<Rightarrow> bool" where
  "enabled m b \<equiv> m AND b \<noteq> 0"

text \<open>The result is the mask of the timers that are ready, what is left of \<open>*time_lapse\<close>, and the
  machine.\<close>

definition hsm_timer_check :: "hsm \<Rightarrow> u32 \<Rightarrow> u16 \<times> u32 \<times> hsm" where
  "hsm_timer_check self time_lapse =
     (let m = tm_mask (hsm_tmr self);
          counter = tm_counter (hsm_tmr self);
          ticks = (if enabled m HSM_TIMER_1MS then 1
                   else if enabled m HSM_TIMER_10MS then ucast (10 - counter mod 10)
                   else if enabled m HSM_TIMER_100MS then ucast (100 - counter mod 100)
                   else ucast (1000 - counter mod 1000));
          ticks = (if time_lapse \<ge> ticks then ticks else time_lapse);
          time_lapse = time_lapse - ticks;
          counter = counter + ucast ticks;
          ready = HSM_TIMER_DISABLED;
          ready = (if enabled m HSM_TIMER_1MS then ready OR HSM_TIMER_1MS else ready);
          ready = (if enabled m HSM_TIMER_10MS \<and> counter mod 10 = 0 then ready OR HSM_TIMER_10MS else ready);
          ready = (if enabled m HSM_TIMER_100MS \<and> counter mod 100 = 0 then ready OR HSM_TIMER_100MS else ready);
          ready = (if enabled m HSM_TIMER_1S \<and> counter mod 1000 = 0 then ready OR HSM_TIMER_1S else ready);
          ready = (if enabled m HSM_TIMER_10S \<and> counter mod 10000 = 0 then ready OR HSM_TIMER_10S else ready);
          ready = (if enabled m HSM_TIMER_1M \<and> counter mod 60000 = 0 then ready OR HSM_TIMER_1M else ready)
      in (ready, time_lapse, self\<lparr>hsm_tmr := (hsm_tmr self)\<lparr>tm_counter := counter\<rparr>\<rparr>))"

definition hsm_timer_milis :: "hsm \<Rightarrow> u64" where
  "hsm_timer_milis self = tm_counter (hsm_tmr self) * 1"

definition hsm_timer_seconds :: "hsm \<Rightarrow> u64" where
  "hsm_timer_seconds self = tm_counter (hsm_tmr self) div 1000"

text \<open>The router is an argument of the operations: nothing changes it after \<open>hsm_init\<close>, which leaves
  the timer as it finds it.\<close>

definition hsm_init :: "hsm \<Rightarrow> int \<Rightarrow> hsm" where
  "hsm_init self initial_state =
     self\<lparr>hsm_state := initial_state, hsm_current := initial_state, hsm_unwind := 0\<rparr>"

definition hsm_clean :: "hsm \<Rightarrow> hsm" where
  "hsm_clean self = self"

definition hsm_get_current_state :: "hsm \<Rightarrow> int" where
  "hsm_get_current_state self = hsm_current self"

text \<open>The three loops of \<open>hsm_handle_event\<close>.\<close>

partial_function (option) hsm_super_loop ::
  "('c, 'd) router \<Rightarrow> hsm \<Rightarrow> 'c \<Rightarrow> int \<Rightarrow> 'd option \<Rightarrow> (int \<times> hsm \<times> 'c) option" where
  "hsm_super_loop router self c ev d = do {
     h \<leftarrow> router (hsm_state self);
     (ret, self1, c1) \<leftarrow> h self c ev d;
     if ret = HSM_RET_SUPER then hsm_super_loop router self1 c1 ev d else Some (ret, self1, c1) }"

partial_function (option) hsm_exit_loop :: "('c, 'd) router \<Rightarrow> hsm \<Rightarrow> 'c \<Rightarrow> (hsm \<times> 'c) option" where
  "hsm_exit_loop router self c = (if hsm_unwind self > 0 then do {
       h \<leftarrow> router (hsm_state self);
       (ret, self1, c1) \<leftarrow> h self c HSM_EV_EXIT_STATE None;
       hsm_exit_loop router
         (self1\<lparr>hsm_unwind := (if ret = HSM_RET_SUPER then hsm_unwind self1 - 1 else 0)\<rparr>) c1 }
     else Some (self, c))"

partial_function (option) hsm_enter_loop :: "('c, 'd) router \<Rightarrow> hsm \<Rightarrow> 'c \<Rightarrow> (hsm \<times> 'c) option" where
  "hsm_enter_loop router self c = (let self0 = hsm_timer_init (self\<lparr>hsm_current := hsm_state self\<rparr>) in do {
     h \<leftarrow> router (hsm_current self0);
     (ret, self1, c1) \<leftarrow> h self0 c HSM_EV_ENTER_STATE None;
     if ret = HSM_RET_TRANS \<and> hsm_current self1 \<noteq> hsm_state self1
     then hsm_enter_loop router self1 c1 else Some (self1, c1) })"

definition hsm_handle_event ::
  "('c, 'd) router \<Rightarrow> hsm \<Rightarrow> 'c \<Rightarrow> int \<Rightarrow> 'd option \<Rightarrow> (hsm \<times> 'c) option" where
  "hsm_handle_event router self c ev d = do {
     let self = self\<lparr>hsm_current := hsm_state self\<rparr>;
     (ret, self, c) \<leftarrow> hsm_super_loop router self c ev d;
     (self, c) \<leftarrow> (if ret = HSM_RET_TRANS then
         if hsm_current self \<noteq> hsm_state self then do {
           let new_state = hsm_state self;
           (self, c) \<leftarrow> hsm_exit_loop router (self\<lparr>hsm_state := hsm_current self\<rparr>) c;
           hsm_enter_loop router (self\<lparr>hsm_state := new_state\<rparr>) c }
         else Some (self, c)
       else Some (self, c));
     Some (self\<lparr>hsm_state := hsm_current self\<rparr>, c) }"

text \<open>One conditional delivery of \<open>hsm_handle_time\<close>.\<close>

definition hsm_deliver ::
  "('c, 'd) router \<Rightarrow> u16 \<Rightarrow> u16 \<Rightarrow> int \<Rightarrow> hsm \<times> 'c \<Rightarrow> (hsm \<times> 'c) option" where
  "hsm_deliver router ready b ev = (\<lambda>(self, c).
     if enabled ready b then hsm_handle_event router self c ev None else Some (self, c))"

definition hsm_time_step ::
  "('c, 'd) router \<Rightarrow> hsm \<Rightarrow> 'c \<Rightarrow> u32 \<Rightarrow> (u32 \<times> hsm \<times> 'c) option" where
  "hsm_time_step router self c time_lapse =
     (let (ready, rest, self1) = hsm_timer_check self time_lapse in do {
        (self2, c2) \<leftarrow> hsm_deliver router ready HSM_TIMER_1MS HSM_EV_TIMER_1MS (self1, c);
        (self3, c3) \<leftarrow> hsm_deliver router ready HSM_TIMER_10MS HSM_EV_TIMER_10MS (self2, c2);
        (self4, c4) \<leftarrow> hsm_deliver router ready HSM_TIMER_100MS HSM_EV_TIMER_100MS (self3, c3);
        (self5, c5) \<leftarrow> hsm_deliver router ready HSM_TIMER_1S HSM_EV_TIMER_1S (self4, c4);
        (self6, c6) \<leftarrow> hsm_deliver router ready HSM_TIMER_10S HSM_EV_TIMER_10S (self5, c5);
        (self7, c7) \<leftarrow> hsm_deliver router ready HSM_TIMER_1M HSM_EV_TIMER_1M (self6, c6);
        Some (rest, self7, c7) })"

partial_function (option) hsm_handle_time ::
  "('c, 'd) router \<Rightarrow> hsm \<Rightarrow> 'c \<Rightarrow> u32 \<Rightarrow> (hsm \<times> 'c) option" where
  "hsm_handle_time router self c time_lapse = (if time_lapse > 0 then do {
       (rest, self1, c1) \<leftarrow> hsm_time_step router self c time_lapse;
       hsm_handle_time router self1 c1 rest }
     else Some (self, c))"

section \<open>Handlers written with the macros\<close>

text \<open>What a handler returns through \<open>HSM_HANDLED\<close>, \<open>HSM_IGNORED\<close>, \<open>HSM_SUPER\<close> and \<open>HSM_TRANS\<close>, and
  what the macros do to the machine.\<close>

datatype reaction = Handled | Ignored | Super int | Trans int int

fun hsm_reply :: "reaction \<Rightarrow> hsm \<Rightarrow> int \<times> hsm" where
  "hsm_reply Handled self = (HSM_RET_HANDLED, self)"
| "hsm_reply Ignored self = (HSM_RET_IGNORED, self)"
| "hsm_reply (Super s) self = (HSM_RET_SUPER, self\<lparr>hsm_state := s\<rparr>)"
| "hsm_reply (Trans s n) self = (HSM_RET_TRANS, self\<lparr>hsm_state := s, hsm_unwind := n\<rparr>)"

text \<open>A chart gives the reaction of each state, which may change the container and the timer (through
  \<open>hsm_timer_reset\<close>, \<open>hsm_timer_enable\<close> and \<open>hsm_timer_disable\<close>).\<close>

type_synonym ('c, 'd) chart =
  "int \<Rightarrow> (hsm_timer \<Rightarrow> 'c \<Rightarrow> int \<Rightarrow> 'd option \<Rightarrow> reaction \<times> hsm_timer \<times> 'c) option"

definition chart_router :: "('c, 'd) chart \<Rightarrow> ('c, 'd) router" where
  "chart_router chart s = map_option (\<lambda>react self c ev d.
     (let (r, tm, c1) = react (hsm_tmr self) c ev d;
          (ret, self1) = hsm_reply r (self\<lparr>hsm_tmr := tm\<rparr>) in Some (ret, self1, c1))) (chart s)"

lemma chart_router_None [simp]: "chart s = None \<Longrightarrow> chart_router chart s = None"
  by (simp add: chart_router_def)

lemma chart_router_Some [simp]: "chart s = Some react \<Longrightarrow> chart_router chart s = Some (\<lambda>self c ev d.
     (let (r, tm, c1) = react (hsm_tmr self) c ev d;
          (ret, self1) = hsm_reply r (self\<lparr>hsm_tmr := tm\<rparr>) in Some (ret, self1, c1)))"
  by (simp add: chart_router_def)

section \<open>What an event does: the abstract machine\<close>

text \<open>
  Without the bookkeeping fields, a machine is its state, its timer and its container. An event goes
  up from the current state until some state does not defer to its parent; a transition leaves up to
  \<open>n\<close> states, from the current one upwards, and enters the new one with a fresh timer, from where
  further transitions may follow.
\<close>

inductive dispatched :: "('c, 'd) chart \<Rightarrow> int \<Rightarrow> 'd option \<Rightarrow> int \<Rightarrow> hsm_timer \<Rightarrow> 'c \<Rightarrow>
    reaction \<Rightarrow> hsm_timer \<Rightarrow> 'c \<Rightarrow> bool" for chart ev d where
  here: "chart s = Some react \<Longrightarrow> react tm c ev d = (r, tm', c') \<Longrightarrow> (\<And>p. r \<noteq> Super p) \<Longrightarrow>
    dispatched chart ev d s tm c r tm' c'"
| up: "chart s = Some react \<Longrightarrow> react tm c ev d = (Super p, tm1, c1) \<Longrightarrow>
    dispatched chart ev d p tm1 c1 r tm' c' \<Longrightarrow> dispatched chart ev d s tm c r tm' c'"

inductive exited :: "('c, 'd) chart \<Rightarrow> nat \<Rightarrow> int \<Rightarrow> hsm_timer \<Rightarrow> 'c \<Rightarrow> hsm_timer \<Rightarrow> 'c \<Rightarrow> bool"
  for chart where
  none: "exited chart 0 s tm c tm c"
| top: "chart s = Some react \<Longrightarrow> react tm c HSM_EV_EXIT_STATE None = (r, tm', c') \<Longrightarrow>
    (\<And>p. r \<noteq> Super p) \<Longrightarrow> exited chart (Suc n) s tm c tm' c'"
| up: "chart s = Some react \<Longrightarrow> react tm c HSM_EV_EXIT_STATE None = (Super p, tm1, c1) \<Longrightarrow>
    exited chart n p tm1 c1 tm' c' \<Longrightarrow> exited chart (Suc n) s tm c tm' c'"

abbreviation (input) fresh :: hsm_timer where
  "fresh \<equiv> \<lparr>tm_counter = 0, tm_mask = HSM_TIMER_DISABLED\<rparr>"

inductive entered :: "('c, 'd) chart \<Rightarrow> int \<Rightarrow> 'c \<Rightarrow> int \<Rightarrow> hsm_timer \<Rightarrow> 'c \<Rightarrow> bool" for chart where
  stay: "chart s = Some react \<Longrightarrow> react fresh c HSM_EV_ENTER_STATE None = (r, tm', c') \<Longrightarrow>
    (\<And>t n. r = Trans t n \<Longrightarrow> t = s) \<Longrightarrow> entered chart s c s tm' c'"
| on: "chart s = Some react \<Longrightarrow> react fresh c HSM_EV_ENTER_STATE None = (Trans t n, tm1, c1) \<Longrightarrow>
    t \<noteq> s \<Longrightarrow> entered chart t c1 u tm' c' \<Longrightarrow> entered chart s c u tm' c'"

inductive reacted :: "('c, 'd) chart \<Rightarrow> int \<Rightarrow> 'd option \<Rightarrow> int \<times> hsm_timer \<times> 'c \<Rightarrow>
    int \<times> hsm_timer \<times> 'c \<Rightarrow> bool" for chart ev d where
  keep: "dispatched chart ev d s tm c r tm' c' \<Longrightarrow> (\<And>t n. r = Trans t n \<Longrightarrow> t = s) \<Longrightarrow>
    reacted chart ev d (s, tm, c) (s, tm', c')"
| change: "dispatched chart ev d s tm c (Trans t n) tm1 c1 \<Longrightarrow> t \<noteq> s \<Longrightarrow>
    exited chart (nat n) s tm1 c1 tm2 c2 \<Longrightarrow> entered chart t c2 u tm' c' \<Longrightarrow>
    reacted chart ev d (s, tm, c) (u, tm', c')"

inductive_cases dispatchedE: "dispatched chart ev d s tm c r tm' c'"
inductive_cases exitedE: "exited chart n s tm c tm' c'"
inductive_cases enteredE: "entered chart s c u tm' c'"

text \<open>The loops against the relations.\<close>

definition replied :: "reaction \<Rightarrow> int \<Rightarrow> hsm \<Rightarrow> hsm \<Rightarrow> bool" where
  "replied r ret self self1 \<longleftrightarrow> hsm_current self1 = hsm_current self \<and> 
     (case r of Handled \<Rightarrow> ret = HSM_RET_HANDLED | Ignored \<Rightarrow> ret = HSM_RET_IGNORED | Super _ \<Rightarrow> False
      | Trans t n \<Rightarrow> ret = HSM_RET_TRANS \<and> hsm_state self1 = t \<and> hsm_unwind self1 = n)"


lemma super_loop_sound:
  "hsm_super_loop router self c ev d = Some y \<Longrightarrow> router = chart_router chart \<Longrightarrow>
   (case y of (ret, self1, c1) \<Rightarrow> \<exists>r. dispatched chart ev d (hsm_state self) (hsm_tmr self) c r (hsm_tmr self1) c1 \<and>
     replied r ret self self1)"
proof (induction router self c ev d y rule: hsm_super_loop.raw_induct [rotated, consumes 1])
  case (1 f router self c ev d y)
  from 1(2,3) obtain react where react: "chart (hsm_state self) = Some react"
    by (cases "chart (hsm_state self)") auto
  obtain r tm c1 where x: "react (hsm_tmr self) c ev d = (r, tm, c1)" by (metis prod_cases3)
  show ?case
  proof (cases r)
    case (Super p)
    with 1(2,3) react x have "f router (self\<lparr>hsm_tmr := tm, hsm_state := p\<rparr>) c1 ev d = Some y" by simp
    from 1(1) [OF this 1(3)] show ?thesis
      using dispatched.up [where chart = chart, OF react, of "hsm_tmr self" c ev d p tm c1] x Super
      by (fastforce simp: replied_def split: prod.splits)
  qed (use 1(2,3) react x in \<open>auto simp: replied_def intro!: dispatched.here\<close>)
qed

lemma super_loop_complete:
  "dispatched chart ev d s tm c r tm' c' \<Longrightarrow> s = hsm_state self \<Longrightarrow> tm = hsm_tmr self \<Longrightarrow>
   \<exists>ret self1. hsm_super_loop (chart_router chart) self c ev d = Some (ret, self1, c') \<and>
     hsm_tmr self1 = tm' \<and> replied r ret self self1"
proof (induction arbitrary: self rule: dispatched.induct)
  case (here s react tm c r tm' c')
  then show ?case by (subst hsm_super_loop.simps) (cases r; auto simp: replied_def)
next
  case (up s react tm c p tm1 c1 r tm' c')
  from up(4) [of "self\<lparr>hsm_tmr := tm1, hsm_state := p\<rparr>"] up show ?case
    by (subst hsm_super_loop.simps) (auto simp: replied_def split: reaction.splits)
qed

lemma exit_loop_sound:
  "hsm_exit_loop router self c = Some y \<Longrightarrow> router = chart_router chart \<Longrightarrow>
   (case y of (self1, c1) \<Rightarrow> exited chart (nat (hsm_unwind self)) (hsm_state self) (hsm_tmr self) c (hsm_tmr self1) c1 \<and>
     hsm_current self1 = hsm_current self)"
proof (induction router self c y rule: hsm_exit_loop.raw_induct [rotated, consumes 1])
  case (1 f router self c y)
  show ?case
  proof (cases "hsm_unwind self > 0")
    case False
    with 1 show ?thesis by (auto intro: exited.none)
  next
    case True
    then obtain n where n: "nat (hsm_unwind self) = Suc n" by (metis Suc_pred zero_less_nat_eq)
    from True 1(2,3) obtain react where react: "chart (hsm_state self) = Some react"
      by (cases "chart (hsm_state self)") auto
    obtain r tm c1 where x: "react (hsm_tmr self) c HSM_EV_EXIT_STATE None = (r, tm, c1)" by (metis prod_cases3)
    show ?thesis
    proof (cases "\<exists>p. r = Super p")
      case True
      then obtain p where p: "r = Super p" by blast
      with \<open>hsm_unwind self > 0\<close> 1(2,3) react x have
        "f router (self\<lparr>hsm_tmr := tm, hsm_state := p, hsm_unwind := hsm_unwind self - 1\<rparr>) c1 = Some y" by simp
      from 1(1) [OF this 1(3)] n have "case y of (self1, c2) \<Rightarrow> exited chart n p tm c1 (hsm_tmr self1) c2 \<and>
        hsm_current self1 = hsm_current self" by (simp add: nat_diff_distrib)
      with exited.up [where chart = chart, OF react x [unfolded p]] show ?thesis by (auto simp: n)
    next
      case False
      with \<open>hsm_unwind self > 0\<close> 1(2,3) react x obtain self2 where
        "f router (self2\<lparr>hsm_unwind := 0\<rparr>) c1 = Some y" "hsm_tmr self2 = tm" "hsm_current self2 = hsm_current self"
        by (cases r) auto
      with 1(1) [OF this(1) 1(3)] show ?thesis
        using exited.top [where chart = chart, OF react x] False by (auto simp: n elim: exitedE)
    qed
  qed
qed

lemma exit_loop_done: "hsm_unwind self \<le> 0 \<Longrightarrow> hsm_exit_loop router self c = Some (self, c)"
  by (subst hsm_exit_loop.simps) simp

lemma exit_loop_complete:
  "exited chart n s tm c tm' c' \<Longrightarrow> n = nat (hsm_unwind self) \<Longrightarrow> s = hsm_state self \<Longrightarrow> tm = hsm_tmr self \<Longrightarrow>
   \<exists>self1. hsm_exit_loop (chart_router chart) self c = Some (self1, c') \<and> hsm_tmr self1 = tm' \<and>
     hsm_current self1 = hsm_current self"
proof (induction arbitrary: self rule: exited.induct)
  case (none s tm c)
  then show ?case by (subst hsm_exit_loop.simps) auto
next
  case (top s react tm c r tm' c' n)
  then show ?case
    by (subst hsm_exit_loop.simps) (cases r; auto simp: exit_loop_done)
next
  case (up s react tm c p tm1 c1 n tm' c')
  then have "n = nat (hsm_unwind self - 1)" "hsm_unwind self > 0" by auto
  with up(4) [of "self\<lparr>hsm_tmr := tm1, hsm_state := p, hsm_unwind := hsm_unwind self - 1\<rparr>"] up show ?case
    by (subst hsm_exit_loop.simps) auto
qed

lemma enter_loop_sound:
  "hsm_enter_loop router self c = Some y \<Longrightarrow> router = chart_router chart \<Longrightarrow>
   (case y of (self1, c1) \<Rightarrow> entered chart (hsm_state self) c (hsm_current self1) (hsm_tmr self1) c1)"
proof (induction router self c y rule: hsm_enter_loop.raw_induct [rotated, consumes 1])
  case (1 f router self c y)
  from 1(2,3) obtain react where react: "chart (hsm_state self) = Some react"
    by (cases "chart (hsm_state self)") (auto simp: hsm_timer_init_def)
  obtain r tm c1 where x: "react fresh c HSM_EV_ENTER_STATE None = (r, tm, c1)" by (metis prod_cases3)
  show ?case
  proof (cases "\<exists>t n. r = Trans t n \<and> t \<noteq> hsm_state self")
    case True
    then obtain t n where t: "r = Trans t n" "t \<noteq> hsm_state self" by blast
    with 1(2,3) react x obtain self2 where "f router self2 c1 = Some y" "hsm_state self2 = t"
      by (auto simp: hsm_timer_init_def)
    with 1(1) [OF this(1) 1(3)] entered.on [where chart = chart, OF react x [unfolded t(1)] t(2)]
    show ?thesis by auto
  next
    case False
    with 1(2,3) react x entered.stay [where chart = chart, OF react x] show ?thesis
      by (cases r) (auto simp: hsm_timer_init_def)
  qed
qed

lemma enter_loop_complete:
  "entered chart s c u tm' c' \<Longrightarrow> s = hsm_state self \<Longrightarrow>
   \<exists>self1. hsm_enter_loop (chart_router chart) self c = Some (self1, c') \<and> hsm_tmr self1 = tm' \<and>
     hsm_current self1 = u"
proof (induction arbitrary: self rule: entered.induct)
  case (stay s react c r tm' c')
  then show ?case
    by (subst hsm_enter_loop.simps) (cases r; auto simp: hsm_timer_init_def)
next
  case (on s react c t n tm1 c1 u tm' c')
  then show ?case by (subst hsm_enter_loop.simps) (auto simp: hsm_timer_init_def)
qed

lemma replied_trans: "replied r 3 self self1 \<longleftrightarrow> hsm_current self1 = hsm_current self \<and>
    (\<exists>t n. r = Trans t n \<and> hsm_state self1 = t \<and> hsm_unwind self1 = n)"
  by (cases r) (auto simp: replied_def)

lemma hsm_handle_event_iff:
  "(\<exists>self'. hsm_handle_event (chart_router chart) self c ev d = Some (self', c') \<and>
      hsm_state self' = s' \<and> hsm_current self' = s' \<and> hsm_tmr self' = tm') \<longleftrightarrow>
   reacted chart ev d (hsm_state self, hsm_tmr self, c) (s', tm', c')"
proof (intro iffI)
  let ?self = "self\<lparr>hsm_current := hsm_state self\<rparr>"
  assume "\<exists>self'. hsm_handle_event (chart_router chart) self c ev d = Some (self', c') \<and>
      hsm_state self' = s' \<and> hsm_current self' = s' \<and> hsm_tmr self' = tm'"
  then obtain self' where e: "hsm_handle_event (chart_router chart) self c ev d = Some (self', c')"
    and s': "hsm_current self' = s'" "hsm_tmr self' = tm'" by blast
  from e obtain ret self1 c1 where l: "hsm_super_loop (chart_router chart) ?self c ev d = Some (ret, self1, c1)"
    by (auto simp: hsm_handle_event_def bind_eq_Some_conv Let_def)
  from super_loop_sound [OF l refl] obtain r where
    r: "dispatched chart ev d (hsm_state self) (hsm_tmr self) c r (hsm_tmr self1) c1" "replied r ret ?self self1"
    by auto
  show "reacted chart ev d (hsm_state self, hsm_tmr self, c) (s', tm', c')"
  proof (cases "ret = HSM_RET_TRANS \<and> hsm_current self1 \<noteq> hsm_state self1")
    case False
    with e l s' have "s' = hsm_current self1" "hsm_tmr self1 = tm'" "c1 = c'"
      by (auto simp: hsm_handle_event_def Let_def split: if_splits)
    with False r show ?thesis
      by (auto simp: replied_def intro!: reacted.keep split: reaction.splits)
  next
    case True
    with r obtain t n where t: "r = Trans t n" "hsm_state self1 = t" "hsm_unwind self1 = n" "t \<noteq> hsm_state self"
      "hsm_current self1 = hsm_state self"
      by (auto simp: replied_trans)
    from e l True obtain self2 c2 self3 where
      x: "hsm_exit_loop (chart_router chart) (self1\<lparr>hsm_state := hsm_current self1\<rparr>) c1 = Some (self2, c2)"
      and n: "hsm_enter_loop (chart_router chart) (self2\<lparr>hsm_state := hsm_state self1\<rparr>) c2 = Some (self3, c')"
      and "self' = self3\<lparr>hsm_state := hsm_current self3\<rparr>"
      by (auto simp: hsm_handle_event_def Let_def bind_eq_Some_conv)
    with s' exit_loop_sound [OF x refl] enter_loop_sound [OF n refl] t r(1) show ?thesis
      by (auto intro: reacted.change)
  qed
next
  let ?self = "self\<lparr>hsm_current := hsm_state self\<rparr>"
  assume "reacted chart ev d (hsm_state self, hsm_tmr self, c) (s', tm', c')"
  then show "\<exists>self'. hsm_handle_event (chart_router chart) self c ev d = Some (self', c') \<and>
      hsm_state self' = s' \<and> hsm_current self' = s' \<and> hsm_tmr self' = tm'"
  proof cases
    case (keep r)
    from super_loop_complete [OF keep(2), of ?self] obtain ret self1 where
      l: "hsm_super_loop (chart_router chart) ?self c ev d = Some (ret, self1, c')" "hsm_tmr self1 = tm'"
        "replied r ret ?self self1" by auto
    with keep(1,3) show ?thesis
      by (auto simp: hsm_handle_event_def Let_def replied_def split: reaction.splits)
  next
    case (change t n tm1 c1 tm2 c2)
    from super_loop_complete [OF change(1), of ?self] obtain self1 where
      l: "hsm_super_loop (chart_router chart) ?self c ev d = Some (3, self1, c1)" "hsm_tmr self1 = tm1"
        "hsm_current self1 = hsm_state self" "hsm_state self1 = t" "hsm_unwind self1 = n"
      by (auto simp: replied_def)
    have "\<exists>self2. hsm_exit_loop (chart_router chart) (self1\<lparr>hsm_state := hsm_current self1\<rparr>) c1 = Some (self2, c2) \<and>
        hsm_tmr self2 = tm2 \<and> hsm_current self2 = hsm_current (self1\<lparr>hsm_state := hsm_current self1\<rparr>)"
      by (rule exit_loop_complete [OF change(3)]) (simp_all add: l)
    then obtain self2 where
      x: "hsm_exit_loop (chart_router chart) (self1\<lparr>hsm_state := hsm_current self1\<rparr>) c1 = Some (self2, c2)"
      by blast
    from enter_loop_complete [OF change(4), of "self2\<lparr>hsm_state := hsm_state self1\<rparr>"] l(4) obtain self3 where
      "hsm_enter_loop (chart_router chart) (self2\<lparr>hsm_state := hsm_state self1\<rparr>) c2 = Some (self3, c')"
      "hsm_tmr self3 = tm'" "hsm_current self3 = s'" by auto
    note n = this
    have "hsm_handle_event (chart_router chart) self c ev d = Some (self3\<lparr>hsm_state := hsm_current self3\<rparr>, c')"
      using l(1) n(1) x(1) l(3,4) change(2) by (simp add: hsm_handle_event_def)
    with n(2,3) show ?thesis by simp
  qed
qed

section \<open>When an event is handled in finitely many steps\<close>

text \<open>
  The states \<open>S\<close> have handlers and only refer to each other; going to the parent decreases \<open>up\<close>, a
  transition out of an enter event decreases \<open>on\<close>.
\<close>

definition ranked :: "('c, 'd) chart \<Rightarrow> int set \<Rightarrow> (int \<Rightarrow> nat) \<Rightarrow> (int \<Rightarrow> nat) \<Rightarrow> bool" where
  "ranked chart S up on \<longleftrightarrow> (\<forall>s\<in>S. \<exists>react. chart s = Some react \<and>
     (\<forall>tm c ev d. case fst (react tm c ev d) of
        Super p \<Rightarrow> p \<in> S \<and> up p < up s
      | Trans t n \<Rightarrow> t \<in> S \<and> (ev = HSM_EV_ENTER_STATE \<and> t \<noteq> s \<longrightarrow> on t < on s)
      | _ \<Rightarrow> True))"

lemma rankedE:
  assumes "ranked chart S up on" "s \<in> S"
  obtains react r tm' c' where "chart s = Some react" "react tm c ev d = (r, tm', c')"
    "\<And>p. r = Super p \<Longrightarrow> p \<in> S \<and> up p < up s"
    "\<And>t n. r = Trans t n \<Longrightarrow> t \<in> S \<and> (ev = HSM_EV_ENTER_STATE \<and> t \<noteq> s \<longrightarrow> on t < on s)"
proof -
  from assms obtain react where react: "chart s = Some react" and
    all: "case fst (react tm c ev d) of Super p \<Rightarrow> p \<in> S \<and> up p < up s
      | Trans t n \<Rightarrow> t \<in> S \<and> (ev = HSM_EV_ENTER_STATE \<and> t \<noteq> s \<longrightarrow> on t < on s) | _ \<Rightarrow> True"
    unfolding ranked_def by blast
  obtain r tm' c' where x: "react tm c ev d = (r, tm', c')" by (metis prod_cases3)
  show thesis by (rule that [OF react x]) (use all x in auto)
qed

lemma dispatched_total:
  assumes "ranked chart S up on"
  shows "s \<in> S \<Longrightarrow> \<exists>r tm' c'. dispatched chart ev d s tm c r tm' c' \<and> (\<forall>t n. r = Trans t n \<longrightarrow> t \<in> S)"
proof (induction "up s" arbitrary: s tm c rule: less_induct)
  case less
  obtain react r tm' c' where x: "chart s = Some react" "react tm c ev d = (r, tm', c')"
    "\<And>p. r = Super p \<Longrightarrow> p \<in> S \<and> up p < up s" "\<And>t n. r = Trans t n \<Longrightarrow> t \<in> S"
    by (rule rankedE [OF assms less.prems, of tm c ev d]) blast
  show ?case
  proof (cases "\<exists>p. r = Super p")
    case True
    then obtain p where p: "r = Super p" by blast
    from less.hyps [of p tm' c'] x(3) [OF p] obtain r2 tm2 c2 where
      "dispatched chart ev d p tm' c' r2 tm2 c2" "\<forall>t n. r2 = Trans t n \<longrightarrow> t \<in> S" by blast
    with dispatched.up [where chart = chart, OF x(1) x(2) [unfolded p]] show ?thesis by blast
  next
    case False
    with dispatched.here [where chart = chart, OF x(1,2)] x(4) show ?thesis by blast
  qed
qed

lemma exited_total:
  assumes "ranked chart S up on"
  shows "s \<in> S \<Longrightarrow> \<exists>tm' c'. exited chart n s tm c tm' c'"
proof (induction n arbitrary: s tm c)
  case 0
  show ?case by (blast intro: exited.none)
next
  case (Suc n)
  obtain react r tm' c' where x: "chart s = Some react" "react tm c HSM_EV_EXIT_STATE None = (r, tm', c')"
    "\<And>p. r = Super p \<Longrightarrow> p \<in> S"
    by (rule rankedE [OF assms Suc.prems, of tm c HSM_EV_EXIT_STATE None]) blast
  show ?case
  proof (cases "\<exists>p. r = Super p")
    case True
    then obtain p where p: "r = Super p" by blast
    from Suc.IH [of p tm' c'] x(3) [OF p] exited.up [where chart = chart, OF x(1) x(2) [unfolded p]]
    show ?thesis by blast
  next
    case False
    with exited.top [where chart = chart, OF x(1,2)] show ?thesis by blast
  qed
qed

lemma entered_total:
  assumes "ranked chart S up on"
  shows "s \<in> S \<Longrightarrow> \<exists>u tm' c'. entered chart s c u tm' c' \<and> u \<in> S"
proof (induction "on s" arbitrary: s c rule: less_induct)
  case less
  obtain react r tm' c' where x: "chart s = Some react" "react fresh c HSM_EV_ENTER_STATE None = (r, tm', c')"
    "\<And>t n. r = Trans t n \<Longrightarrow> t \<in> S \<and> (t \<noteq> s \<longrightarrow> on t < on s)"
    by (rule rankedE [OF assms less.prems, of fresh c HSM_EV_ENTER_STATE None]) blast
  show ?case
  proof (cases "\<exists>t n. r = Trans t n \<and> t \<noteq> s")
    case True
    then obtain t n where t: "r = Trans t n" "t \<noteq> s" by blast
    from less.hyps [of t c'] x(3) [OF t(1)] t(2) entered.on [where chart = chart, OF x(1) x(2) [unfolded t(1)] t(2)]
    show ?thesis by blast
  next
    case False
    with entered.stay [where chart = chart, OF x(1,2)] less.prems show ?thesis by blast
  qed
qed

text \<open>C17: hsm_handle_event returns on every chart whose super states go up and whose enter transitions
  go down along some ranking of the states, for every event and container, and afterwards the state
  and the current state agree and are states of the chart.\<close>

theorem hsm_handle_event_returns:
  assumes "ranked chart S up on" "hsm_state self \<in> S"
  shows "\<exists>self' c'. hsm_handle_event (chart_router chart) self c ev d = Some (self', c') \<and>
    hsm_state self' \<in> S \<and> hsm_current self' = hsm_state self'"
proof -
  let ?s = "hsm_state self"
  obtain r tm1 c1 where r: "dispatched chart ev d ?s (hsm_tmr self) c r tm1 c1" "\<forall>t n. r = Trans t n \<longrightarrow> t \<in> S"
    using dispatched_total [OF assms] by blast
  have "\<exists>u tm' c'. reacted chart ev d (?s, hsm_tmr self, c) (u, tm', c') \<and> u \<in> S"
  proof (cases "\<exists>t n. r = Trans t n \<and> t \<noteq> ?s")
    case False
    with reacted.keep [OF r(1)] assms(2) show ?thesis by blast
  next
    case True
    then obtain t n where t: "r = Trans t n" "t \<noteq> ?s" by blast
    with r(2) have "t \<in> S" by blast
    with exited_total [OF assms] entered_total [OF assms(1), of t] reacted.change [OF r(1) [unfolded t(1)] t(2)]
    show ?thesis by metis
  qed
  then obtain u tm' c' where u: "reacted chart ev d (?s, hsm_tmr self, c) (u, tm', c')" "u \<in> S" by blast
  from iffD2 [OF hsm_handle_event_iff u(1)] u(2) show ?thesis by metis
qed

text \<open>C16: hsm_handle_event, with its three loops and its two state variables, implements the
  hierarchical dispatch: it ends in a state, timer and container exactly when the big-step relation
  on the chart says so: the event climbs the parents until a handler reacts, a transition unwinds
  the requested number of levels with EXIT events, and ENTER events follow with fresh timers until a
  handler does not transit again. Neither side adds or loses a behaviour, non-termination included.\<close>

theorem hsm_handle_event_refines:
  "(\<exists>self'. hsm_handle_event (chart_router chart) self c ev d = Some (self', c') \<and>
      hsm_state self' = s' \<and> hsm_current self' = s' \<and> hsm_tmr self' = tm') \<longleftrightarrow>
   reacted chart ev d (hsm_state self, hsm_tmr self, c) (s', tm', c')"
  by (rule hsm_handle_event_iff)

section \<open>Timer events\<close>

text \<open>The events due when the counter reaches \<open>t\<close> milliseconds, with the timers of the mask \<open>m\<close>.\<close>

definition due :: "u16 \<Rightarrow> nat \<Rightarrow> int list" where
  "due m t =
     (if enabled m HSM_TIMER_1MS then [HSM_EV_TIMER_1MS] else []) @
     (if enabled m HSM_TIMER_10MS \<and> 10 dvd t then [HSM_EV_TIMER_10MS] else []) @
     (if enabled m HSM_TIMER_100MS \<and> 100 dvd t then [HSM_EV_TIMER_100MS] else []) @
     (if enabled m HSM_TIMER_1S \<and> 1000 dvd t then [HSM_EV_TIMER_1S] else []) @
     (if enabled m HSM_TIMER_10S \<and> 10000 dvd t then [HSM_EV_TIMER_10S] else []) @
     (if enabled m HSM_TIMER_1M \<and> 60000 dvd t then [HSM_EV_TIMER_1M] else [])"

text \<open>The number of milliseconds one check advances.\<close>

definition tick :: "u16 \<Rightarrow> nat \<Rightarrow> nat \<Rightarrow> nat" where
  "tick m k n = min n (if enabled m HSM_TIMER_1MS then 1
     else if enabled m HSM_TIMER_10MS then 10 - k mod 10
     else if enabled m HSM_TIMER_100MS then 100 - k mod 100 else 1000 - k mod 1000)"

lemma tick_bounds: "0 < n \<Longrightarrow> 0 < tick m k n" "tick m k n \<le> n"
  by (auto simp: tick_def)

lemma no_multiple:
  assumes "k < j" "j < k + (p - k mod p)"
  shows "\<not> p dvd (j::nat)"
proof
  assume "p dvd j"
  then obtain q where q: "j = p * q" by blast
  define a r where "a = k div p" and "r = k mod p"
  have k: "k = p * a + r" by (simp add: a_def r_def)
  from assms have p: "r < p" by (cases "p = 0") (auto simp: r_def)
  with assms k have "p * a < p * q" "p * q < p * a + p" unfolding q r_def [symmetric] by linarith+
  then have "a < q" "p * q < p * Suc a" by simp_all
  then show False by (metis mult_le_mono2 not_less Suc_le_eq)
qed

lemma coarser:
  "\<not> 10 dvd j \<Longrightarrow> \<not> 100 dvd (j::nat)" "\<not> 100 dvd j \<Longrightarrow> \<not> 1000 dvd j"
  "\<not> 1000 dvd j \<Longrightarrow> \<not> 10000 dvd j" "\<not> 1000 dvd j \<Longrightarrow> \<not> 60000 dvd j"
  using dvd_trans [of 10 100 j] dvd_trans [of 100 1000 j] dvd_trans [of 1000 10000 j] dvd_trans [of 1000 60000 j]
  by auto

lemma due_none:
  assumes "k < j" "j < k + tick m k n"
  shows "due m j = []"
proof -
  have less: "j < k + (if enabled m HSM_TIMER_1MS then 1 else if enabled m HSM_TIMER_10MS then 10 - k mod 10
     else if enabled m HSM_TIMER_100MS then 100 - k mod 100 else 1000 - k mod 1000)"
    using assms(2) unfolding tick_def by linarith
  consider "enabled m HSM_TIMER_1MS"
    | "\<not> enabled m HSM_TIMER_1MS" "enabled m HSM_TIMER_10MS" "\<not> 10 dvd j"
    | "\<not> enabled m HSM_TIMER_1MS" "\<not> enabled m HSM_TIMER_10MS" "enabled m HSM_TIMER_100MS" "\<not> 100 dvd j"
    | "\<not> enabled m HSM_TIMER_1MS" "\<not> enabled m HSM_TIMER_10MS" "\<not> enabled m HSM_TIMER_100MS" "\<not> 1000 dvd j"
    using less no_multiple [OF assms(1)] by (auto split: if_splits)
  then show ?thesis
  proof cases
    case 1
    with assms show ?thesis by (auto simp: tick_def)
  qed (use coarser in \<open>simp_all add: due_def\<close>)
qed

text \<open>The masks: which events the ready mask of a check stands for.\<close>

lemma unat_mod_0_iff: "(x::u64) mod y = 0 \<longleftrightarrow> unat y dvd unat x"
  by (simp add: word_unat_eq_iff unat_mod dvd_eq_mod_eq_0)

lemma unat_ticks:
  assumes "0 < p" "p \<le> 1000"
  shows "unat (ucast (p - (c::u64) mod p) :: u32) = unat p - unat c mod unat p"
proof -
  have "unat p \<le> 1000" using assms(2) by (simp add: word_le_nat_alt)
  moreover have "c mod p \<le> p" using assms(1) by (simp add: order_less_imp_le word_mod_less_divisor)
  then have "unat (p - c mod p) = unat p - unat c mod unat p" by (simp add: unat_sub unat_mod)
  ultimately show ?thesis by (simp add: unsigned_ucast_eq take_bit_nat_eq_self)
qed

definition ready_mask :: "u16 \<Rightarrow> nat \<Rightarrow> u16" where
  "ready_mask m t =
     (if enabled m HSM_TIMER_1MS then HSM_TIMER_1MS else 0) OR
     (if enabled m HSM_TIMER_10MS \<and> 10 dvd t then HSM_TIMER_10MS else 0) OR
     (if enabled m HSM_TIMER_100MS \<and> 100 dvd t then HSM_TIMER_100MS else 0) OR
     (if enabled m HSM_TIMER_1S \<and> 1000 dvd t then HSM_TIMER_1S else 0) OR
     (if enabled m HSM_TIMER_10S \<and> 10000 dvd t then HSM_TIMER_10S else 0) OR
     (if enabled m HSM_TIMER_1M \<and> 60000 dvd t then HSM_TIMER_1M else 0)"

lemma ready_bits:
  fixes a b c d e f :: bool
  defines "r \<equiv> (if a then 1 else 0) OR (if b then 2 else 0) OR (if c then 4 else 0) OR
     (if d then 8 else 0) OR (if e then 16 else 0) OR (if f then 32 else (0::u16))"
  shows "enabled r 1 = a" "enabled r 2 = b" "enabled r 4 = c" "enabled r 8 = d" "enabled r 16 = e" "enabled r 32 = f"
  by (cases a; cases b; cases c; cases d; cases e; cases f; simp add: r_def)+

lemma ready_or: "(if a then x OR y else x) = x OR (if a then y else (0::u16))"
  by simp

lemma hsm_timer_check_eq:
  assumes range: "unat (tm_counter (hsm_tmr self)) + unat lapse < 2 ^ 64"
  defines "m \<equiv> tm_mask (hsm_tmr self)" and "k \<equiv> unat (tm_counter (hsm_tmr self))"
  shows "\<exists>rest self1. hsm_timer_check self lapse = (ready_mask m (k + tick m k (unat lapse)), rest, self1) \<and>
    unat rest = unat lapse - tick m k (unat lapse) \<and>
    unat (tm_counter (hsm_tmr self1)) = k + tick m k (unat lapse) \<and>
    tm_mask (hsm_tmr self1) = m \<and> hsm_state self1 = hsm_state self"
proof -
  define c where "c = tm_counter (hsm_tmr self)"
  define t0 :: u32 where "t0 = (if enabled m HSM_TIMER_1MS then 1
                   else if enabled m HSM_TIMER_10MS then ucast (10 - c mod 10)
                   else if enabled m HSM_TIMER_100MS then ucast (100 - c mod 100)
                   else ucast (1000 - c mod 1000))"
  define t where "t = (if lapse \<ge> t0 then t0 else lapse)"
  have "unat t0 = (if enabled m HSM_TIMER_1MS then 1 else if enabled m HSM_TIMER_10MS then 10 - k mod 10
     else if enabled m HSM_TIMER_100MS then 100 - k mod 100 else 1000 - k mod 1000)"
    using unat_ticks [of 10 c] unat_ticks [of 100 c] unat_ticks [of 1000 c]
    by (simp add: t0_def k_def c_def)
  then have t: "unat t = tick m k (unat lapse)"
    by (simp add: t_def tick_def word_le_nat_alt min_def)
  then have rest: "unat (lapse - t) = unat lapse - tick m k (unat lapse)"
    using tick_bounds(2) [of m k "unat lapse"] by (simp add: unat_sub word_le_nat_alt)
  have "unat (ucast t :: u64) = unat t"
    using unsigned_less [of t, where 'a = nat] by (simp add: unsigned_ucast_eq take_bit_nat_eq_self)
  then have counter: "unat (c + ucast t) = k + tick m k (unat lapse)"
    using range tick_bounds(2) [of m k "unat lapse"] t by (simp add: unat_word_ariths c_def k_def)
  have "hsm_timer_check self lapse = (ready_mask m (k + tick m k (unat lapse)), lapse - t,
      self\<lparr>hsm_tmr := (hsm_tmr self)\<lparr>tm_counter := c + ucast t\<rparr>\<rparr>)"
    unfolding hsm_timer_check_def Let_def m_def [symmetric] c_def [symmetric] t0_def [symmetric] t_def [symmetric]
      unat_mod_0_iff counter ready_or ready_mask_def
    by (simp add: or.assoc)
  with rest counter show ?thesis by (auto simp: m_def)
qed


text \<open>A state from which every timer event, wherever it is handled, leaves the state and the timer as they
  are; \<open>act\<close> is what it does to the container. It may depend on the time.\<close>

definition steady :: "('c, 'd) chart \<Rightarrow> int \<Rightarrow> (hsm_timer \<Rightarrow> int \<Rightarrow> 'c \<Rightarrow> 'c) \<Rightarrow> bool" where
  "steady chart s act \<longleftrightarrow> (\<forall>ev\<in>{HSM_EV_TIMER_1MS, HSM_EV_TIMER_10MS, HSM_EV_TIMER_100MS, HSM_EV_TIMER_1S, HSM_EV_TIMER_10S,
     HSM_EV_TIMER_1M}. \<forall>tm c. reacted chart ev None (s, tm, c) (s, tm, act tm ev c))"

text \<open>The timer at a millisecond, and the events of that millisecond.\<close>

definition timer_at :: "u16 \<Rightarrow> nat \<Rightarrow> hsm_timer" where
  "timer_at m t = \<lparr>tm_counter = of_nat t, tm_mask = m\<rparr>"

definition at_ms :: "u16 \<Rightarrow> (hsm_timer \<Rightarrow> int \<Rightarrow> 'c \<Rightarrow> 'c) \<Rightarrow> nat \<Rightarrow> 'c \<Rightarrow> 'c" where
  "at_ms m act t = fold (act (timer_at m t)) (due m t)"

lemma timer_at_eq: "unat (tm_counter tm) = t \<Longrightarrow> tm_mask tm = m \<Longrightarrow> tm = timer_at m t"
  by (cases tm) (auto simp: timer_at_def)

lemma at_ms_tick:
  assumes "0 < n"
  shows "fold (at_ms m act) [Suc k..<Suc (k + tick m k n)] c = at_ms m act (k + tick m k n) c"
proof -
  from tick_bounds(1) [OF assms] obtain t where t: "tick m k n = Suc t" by (metis Suc_pred)
  have "fold (at_ms m act) ts c = c" if "\<And>j. j \<in> set ts \<Longrightarrow> due m j = []" for ts
    using that by (induction ts) (simp_all add: at_ms_def)
  moreover have "due m j = []" if "j \<in> set [Suc k..<Suc (k + t)]" for j
    using that by (intro due_none [of k j m n]) (simp_all add: t del: upt_Suc)
  ultimately have "fold (at_ms m act) [Suc k..<Suc (k + t)] c = c" by blast
  then show ?thesis by (simp add: t)
qed

definition same_machine :: "hsm \<Rightarrow> hsm \<Rightarrow> bool" where
  "same_machine a b \<longleftrightarrow> hsm_state a = hsm_state b \<and> hsm_tmr a = hsm_tmr b"

lemma same_machine_trans: "same_machine a b \<Longrightarrow> same_machine b c \<Longrightarrow> same_machine a c"
  by (simp add: same_machine_def)

lemma steady_event:
  assumes "steady chart (hsm_state self) act" "ev \<in> {0x0A..0x0F}"
  shows "\<exists>self'. hsm_handle_event (chart_router chart) self c ev None = Some (self', act (hsm_tmr self) ev c) \<and> same_machine self' self"
proof -
  have "{0x0A..0x0F} = {HSM_EV_TIMER_1MS, HSM_EV_TIMER_10MS, HSM_EV_TIMER_100MS, HSM_EV_TIMER_1S, HSM_EV_TIMER_10S, HSM_EV_TIMER_1M}"
    by auto
  with assms have "reacted chart ev None (hsm_state self, hsm_tmr self, c) (hsm_state self, hsm_tmr self, act (hsm_tmr self) ev c)"
    unfolding steady_def by blast
  from iffD2 [OF hsm_handle_event_iff this] show ?thesis by (auto simp: same_machine_def)
qed

lemma steady_deliver:
  assumes "steady chart (hsm_state self) act" "ev \<in> {0x0A..0x0F}"
  shows "\<exists>self'. hsm_deliver (chart_router chart) ready b ev (self, c) =
      Some (self', fold (act (hsm_tmr self)) (if enabled ready b then [ev] else []) c) \<and> same_machine self' self"
  using steady_event [OF assms, of c] by (auto simp: hsm_deliver_def same_machine_def)

lemma steady_time_step:
  assumes st: "steady chart (hsm_state self) act"
    and range: "unat (tm_counter (hsm_tmr self)) + unat lapse < 2 ^ 64"
  defines "m \<equiv> tm_mask (hsm_tmr self)" and "k \<equiv> unat (tm_counter (hsm_tmr self))"
  shows "\<exists>rest self'. hsm_time_step (chart_router chart) self c lapse =
      Some (rest, self', at_ms m act (k + tick m k (unat lapse)) c) \<and>
    unat rest = unat lapse - tick m k (unat lapse) \<and>
    unat (tm_counter (hsm_tmr self')) = k + tick m k (unat lapse) \<and>
    tm_mask (hsm_tmr self') = m \<and> hsm_state self' = hsm_state self"
proof -
  let ?t = "k + tick m k (unat lapse)" and ?R = "chart_router chart"
  let ?r = "ready_mask m ?t"
  from hsm_timer_check_eq [OF range] obtain rest self1 where
    chk: "hsm_timer_check self lapse = (?r, rest, self1)"
    "unat rest = unat lapse - tick m k (unat lapse)" "unat (tm_counter (hsm_tmr self1)) = ?t"
    "tm_mask (hsm_tmr self1) = m" "hsm_state self1 = hsm_state self"
    unfolding m_def k_def by blast
  from chk(3,4) have tm: "hsm_tmr self1 = timer_at m ?t" by (rule timer_at_eq)
  let ?act = "act (timer_at m ?t)"
  define d where "d b ev = (if enabled ?r b then [ev] else [])" for b and ev :: int
  have deliver: "\<exists>s'. hsm_deliver ?R ?r b ev (s, c) = Some (s', fold ?act (d b ev) c) \<and> same_machine s' self1"
    if "same_machine s self1" "ev \<in> {0x0A..0x0F}" for s b ev c
  proof -
    from that(1) chk(5) st have "steady chart (hsm_state s) act" "hsm_tmr s = timer_at m ?t"
      by (simp_all add: same_machine_def tm)
    from steady_deliver [OF this(1) that(2), of ?r b c, unfolded this(2)] that(1) show ?thesis
      unfolding d_def by (blast intro: same_machine_trans)
  qed
  have "same_machine self1 self1" by (simp add: same_machine_def)
  from deliver [OF this _, of "0x0A" 1 c] obtain s2 where
    s2: "hsm_deliver ?R ?r 1 0x0A (self1, c) = Some (s2, fold ?act (d 1 0x0A) c)" "same_machine s2 self1" by auto
  define c2 where "c2 = fold ?act (d 1 0x0A) c"
  from deliver [OF s2(2) _, of "0x0B" 2 c2] obtain s3 where
    s3: "hsm_deliver ?R ?r 2 0x0B (s2, c2) = Some (s3, fold ?act (d 2 0x0B) c2)" "same_machine s3 self1" by auto
  define c3 where "c3 = fold ?act (d 2 0x0B) c2"
  from deliver [OF s3(2) _, of "0x0C" 4 c3] obtain s4 where
    s4: "hsm_deliver ?R ?r 4 0x0C (s3, c3) = Some (s4, fold ?act (d 4 0x0C) c3)" "same_machine s4 self1" by auto
  define c4 where "c4 = fold ?act (d 4 0x0C) c3"
  from deliver [OF s4(2) _, of "0x0D" 8 c4] obtain s5 where
    s5: "hsm_deliver ?R ?r 8 0x0D (s4, c4) = Some (s5, fold ?act (d 8 0x0D) c4)" "same_machine s5 self1" by auto
  define c5 where "c5 = fold ?act (d 8 0x0D) c4"
  from deliver [OF s5(2) _, of "0x0E" 16 c5] obtain s6 where
    s6: "hsm_deliver ?R ?r 16 0x0E (s5, c5) = Some (s6, fold ?act (d 16 0x0E) c5)" "same_machine s6 self1" by auto
  define c6 where "c6 = fold ?act (d 16 0x0E) c5"
  from deliver [OF s6(2) _, of "0x0F" 32 c6] obtain s7 where
    s7: "hsm_deliver ?R ?r 32 0x0F (s6, c6) = Some (s7, fold ?act (d 32 0x0F) c6)" "same_machine s7 self1" by auto
  have "due m ?t = d 1 0x0A @ d 2 0x0B @ d 4 0x0C @ d 8 0x0D @ d 16 0x0E @ d 32 0x0F"
    unfolding d_def ready_mask_def ready_bits due_def ..
  then have "at_ms m act ?t c = fold ?act (d 32 0x0F) c6"
    by (simp add: at_ms_def c2_def c3_def c4_def c5_def c6_def)
  moreover have "hsm_time_step ?R self c lapse = Some (rest, s7, fold ?act (d 32 0x0F) c6)"
    using s2(1) s3(1) s4(1) s5(1) s6(1) s7(1)
    by (simp add: hsm_time_step_def chk(1) c2_def [symmetric] c3_def [symmetric] c4_def [symmetric]
      c5_def [symmetric] c6_def [symmetric])
  ultimately show ?thesis using chk s7(2) by (simp add: same_machine_def)
qed

lemma upt_split: "a \<le> b \<Longrightarrow> b \<le> c \<Longrightarrow> [a..<c] = [a..<b] @ [b..<c]"
  using upt_add_eq_append [of a b "c - b"] by simp

text \<open>C18: Timer events of a state machine are exact however time is batched: one call of
  hsm_handle_time with any lapse delivers exactly the enabled 1 ms, 10 ms, 100 ms, 1 s, 10 s and 1
  min events of every millisecond of the lapse, in order, each with the counter at its millisecond,
  and advances the counter by the lapse. This is for a state in which each timer event, wherever it
  is handled, in the state or in a parent, leaves the state and the timer alone; what it does to the
  container may depend on the time and the event. Handlers that enable, disable or reset timers are
  not covered. The counter (an unsigned long) does not overflow.\<close>

theorem hsm_handle_time_exact:
  assumes "steady chart (hsm_state self) act"
    "unat (tm_counter (hsm_tmr self)) + unat lapse < 2 ^ 64"
    "tm_mask (hsm_tmr self) = m" "unat (tm_counter (hsm_tmr self)) = k"
  shows "\<exists>self'. hsm_handle_time (chart_router chart) self c lapse =
      Some (self', fold (at_ms m act) [Suc k..<Suc (k + unat lapse)] c) \<and>
    hsm_state self' = hsm_state self \<and> tm_mask (hsm_tmr self') = m \<and>
    unat (tm_counter (hsm_tmr self')) = k + unat lapse"
  using assms
proof (induction "unat lapse" arbitrary: self c k lapse rule: less_induct)
  case less
  show ?case
  proof (cases "lapse = 0")
    case True
    with less.prems show ?thesis by (subst hsm_handle_time.simps) auto
  next
    case False
    then have pos: "0 < unat lapse" by (simp add: unat_gt_0)
    let ?t = "tick m k (unat lapse)"
    note t = tick_bounds(1) [OF pos, of m k] tick_bounds(2) [of m k "unat lapse"]
    from steady_time_step [OF less.prems(1,2), of c, unfolded less.prems(3,4)] obtain rest self1 where
      s: "hsm_time_step (chart_router chart) self c lapse = Some (rest, self1, at_ms m act (k + ?t) c)"
      "unat rest = unat lapse - ?t" "unat (tm_counter (hsm_tmr self1)) = k + ?t"
      "tm_mask (hsm_tmr self1) = m" "hsm_state self1 = hsm_state self" by blast
    let ?c1 = "at_ms m act (k + ?t) c"
    have "unat rest < unat lapse" using s(2) t pos by simp
    from less.hyps [OF this, of self1 "k + ?t" ?c1] less.prems s t obtain self' where
      r: "hsm_handle_time (chart_router chart) self1 ?c1 rest =
        Some (self', fold (at_ms m act) [Suc (k + ?t)..<Suc (k + unat lapse)] ?c1)"
      "hsm_state self' = hsm_state self" "tm_mask (hsm_tmr self') = m"
      "unat (tm_counter (hsm_tmr self')) = k + unat lapse" by auto
    have "fold (at_ms m act) [Suc k..<Suc (k + unat lapse)] c =
        fold (at_ms m act) [Suc (k + ?t)..<Suc (k + unat lapse)] ?c1"
      using at_ms_tick [OF pos, of m act k c] t upt_split [of "Suc k" "Suc (k + ?t)" "Suc (k + unat lapse)"]
      by (simp del: upt_Suc)
    with r s(1) False show ?thesis
      by (subst hsm_handle_time.simps) (auto simp: word_neq_0_conv simp del: upt_Suc)
  qed
qed


section \<open>Instances\<close>

text \<open>A chart whose states log what they get: state 0 is the root, states 1 and 2 are its children,
  and the root answers event 64 with a transition to state 2 that leaves up to two states.\<close>

fun log_react :: "int \<Rightarrow> hsm_timer \<Rightarrow> (int \<times> int) list \<Rightarrow> int \<Rightarrow> unit option \<Rightarrow>
    reaction \<times> hsm_timer \<times> (int \<times> int) list" where
  "log_react s tm c ev d = (if s \<noteq> 0 then Super 0 else if ev = 64 then Trans 2 2 else Ignored, tm, c @ [(s, ev)])"

definition log_chart :: "((int \<times> int) list, unit) chart" where
  "log_chart s = (if 0 \<le> s \<and> s \<le> 2 then Some (log_react s) else None)"

definition machine :: "int \<Rightarrow> u16 \<Rightarrow> u64 \<Rightarrow> hsm" where
  "machine s m k = \<lparr>hsm_state = s, hsm_current = s, hsm_unwind = 0, hsm_tmr = \<lparr>tm_counter = k, tm_mask = m\<rparr>\<rparr>"

lemma log_chart_ranked: "ranked log_chart {0, 1, 2} nat nat"
  by (auto simp: ranked_def log_chart_def)

theorem hsm_handle_event_returns_witness:
  "\<exists>self' c'. hsm_handle_event (chart_router log_chart) (machine 1 0 0) [] 64 None = Some (self', c') \<and>
    hsm_state self' \<in> {0, 1, 2}"
  using hsm_handle_event_returns [OF log_chart_ranked, of "machine 1 0 0" "[]" 64 None]
  by (auto simp: machine_def)

text \<open>The order of the calls: the event to the child and to the root, the exits of both, the entry.\<close>

lemmas hsm_run = hsm_handle_event_def hsm_super_loop.simps hsm_exit_loop.simps hsm_enter_loop.simps
  chart_router_def machine_def Let_def

lemma log_chart_transition:
  "hsm_handle_event (chart_router log_chart) (machine 1 0 0) [] 64 None =
    Some (machine 2 0 0, [(1, 64), (0, 64), (1, HSM_EV_EXIT_STATE), (0, HSM_EV_EXIT_STATE), (2, HSM_EV_ENTER_STATE)])"
  by (simp add: hsm_run log_chart_def hsm_timer_init_def)

text \<open>State 0 leaves its events to its parent, state 7, and both write down what they see and when.\<close>

definition tape_chart :: "((int \<times> int \<times> u64) list, unit) chart" where
  "tape_chart s = Some (\<lambda>tm c ev d. (if s = 0 then Super 7 else Handled, tm, c @ [(s, ev, tm_counter tm)]))"

lemma tape_chart_steady: "steady tape_chart 0 (\<lambda>tm ev c. c @ [(0, ev, tm_counter tm), (7, ev, tm_counter tm)])"
proof -
  have parent: "dispatched tape_chart ev d 7 tm c Handled tm (c @ [(7, ev, tm_counter tm)])" for ev tm c and d :: "unit option"
    by (rule dispatched.here [where react = "\<lambda>tm c ev d. (Handled, tm, c @ [(7, ev, tm_counter tm)])"])
      (simp_all add: tape_chart_def)
  have "dispatched tape_chart ev d 0 tm c Handled tm (c @ [(0, ev, tm_counter tm), (7, ev, tm_counter tm)])"
    for ev tm c and d :: "unit option"
    by (rule dispatched.up [where react = "\<lambda>tm c ev d. (Super 7, tm, c @ [(0, ev, tm_counter tm)])", OF _ refl])
      (use parent [of ev d tm "c @ [(0, ev, tm_counter tm)]"] in \<open>simp_all add: tape_chart_def\<close>)
  then have "reacted tape_chart ev None (0, tm, c) (0, tm, c @ [(0, ev, tm_counter tm), (7, ev, tm_counter tm)])" for ev tm c
    by (rule reacted.keep) simp
  then show ?thesis by (simp add: steady_def)
qed

theorem hsm_handle_time_exact_witness:
  "\<exists>self'. hsm_handle_time (chart_router tape_chart) (machine 0 2 5) [] 17 =
    Some (self', [(0, HSM_EV_TIMER_10MS, 10), (7, HSM_EV_TIMER_10MS, 10), (0, HSM_EV_TIMER_10MS, 20), (7, HSM_EV_TIMER_10MS, 20)])"
proof -
  have "steady tape_chart (hsm_state (machine 0 2 5)) (\<lambda>tm ev c. c @ [(0, ev, tm_counter tm), (7, ev, tm_counter tm)])"
    using tape_chart_steady by (simp add: machine_def)
  from hsm_handle_time_exact [OF this, of 17 2 5 "[]"] show ?thesis
    by (auto simp: machine_def due_def at_ms_def timer_at_def)
qed

text \<open>
  Timers across a transition. State 1 has the 10 ms and the 100 ms timer enabled and leaves for state 2
  on the first; state 2 enables none. When both are due together, state 2 still gets the event of the
  100 ms timer.
\<close>

definition stale_chart :: "((int \<times> int) list, unit) chart" where
  "stale_chart s = Some (\<lambda>tm c ev d.
     (if s = 1 \<and> ev = HSM_EV_TIMER_10MS then Trans 2 0 else Handled, tm, c @ [(s, ev)]))"

theorem hsm_stale_timer_event:
  "hsm_handle_time (chart_router stale_chart) (machine 1 6 90) [] 10 =
    Some (machine 2 0 0, [(1, HSM_EV_TIMER_10MS), (2, HSM_EV_ENTER_STATE), (2, HSM_EV_TIMER_100MS)])"
  by (simp add: hsm_run hsm_handle_time.simps hsm_time_step_def hsm_deliver_def hsm_timer_check_def
    stale_chart_def hsm_timer_init_def)

end
