(* ===== verification/Mx_DartFrame.thy ===== *)
theory Mx_DartFrame
  imports Mx_Prelude
begin

unbundle bit_operations_syntax

text \<open>
  The frames of the DART protocol: the field accessors and the checksums at the head of
  \<open>source/core/dart.c\<close>, and the frame that \<open>dart_push_frame\<close> composes. The build chooses the width of
  the length and of the checksum (\<open>DART_LEN_SIZE\<close> and \<open>DART_CRC_SIZE\<close>, 1 or 2); here both are
  arguments, so every statement holds for the four builds.

  A buffer is the list of the bytes of its object, a \<open>uint8_t *\<close> into it an offset.
\<close>

section \<open>Model\<close>

record dart_config =
  DART_LEN_SIZE :: nat
  DART_CRC_SIZE :: nat

abbreviation (input) DART_SYNC :: u8 where "DART_SYNC \<equiv> 0x55"
abbreviation (input) DART_ACK :: u8 where "DART_ACK \<equiv> 0xAA"
abbreviation (input) DART_BAD :: u8 where "DART_BAD \<equiv> 0xBB"
abbreviation (input) DART_CAN :: u8 where "DART_CAN \<equiv> 0xCC"

definition DART_DATA_IDX :: "dart_config \<Rightarrow> nat" where
  "DART_DATA_IDX cfg = 1 + DART_LEN_SIZE cfg"

definition DART_CRC_IDX :: "dart_config \<Rightarrow> nat \<Rightarrow> nat" where
  "DART_CRC_IDX cfg len = DART_DATA_IDX cfg + len"

definition DART_LEN_BYTES :: "dart_config \<Rightarrow> nat" where
  "DART_LEN_BYTES cfg = 1 + DART_LEN_SIZE cfg"

definition DART_FRAME_BYTES :: "dart_config \<Rightarrow> nat \<Rightarrow> nat" where
  "DART_FRAME_BYTES cfg len = DART_LEN_BYTES cfg + len + DART_CRC_SIZE cfg"

text \<open>Conversion to \<open>dart_len_t\<close>.\<close>

definition dart_len :: "dart_config \<Rightarrow> nat \<Rightarrow> nat" where
  "dart_len cfg n = n mod 2 ^ (8 * DART_LEN_SIZE cfg)"

definition dart_get_data_len :: "dart_config \<Rightarrow> u8 list \<Rightarrow> nat option" where
  "dart_get_data_len cfg buffer =
     (if DART_LEN_SIZE cfg = 1 then map_option unat (rd buffer 1)
      else do { hi \<leftarrow> rd buffer 1; lo \<leftarrow> rd buffer 2;
                Some (unat (push_bit 8 (ucast hi) OR ucast lo :: u16)) })"

definition dart_set_data_len :: "dart_config \<Rightarrow> u8 list \<Rightarrow> nat \<Rightarrow> u8 list option" where
  "dart_set_data_len cfg buffer data_len =
     (if DART_LEN_SIZE cfg = 1 then wr buffer 1 (of_nat data_len AND 0xFF)
      else do { b \<leftarrow> wr buffer 1 (of_nat (drop_bit 8 data_len) AND 0xFF);
                wr b 2 (of_nat data_len AND 0xFF) })"

definition dart_get_crc_value :: "dart_config \<Rightarrow> u8 list \<Rightarrow> nat \<Rightarrow> u32 option" where
  "dart_get_crc_value cfg buffer data_len =
     (if DART_CRC_SIZE cfg = 1 then map_option ucast (rd buffer (DART_CRC_IDX cfg data_len))
      else do { hi \<leftarrow> rd buffer (DART_CRC_IDX cfg data_len); lo \<leftarrow> rd buffer (DART_CRC_IDX cfg data_len + 1);
                Some (ucast (push_bit 8 (ucast hi) OR ucast lo :: u16)) })"

definition dart_set_crc_value :: "dart_config \<Rightarrow> u8 list \<Rightarrow> nat \<Rightarrow> u32 \<Rightarrow> u8 list option" where
  "dart_set_crc_value cfg buffer data_len crc =
     (if DART_CRC_SIZE cfg = 1 then wr buffer (DART_CRC_IDX cfg data_len) (ucast (crc AND 0xFF))
      else do { b \<leftarrow> wr buffer (DART_CRC_IDX cfg data_len) (ucast (drop_bit 8 crc AND 0xFF));
                wr b (DART_CRC_IDX cfg data_len + 1) (ucast (crc AND 0xFF)) })"

text \<open>One round of each checksum loop.\<close>

definition crc8_round :: "u8 \<Rightarrow> u8 \<Rightarrow> u8" where
  "crc8_round crc b = crc XOR b"

definition crc16_round :: "u16 \<Rightarrow> u8 \<Rightarrow> u16" where
  "crc16_round crc b =
     (let x = drop_bit 8 crc XOR ucast b;
          x = x XOR drop_bit 4 x
      in push_bit 8 crc XOR push_bit 12 x XOR push_bit 5 x XOR x)"

text \<open>The loop over the bytes from offset \<open>i\<close>, \<open>n\<close> of which are left.\<close>

fun crc_loop :: "('a \<Rightarrow> u8 \<Rightarrow> 'a) \<Rightarrow> u8 list \<Rightarrow> nat \<Rightarrow> nat \<Rightarrow> 'a \<Rightarrow> 'a option" where
  "crc_loop f buffer i 0 crc = Some crc"
| "crc_loop f buffer i (Suc n) crc = do { b \<leftarrow> rd buffer i; crc_loop f buffer (Suc i) n (f crc b) }"

definition dart_calculate_crc :: "dart_config \<Rightarrow> u8 list \<Rightarrow> nat \<Rightarrow> nat \<Rightarrow> u32 option" where
  "dart_calculate_crc cfg buffer off len =
     (if DART_CRC_SIZE cfg = 1 then map_option ucast (crc_loop crc8_round buffer off len 0xFF)
      else map_option ucast (crc_loop crc16_round buffer off len 0xFFFF))"

definition memcpy :: "u8 list \<Rightarrow> nat \<Rightarrow> u8 list \<Rightarrow> nat \<Rightarrow> u8 list option" where
  "memcpy dst off src n =
     (if off + n \<le> length dst \<and> n \<le> length src
      then Some (take off dst @ take n src @ drop (off + n) dst) else None)"

text \<open>The buffer that \<open>dart_push_frame\<close> hands to the UART. Its bytes are indeterminate before they
  are written; the model starts from an arbitrary buffer.\<close>

definition dart_compose_frame :: "dart_config \<Rightarrow> u8 list \<Rightarrow> u8 list \<Rightarrow> nat \<Rightarrow> u8 list option" where
  "dart_compose_frame cfg buffer0 data data_len = do {
     buffer \<leftarrow> wr buffer0 0 DART_SYNC;
     buffer \<leftarrow> dart_set_data_len cfg buffer data_len;
     buffer \<leftarrow> memcpy buffer (DART_DATA_IDX cfg) data data_len;
     crc \<leftarrow> dart_calculate_crc cfg data 0 data_len;
     dart_set_crc_value cfg buffer data_len crc }"

section \<open>The shape of a frame\<close>

definition dart_config_ok :: "dart_config \<Rightarrow> bool" where
  "dart_config_ok cfg \<longleftrightarrow> DART_LEN_SIZE cfg \<in> {1, 2} \<and> DART_CRC_SIZE cfg \<in> {1, 2}"

lemma crc_loop_ok:
  "i + n \<le> length buffer \<Longrightarrow> crc_loop f buffer i n crc = Some (fold (\<lambda>b c. f c b) (take n (drop i buffer)) crc)"
proof (induction n arbitrary: i crc)
  case (Suc n)
  then have "drop i buffer = buffer ! i # drop (Suc i) buffer" by (simp add: Cons_nth_drop_Suc)
  with Suc show ?case by simp
qed simp

text \<open>The checksum of a list of bytes.\<close>

definition crc_of :: "dart_config \<Rightarrow> u8 list \<Rightarrow> u32" where
  "crc_of cfg bs = (if DART_CRC_SIZE cfg = 1 then ucast (fold (\<lambda>b c. crc8_round c b) bs 0xFF)
     else ucast (fold (\<lambda>b c. crc16_round c b) bs 0xFFFF))"

lemma dart_calculate_crc_ok:
  "off + n \<le> length buffer \<Longrightarrow> dart_calculate_crc cfg buffer off n = Some (crc_of cfg (take n (drop off buffer)))"
  by (simp add: dart_calculate_crc_def crc_of_def crc_loop_ok)

text \<open>The bytes of a frame: the length and the checksum, most significant byte first.\<close>

definition len_field :: "dart_config \<Rightarrow> nat \<Rightarrow> u8 list" where
  "len_field cfg n = (if DART_LEN_SIZE cfg = 1 then [of_nat n] else [of_nat (n div 256), of_nat n])"

definition crc_field :: "dart_config \<Rightarrow> u32 \<Rightarrow> u8 list" where
  "crc_field cfg c = (if DART_CRC_SIZE cfg = 1 then [ucast c] else [ucast (drop_bit 8 c), ucast c])"

definition frame :: "dart_config \<Rightarrow> u8 list \<Rightarrow> u8 list" where
  "frame cfg bs = DART_SYNC # len_field cfg (length bs) @ bs @ crc_field cfg (crc_of cfg bs)"

lemma length_len_field [simp]: "dart_config_ok cfg \<Longrightarrow> length (len_field cfg n) = DART_LEN_SIZE cfg"
  by (auto simp: len_field_def dart_config_ok_def)

lemma length_crc_field [simp]: "dart_config_ok cfg \<Longrightarrow> length (crc_field cfg n) = DART_CRC_SIZE cfg"
  by (auto simp: crc_field_def dart_config_ok_def)

lemma length_frame: "dart_config_ok cfg \<Longrightarrow> length (frame cfg bs) = DART_FRAME_BYTES cfg (length bs)"
  by (simp add: frame_def DART_FRAME_BYTES_def DART_LEN_BYTES_def)

lemma and_FF [simp]: "(x::u8) AND 0xFF = x"
proof -
  have "(0xFF::u8) = -1" by simp
  then show ?thesis by (simp only: bit.conj_one_right)
qed

lemma ucast_and_FF [simp]: "(ucast ((x::u32) AND 0xFF) :: u8) = ucast x"
proof -
  have m: "(0xFF::u32) = mask 8" by (simp add: mask_eq_exp_minus_1)
  show ?thesis unfolding m take_bit_eq_mask [symmetric] by (rule bit_word_eqI) (simp add: bit_simps)
qed

lemma of_nat_drop_8: "(of_nat (drop_bit 8 n) :: u8) = of_nat (n div 256)"
  by (simp add: drop_bit_eq_div)

lemma split_buffer:
  assumes "length b = x + n + y"
  obtains hs body cs where "b = hs @ body @ cs" "length hs = x" "length body = n" "length cs = y"
proof (rule that [of "take x b" "take n (drop x b)" "drop (x + n) b"])
  show "b = take x b @ take n (drop x b) @ drop (x + n) b"
    by (metis append_take_drop_id drop_drop add.commute)
qed (use assms in simp_all)

lemma wr_append: "i = length ys + j \<Longrightarrow> wr (ys @ zs) i v = map_option ((@) ys) (wr zs j v)"
  by (simp add: wr_def list_update_append)

lemma length_1_iff: "length xs = Suc 0 \<longleftrightarrow> (\<exists>a. xs = [a])"
  by (auto simp: length_Suc_conv)

lemma length_2_iff: "length xs = 2 \<longleftrightarrow> (\<exists>a b. xs = [a, b])"
  by (auto simp: numeral_2_eq_2 length_Suc_conv)

lemma length_3_iff: "length xs = 3 \<longleftrightarrow> (\<exists>a b c. xs = [a, b, c])"
  by (auto simp: numeral_3_eq_3 length_Suc_conv)

lemma dart_set_crc_value_ok:
  assumes "dart_config_ok cfg" "length xs = DART_CRC_IDX cfg n" "length cs = DART_CRC_SIZE cfg"
  shows "dart_set_crc_value cfg (xs @ cs) n crc = Some (xs @ crc_field cfg crc)"
proof (cases "DART_CRC_SIZE cfg = 1")
  case True
  with assms show ?thesis
    by (auto simp: dart_set_crc_value_def crc_field_def wr_append [where j = 0] length_1_iff)
next
  case False
  with assms have "DART_CRC_SIZE cfg = 2" by (auto simp: dart_config_ok_def)
  with assms show ?thesis
    by (auto simp: dart_set_crc_value_def crc_field_def wr_append [where j = 0] wr_append [where j = 1]
        length_2_iff list_update_append)
qed

lemma dart_set_data_len_ok:
  assumes "dart_config_ok cfg" "length hs = DART_DATA_IDX cfg"
  shows "\<exists>b1. wr (hs @ rest) 0 DART_SYNC = Some b1 \<and>
      dart_set_data_len cfg b1 n = Some ((DART_SYNC # len_field cfg n) @ rest)"
proof (cases "DART_LEN_SIZE cfg = 1")
  case True
  with assms have "length hs = 2" by (simp add: DART_DATA_IDX_def)
  then obtain a b where "hs = [a, b]" by (auto simp only: length_2_iff)
  with True show ?thesis by (simp add: dart_set_data_len_def len_field_def)
next
  case False
  with assms have 2: "DART_LEN_SIZE cfg = 2" by (auto simp: dart_config_ok_def)
  with assms have "length hs = 3" by (simp add: DART_DATA_IDX_def)
  then obtain a b c where "hs = [a, b, c]" by (auto simp only: length_3_iff)
  with 2 show ?thesis by (simp add: dart_set_data_len_def len_field_def of_nat_drop_8 numeral_2_eq_2)
qed

text \<open>Composing a frame never leaves the buffer and yields the frame of the data, whatever the
  buffer held.\<close>

lemma dart_compose_frame_ok:
  assumes cfg: "dart_config_ok cfg" and n: "n \<le> length data" and b: "length buffer0 = DART_FRAME_BYTES cfg n"
  shows "dart_compose_frame cfg buffer0 data n = Some (frame cfg (take n data))"
proof -
  from b have "length buffer0 = DART_DATA_IDX cfg + n + DART_CRC_SIZE cfg"
    by (simp add: DART_FRAME_BYTES_def DART_LEN_BYTES_def DART_DATA_IDX_def)
  then obtain hs body cs where b0: "buffer0 = hs @ body @ cs" "length hs = DART_DATA_IDX cfg"
    "length body = n" "length cs = DART_CRC_SIZE cfg" by (rule split_buffer)
  let ?hs = "DART_SYNC # len_field cfg n" and ?crc = "crc_of cfg (take n data)"
  have hs: "length ?hs = DART_DATA_IDX cfg" using cfg by (simp add: DART_DATA_IDX_def)
  have "memcpy (?hs @ body @ cs) (DART_DATA_IDX cfg) data n = Some (?hs @ take n data @ cs)"
    unfolding memcpy_def hs [symmetric] using n b0(3) by simp
  moreover have "dart_set_crc_value cfg ((?hs @ take n data) @ cs) n ?crc =
      Some ((?hs @ take n data) @ crc_field cfg ?crc)"
    using n hs by (intro dart_set_crc_value_ok [OF cfg _ b0(4)]) (simp add: DART_CRC_IDX_def)
  moreover from dart_set_data_len_ok [OF cfg b0(2), of "body @ cs" n] obtain b1 where
    "wr buffer0 0 DART_SYNC = Some b1" "dart_set_data_len cfg b1 n = Some (?hs @ body @ cs)"
    unfolding b0(1) by blast
  ultimately show ?thesis using n
    by (simp add: dart_compose_frame_def frame_def dart_calculate_crc_ok min_def)
qed

section \<open>Reading a frame back\<close>

lemma join_bytes: "push_bit 8 (ucast (ucast (drop_bit 8 w) :: u8)) OR ucast (ucast w :: u8) = (w::u16)"
  by (rule bit_word_eqI) (auto simp: bit_simps)

lemma hi_byte: "n < 65536 \<Longrightarrow> (of_nat (n div 256) :: u8) = ucast (drop_bit 8 (of_nat n :: u16))"
  by (rule word_unat_eq_iff [THEN iffD2])
    (simp add: unsigned_ucast_eq drop_bit_eq_div take_bit_eq_mod unsigned_of_nat unat_div)

lemma lo_byte: "(of_nat n :: u8) = ucast (of_nat n :: u16)"
  by (rule word_unat_eq_iff [THEN iffD2])
    (simp add: unsigned_ucast_eq unsigned_of_nat take_bit_eq_mod mod_mod_cancel)

lemma dart_get_data_len_ok:
  assumes "dart_config_ok cfg" "n < 2 ^ (8 * DART_LEN_SIZE cfg)"
  shows "dart_get_data_len cfg (x # len_field cfg n @ rest) = Some n"
proof (cases "DART_LEN_SIZE cfg = 1")
  case True
  with assms show ?thesis by (simp add: dart_get_data_len_def len_field_def unsigned_of_nat take_bit_eq_mod)
next
  case False
  with assms have "DART_LEN_SIZE cfg = 2" by (auto simp: dart_config_ok_def)
  with assms have n: "n < 65536" by simp
  define w :: u16 where "w = of_nat n"
  have w: "unat w = n" using n by (simp add: w_def unsigned_of_nat take_bit_eq_mod)
  have "len_field cfg n = [ucast (drop_bit 8 w), ucast w]"
    using False by (simp only: len_field_def if_False hi_byte [OF n] lo_byte [of n] w_def)
  with False show ?thesis
    by (simp add: dart_get_data_len_def rd_def join_bytes w)
qed

lemma crc_of_small:
  "DART_CRC_SIZE cfg = 1 \<Longrightarrow> ucast (ucast (crc_of cfg bs) :: u8) = crc_of cfg bs"
  "DART_CRC_SIZE cfg = 2 \<Longrightarrow> ucast (ucast (crc_of cfg bs) :: u16) = crc_of cfg bs"
  by (simp_all add: crc_of_def) (rule bit_word_eqI; auto simp: bit_simps dest: bit_imp_le_length)+

lemma rd_append: "i = length ys + j \<Longrightarrow> rd (ys @ zs) i = rd zs j"
  by (simp add: rd_def nth_append)

lemma dart_get_crc_value_ok:
  assumes "dart_config_ok cfg" "length xs = DART_CRC_IDX cfg n"
  shows "dart_get_crc_value cfg (xs @ crc_field cfg (crc_of cfg bs) @ rest) n = Some (crc_of cfg bs)"
proof (cases "DART_CRC_SIZE cfg = 1")
  case True
  with assms have "rd (xs @ crc_field cfg (crc_of cfg bs) @ rest) (DART_CRC_IDX cfg n) = Some (ucast (crc_of cfg bs))"
    by (simp add: crc_field_def rd_def nth_append)
  with True show ?thesis using crc_of_small(1) [OF True] by (simp add: dart_get_crc_value_def)
next
  case False
  with assms have 2: "DART_CRC_SIZE cfg = 2" by (auto simp: dart_config_ok_def)
  define w where "w = (ucast (crc_of cfg bs) :: u16)"
  have "ucast w = crc_of cfg bs" using crc_of_small(2) [OF 2] by (simp add: w_def)
  moreover have "(ucast (drop_bit 8 (ucast w :: u32)) :: u8) = ucast (drop_bit 8 w)" "(ucast (ucast w :: u32) :: u8) = ucast w"
    by (rule bit_word_eqI; auto simp: bit_simps)+
  ultimately show ?thesis using assms(2) 2
    by (simp add: dart_get_crc_value_def crc_field_def rd_append [where j = 0] rd_append [where j = 1]
        rd_def nth_append join_bytes flip: \<open>ucast w = crc_of cfg bs\<close>)
qed

section \<open>The two-byte checksum is CRC-16/CCITT\<close>

text \<open>The reference: the division by the polynomial \<open>0x1021\<close>, one bit at a time.\<close>

definition ccitt_bit :: "u16 \<Rightarrow> u16" where
  "ccitt_bit c = push_bit 1 c XOR (if bit c 15 then 0x1021 else 0)"

definition ccitt_byte :: "u16 \<Rightarrow> u8 \<Rightarrow> u16" where
  "ccitt_byte c b = (ccitt_bit ^^ 8) (c XOR push_bit 8 (ucast b))"

lemma ccitt_bit_xor: "ccitt_bit (a XOR b) = ccitt_bit a XOR ccitt_bit b"
  by (cases "bit a 15"; cases "bit b 15") (simp_all add: ccitt_bit_def bit_xor_iff push_bit_xor ac_simps)

lemma ccitt_bits_xor: "(ccitt_bit ^^ n) (a XOR b) = (ccitt_bit ^^ n) a XOR (ccitt_bit ^^ n) b"
  by (induction n) (simp_all add: ccitt_bit_xor)

text \<open>What the code computes from the high byte alone.\<close>

definition crc16_table :: "u8 \<Rightarrow> u16" where
  "crc16_table h = (let x = ucast h XOR drop_bit 4 (ucast h) in push_bit 12 x XOR push_bit 5 x XOR x)"

lemma crc16_table_xor: "crc16_table (a XOR b) = crc16_table a XOR crc16_table b"
  by (simp add: crc16_table_def Let_def unsigned_xor_eq push_bit_xor drop_bit_xor ac_simps)

lemma take_bit_Suc_xor: "take_bit (Suc k) (h::u8) = take_bit k h XOR (if bit h k then push_bit k 1 else 0)"
  by (rule bit_word_eqI) (auto simp: bit_simps less_Suc_eq)

text \<open>Two functions on bytes that respect exclusive or agree if they agree on the powers of two.\<close>

lemma byte_linear_eq:
  fixes f g :: "u8 \<Rightarrow> u16"
  assumes f: "\<And>a b. f (a XOR b) = f a XOR f b" and g: "\<And>a b. g (a XOR b) = g a XOR g b"
    and basis: "\<And>i. i < 8 \<Longrightarrow> f (2 ^ i) = g (2 ^ i)"
  shows "f h = g h"
proof -
  have 0: "f 0 = 0" "g 0 = 0" using f [of 0 0] g [of 0 0] by simp_all
  have "k \<le> 8 \<Longrightarrow> f (take_bit k h) = g (take_bit k h)" for k
    by (induction k) (simp_all add: 0 take_bit_Suc_xor f g basis)
  from this [of 8] show ?thesis by (simp add: take_bit_word_eq_self)
qed

lemma crc16_table_ok: "(ccitt_bit ^^ 8) (push_bit 8 (ucast h)) = crc16_table h"
proof (rule byte_linear_eq [where f = "\<lambda>h. (ccitt_bit ^^ 8) (push_bit 8 (ucast h))"])
  fix i :: nat assume "i < 8"
  then have "i \<in> set [0..<8]" by simp
  moreover have "list_all (\<lambda>i. (ccitt_bit ^^ 8) (push_bit 8 (ucast (2 ^ i :: u8))) = crc16_table (2 ^ i)) [0..<8]"
    by code_simp
  ultimately show "(ccitt_bit ^^ 8) (push_bit 8 (ucast (2 ^ i :: u8))) = crc16_table (2 ^ i)"
    unfolding list_all_iff by blast
qed (simp_all add: unsigned_xor_eq push_bit_xor ccitt_bits_xor crc16_table_xor)

lemma low_byte_shift: "(ccitt_bit ^^ 8) (ucast (l::u8)) = push_bit 8 (ucast l)"
proof -
  have "k \<le> 8 \<Longrightarrow> (ccitt_bit ^^ k) (ucast l) = push_bit k (ucast l)" for k
  proof (induction k)
    case (Suc k)
    then have "\<not> bit (push_bit k (ucast l) :: u16) 15" by (auto simp: bit_simps dest: bit_imp_le_length)
    moreover have "push_bit 1 (push_bit k (ucast l :: u16)) = push_bit (Suc k) (ucast l)"
      by (simp only: push_bit_push_bit) simp
    ultimately show ?case using Suc by (simp only: funpow.simps comp_apply) (simp add: ccitt_bit_def)
  qed simp
  then show ?thesis by simp
qed

lemma crc16_round_eq: "crc16_round c b = ccitt_byte c b"
proof -
  define h l where "h = (ucast (drop_bit 8 c) XOR b :: u8)" and "l = (ucast c :: u8)"
  have "c XOR push_bit 8 (ucast b) = push_bit 8 (ucast h) XOR ucast l"
    by (rule bit_word_eqI) (auto simp: h_def l_def bit_simps dest: bit_imp_le_length)
  then have "ccitt_byte c b = crc16_table h XOR push_bit 8 (ucast l)"
    by (simp add: ccitt_byte_def ccitt_bits_xor crc16_table_ok low_byte_shift)
  moreover have "drop_bit 8 c XOR ucast b = ucast h"
    by (rule bit_word_eqI) (auto simp: h_def bit_simps dest: bit_imp_le_length)
  moreover have "push_bit 8 c = push_bit 8 (ucast l)"
    by (rule bit_word_eqI) (auto simp: l_def bit_simps dest: bit_imp_le_length)
  ultimately show ?thesis by (simp add: crc16_round_def crc16_table_def Let_def ac_simps)
qed


section \<open>What the checksums detect\<close>

lemma xor_0_iff: "(a::'a::len word) XOR b = 0 \<longleftrightarrow> a = b"
proof
  assume "a XOR b = 0"
  then have "(a XOR b) XOR b = b" by simp
  then show "a = b" by (simp only: xor.assoc xor_self_eq xor.right_neutral)
qed simp

lemma crc16_round_xor: "crc16_round (c XOR c') (b XOR b') = crc16_round c b XOR crc16_round c' b'"
  by (simp add: crc16_round_def Let_def unsigned_xor_eq push_bit_xor drop_bit_xor ac_simps)

lemma crc16_round_0:
  assumes "crc16_round c b = 0"
  shows "drop_bit 8 c = ucast b \<and> push_bit 8 c = 0"
proof -
  define x0 :: u16 where "x0 = drop_bit 8 c XOR ucast b"
  define x where "x = x0 XOR drop_bit 4 x0"
  have r: "push_bit 8 c XOR push_bit 12 x XOR push_bit 5 x XOR x = 0"
    using assms by (simp add: crc16_round_def Let_def x_def x0_def)
  have hi: "\<not> bit x0 n" if "8 \<le> n" for n
    using that by (auto simp: x0_def bit_simps dest: bit_imp_le_length)
  have low: "bit x n \<longleftrightarrow> 5 \<le> n \<and> bit x (n - 5)" if "n < 8" for n
    using arg_cong [OF r, of "\<lambda>w. bit w n"] that by (auto simp: bit_simps)
  have x5: "\<not> bit x n" if "n < 5" for n using low [of n] that by simp
  then have "\<not> bit x n" if "n < 8" for n using low [of n] that by simp
  moreover have "\<not> bit x n" if "8 \<le> n" for n using hi that by (simp add: x_def bit_simps)
  ultimately have "x = 0" by (intro bit_word_eqI) (metis bit_0_eq bot_apply bot_bool_def not_le)
  moreover have "bit x n \<longleftrightarrow> bit x0 n \<noteq> bit x0 (n + 4)" for n by (simp add: x_def bit_simps ac_simps)
  ultimately have fold: "bit x0 n \<longleftrightarrow> bit x0 (n + 4)" for n by simp
  have mid: "\<not> bit x0 n" if "4 \<le> n" for n using fold [of n] hi [of "n + 4"] that by simp
  have "\<not> bit x0 n" for n using fold [of n] mid [of "n + 4"] by simp
  then have "x0 = 0" by (intro bit_word_eqI) simp
  with r \<open>x = 0\<close> show ?thesis by (simp add: x0_def xor_0_iff)
qed


lemma crc16_round_inj:
  "crc16_round c b = crc16_round c' b \<Longrightarrow> c = c'" "crc16_round c b = crc16_round c b' \<Longrightarrow> b = b'"
proof -
  assume "crc16_round c b = crc16_round c' b"
  then have "crc16_round (c XOR c') 0 = 0" using crc16_round_xor [of c c' b b] by simp
  from crc16_round_0 [OF this] have 0: "drop_bit 8 (c XOR c') = 0" "push_bit 8 (c XOR c') = 0" by simp_all
  define d where "d = c XOR c'"
  note 0 = 0 [folded d_def]
  have "\<not> bit d n" if "n < 16" for n
  proof (cases "8 \<le> n")
    case True
    have "bit (drop_bit 8 d) (n - 8) \<longleftrightarrow> bit d n" using True by (simp add: bit_simps)
    with 0(1) show ?thesis by (simp only: bit_0_eq bot_apply bot_bool_def) simp
  next
    case False
    then have "bit (push_bit 8 d) (n + 8) \<longleftrightarrow> bit d n" by (simp add: bit_simps)
    with 0(2) show ?thesis by (simp only: bit_0_eq bot_apply bot_bool_def) simp
  qed
  then have "d = 0" by (intro bit_word_eqI) simp
  then have "c XOR c' = 0" by (simp only: d_def)
  then show "c = c'" by (simp add: xor_0_iff)
next
  assume "crc16_round c b = crc16_round c b'"
  then have "crc16_round 0 (b XOR b') = 0" using crc16_round_xor [of c c b b'] by simp
  moreover define d where "d = b XOR b'"
  ultimately have 0: "(ucast d :: u16) = 0" using crc16_round_0 [of 0 d] by simp
  have "\<not> bit d n" if "n < 8" for n
  proof -
    have "bit (ucast d :: u16) n \<longleftrightarrow> bit d n" using that by (simp add: bit_simps)
    with 0 show ?thesis by simp
  qed
  then have "d = 0" by (intro bit_word_eqI) simp
  then have "b XOR b' = 0" by (simp only: d_def)
  then show "b = b'" by (simp add: xor_0_iff)
qed

lemma crc8_round_inj:
  "crc8_round c b = crc8_round c' b \<Longrightarrow> c = c'" "crc8_round c b = crc8_round c b' \<Longrightarrow> b = b'"
  unfolding crc8_round_def by (metis xor.assoc xor.commute xor_self_eq xor.right_neutral)+

lemma fold_inj_state:
  assumes "\<And>c c' b. f c b = f c' b \<Longrightarrow> c = c'"
  shows "fold (\<lambda>b c. f c b) bs c = fold (\<lambda>b c. f c b) bs c' \<Longrightarrow> c = c'"
proof (induction bs arbitrary: c c')
  case (Cons b bs)
  then have "f c b = f c' b" by simp
  then show ?case by (rule assms)
qed simp

lemma fold_single_byte:
  assumes "\<And>c c' b. f c b = f c' b \<Longrightarrow> c = c'" "\<And>c b b'. f c b = f c b' \<Longrightarrow> b = b'"
    and "fold (\<lambda>b c. f c b) (xs @ b # ys) c = fold (\<lambda>b c. f c b) (xs @ b' # ys) c"
  shows "b = b'"
proof -
  let ?c = "fold (\<lambda>b c. f c b) xs c"
  from assms(3) have "fold (\<lambda>b c. f c b) ys (f ?c b) = fold (\<lambda>b c. f c b) ys (f ?c b')" by simp
  from fold_inj_state [OF assms(1) this] show ?thesis by (rule assms(2))
qed

lemma ucast_ucast_u8: "ucast (ucast (x::u8) :: u32) = x"
  by (rule bit_word_eqI) (auto simp: bit_simps dest: bit_imp_le_length)

lemma ucast_ucast_u16: "ucast (ucast (x::u16) :: u32) = x"
  by (rule bit_word_eqI) (auto simp: bit_simps dest: bit_imp_le_length)

lemma crc_of_single_byte: "crc_of cfg (xs @ b # ys) = crc_of cfg (xs @ b' # ys) \<Longrightarrow> b = b'"
proof (cases "DART_CRC_SIZE cfg = 1")
  case True
  assume "crc_of cfg (xs @ b # ys) = crc_of cfg (xs @ b' # ys)"
  with True have "fold (\<lambda>b c. crc8_round c b) (xs @ b # ys) 0xFF = fold (\<lambda>b c. crc8_round c b) (xs @ b' # ys) 0xFF"
    unfolding crc_of_def by (simp only: if_True) (metis ucast_ucast_u8)
  then show ?thesis by (rule fold_single_byte [where f = crc8_round, rotated 2]) (blast dest: crc8_round_inj)+
next
  case False
  assume "crc_of cfg (xs @ b # ys) = crc_of cfg (xs @ b' # ys)"
  with False have "fold (\<lambda>b c. crc16_round c b) (xs @ b # ys) 0xFFFF = fold (\<lambda>b c. crc16_round c b) (xs @ b' # ys) 0xFFFF"
    unfolding crc_of_def by (simp only: if_False) (metis ucast_ucast_u16)
  then show ?thesis by (rule fold_single_byte [where f = crc16_round, rotated 2]) (blast dest: crc16_round_inj)+
qed

section \<open>Properties\<close>

lemma frame_fields:
  assumes cfg: "dart_config_ok cfg" and n: "length bs < 2 ^ (8 * DART_LEN_SIZE cfg)"
  shows "dart_get_data_len cfg (frame cfg bs @ rest) = Some (length bs)"
    "take (length bs) (drop (DART_DATA_IDX cfg) (frame cfg bs @ rest)) = bs"
    "dart_get_crc_value cfg (frame cfg bs @ rest) (length bs) = Some (crc_of cfg bs)"
    "dart_calculate_crc cfg (frame cfg bs @ rest) (DART_DATA_IDX cfg) (length bs) = Some (crc_of cfg bs)"
proof -
  let ?hd = "DART_SYNC # len_field cfg (length bs)"
  have hd: "length ?hd = DART_DATA_IDX cfg" using cfg by (simp add: DART_DATA_IDX_def)
  have f: "frame cfg bs @ rest = ?hd @ bs @ crc_field cfg (crc_of cfg bs) @ rest" by (simp add: frame_def)
  show "dart_get_data_len cfg (frame cfg bs @ rest) = Some (length bs)"
    using dart_get_data_len_ok [OF assms] by (simp add: frame_def)
  show body: "take (length bs) (drop (DART_DATA_IDX cfg) (frame cfg bs @ rest)) = bs"
    unfolding f hd [symmetric] by simp
  have "length (?hd @ bs) = DART_CRC_IDX cfg (length bs)" unfolding DART_CRC_IDX_def hd [symmetric] by simp
  from dart_get_crc_value_ok [OF cfg this, of bs rest]
  show "dart_get_crc_value cfg (frame cfg bs @ rest) (length bs) = Some (crc_of cfg bs)"
    unfolding f by simp
  have "DART_DATA_IDX cfg + length bs \<le> length (frame cfg bs @ rest)" unfolding f hd [symmetric] by simp
  from dart_calculate_crc_ok [OF this]
  show "dart_calculate_crc cfg (frame cfg bs @ rest) (DART_DATA_IDX cfg) (length bs) = Some (crc_of cfg bs)"
    unfolding body .
qed

text \<open>C12: Reading back a frame that dart_push_frame composed gives what was put in: for both sizes of
  the length field and of the checksum, the frame starts with DART_SYNC, its length field reads the
  length of the data, the data stands at DART_DATA_IDX, and the checksum field equals the checksum
  computed over the data, so the receiver accepts it. The hypothesis on the length says that it fits
  the length field.\<close>

theorem dart_frame_roundtrip:
  assumes "dart_config_ok cfg" "length data < 2 ^ (8 * DART_LEN_SIZE cfg)"
    "length buffer0 = DART_FRAME_BYTES cfg (length data)"
  shows "\<exists>f crc. dart_compose_frame cfg buffer0 data (length data) = Some f \<and>
    length f = DART_FRAME_BYTES cfg (length data) \<and> f ! 0 = DART_SYNC \<and>
    dart_get_data_len cfg f = Some (length data) \<and>
    take (length data) (drop (DART_DATA_IDX cfg) f) = data \<and>
    dart_get_crc_value cfg f (length data) = Some crc \<and>
    dart_calculate_crc cfg f (DART_DATA_IDX cfg) (length data) = Some crc"
  using dart_compose_frame_ok [OF assms(1) _ assms(3)] frame_fields [OF assms(1,2), of "[]"] length_frame [OF assms(1)]
  by (simp add: frame_def)

definition cfg11 :: dart_config where
  "cfg11 = \<lparr>DART_LEN_SIZE = 1, DART_CRC_SIZE = 1\<rparr>"

definition cfg22 :: dart_config where
  "cfg22 = \<lparr>DART_LEN_SIZE = 2, DART_CRC_SIZE = 2\<rparr>"

lemma cfgs_ok [simp]: "dart_config_ok cfg11" "dart_config_ok cfg22"
  by (simp_all add: dart_config_ok_def cfg11_def cfg22_def)

theorem dart_frame_roundtrip_witness:
  "\<exists>f crc. dart_compose_frame cfg11 [0, 0, 0, 0, 0] [0x12, 0x34] 2 = Some f \<and> length f = 5 \<and>
    dart_get_data_len cfg11 f = Some 2 \<and> dart_get_crc_value cfg11 f 2 = Some crc"
proof -
  have "length [0, 0, 0, 0, 0 :: u8] = DART_FRAME_BYTES cfg11 (length [0x12, 0x34 :: u8])"
    "length [0x12, 0x34 :: u8] < 2 ^ (8 * DART_LEN_SIZE cfg11)" "DART_FRAME_BYTES cfg11 2 = 5"
    by (simp_all add: DART_FRAME_BYTES_def DART_LEN_BYTES_def cfg11_def)
  from dart_frame_roundtrip [OF cfgs_ok(1) this(2,1)] this(3) show ?thesis
    by (auto simp: numeral_2_eq_2)
qed

text \<open>The frames of the unit tests: one for the narrow fields, one for the wide ones.\<close>

lemma test_frame_11: "frame cfg11 [0x12, 0x34] = [0x55, 0x02, 0x12, 0x34, 0xD9]"
  by (simp add: frame_def len_field_def crc_field_def crc_of_def cfg11_def crc8_round_def)

lemma test_frame_22: "frame cfg22 [0x12, 0x34] = [0x55, 0x00, 0x02, 0x12, 0x34, 0x0E, 0xC9]"
  by (simp add: frame_def len_field_def crc_field_def crc_of_def cfg22_def crc16_round_def Let_def)

text \<open>C26: The byte-wise shift and xor of dart_calculate_crc with a two byte checksum computes the
  CRC-16 with the polynomial 0x1021 and initial value 0xFFFF, defined bit by bit, over any data
  inside the buffer.\<close>

theorem dart_crc16_is_ccitt:
  assumes "DART_CRC_SIZE cfg = 2" "off + n \<le> length buffer"
  shows "dart_calculate_crc cfg buffer off n =
    Some (ucast (fold (\<lambda>b c. ccitt_byte c b) (take n (drop off buffer)) 0xFFFF))"
  using assms by (simp add: dart_calculate_crc_def crc_loop_ok crc16_round_eq)

theorem dart_crc16_is_ccitt_witness: "dart_calculate_crc cfg22 [0x12, 0x34] 0 2 =
    Some (ucast (fold (\<lambda>b c. ccitt_byte c b) [0x12, 0x34] 0xFFFF))"
  using dart_crc16_is_ccitt [of cfg22 0 2 "[0x12, 0x34]"] by (simp add: cfg22_def)

text \<open>C27: The checksum of a frame detects every corruption of a single byte: two data blocks of any
  length that differ in one byte, at any position, have different checksums, with one as with two
  checksum bytes.\<close>

theorem dart_crc_detects_byte:
  assumes "b \<noteq> b'" "n = length xs + 1 + length ys"
  shows "dart_calculate_crc cfg (xs @ b # ys) 0 n \<noteq> dart_calculate_crc cfg (xs @ b' # ys) 0 n"
  using assms crc_of_single_byte [of cfg xs b ys b'] dart_calculate_crc_ok [of 0 n "xs @ b # ys" cfg]
    dart_calculate_crc_ok [of 0 n "xs @ b' # ys" cfg] by auto

theorem dart_crc_detects_byte_witness:
  "dart_calculate_crc cfg22 [1, 2, 3] 0 3 \<noteq> dart_calculate_crc cfg22 [1, 9, 3] 0 3"
  using dart_crc_detects_byte [of 2 9 3 "[1]" "[3]" cfg22] by simp

end
