(* ===== verification/Mx_Dart.thy ===== *)
theory Mx_Dart
  imports Mx_MsgQueue Mx_Timer Mx_DartFrame
begin

unbundle bit_operations_syntax

text \<open>
  The DART protocol engine of \<open>source/core/dart.c\<close>, handler by handler. The state is \<open>struct dart\<close>
  together with what the handlers reach through it: the message objects in the pool, the clock of
  \<open>timer.c\<close>, and the outside world, of which nothing is known but the functions the program links
  against. These (the pins, the UART, the two callbacks of the application) are the fields of an
  environment every handler takes. A function pointer is an address; the environment says what the
  function at an address does, and a callback gets the whole state, since it may call back into the
  module.
\<close>

section \<open>State and environment\<close>

datatype dart_pin = DART_WRK_PIN | DART_RDY_PIN

datatype dart_status = DART_SUCCESS | DART_PENDING | DART_WAITING | DART_IDLE
  | DART_ERR_NOT_POSSIBLE | DART_ERR_NOT_SUPPORTED | DART_ERR_BAD_LENGTH | DART_ERR_NO_MEMORY
  | DART_ERR_MSG_NOT_FOUND

datatype dart_clbk = DART_CLBK_IDLE | DART_CLBK_WAITING | DART_CLBK_TRANSFER_DONE
  | DART_CLBK_TRANSFER_FAILURE | DART_CLBK_TRANSFER_COMPLETE | DART_CLBK_TRANSFER_INCOMPLETE
  | DART_CLBK_TRANSFER_CORRUPTED | DART_CLBK_TRANSFER_IMPOSSIBLE | DART_CLBK_MESSAGE_RECEIVED
  | DART_CLBK_MESSAGE_ABANDONED

text \<open>The message a callback is given: none, the one of a pool object, or the one in the receive
  buffer.\<close>

datatype msg_ref = NoMsg | PoolMsg nat | RxMsg

record 'w dart =
  d_cba :: cba
  d_heap :: msg_heap
  d_queue :: msg_queue
  transfering :: "nat option"
  pending_request :: "nat option"
  wakeup_timer :: timer
  wakeup_attempts :: u8
  tx_ack_timer :: timer
  tx_response_timer :: timer
  tx_attempts :: u8
  rx_buffer :: "u8 list"
  rx_buffer_size :: nat
  rx_buffer_bytes :: nat
  rx_byte_timer :: timer
  d_callback :: "nat option"
  callback_private :: nat
  d_deferred :: "nat option"
  closing_timer :: timer
  d_running :: bool
  d_clock :: clock
  d_world :: 'w

record 'w dart_env =
  dart_cfg :: dart_config
  pin_get_state :: "dart_pin \<Rightarrow> 'w \<Rightarrow> bool \<times> 'w"
  pin_set_state :: "dart_pin \<Rightarrow> bool \<Rightarrow> 'w \<Rightarrow> 'w"
  uart_send :: "u8 list \<Rightarrow> 'w \<Rightarrow> 'w"
  callback_fn :: "nat \<Rightarrow> nat \<Rightarrow> dart_clbk \<Rightarrow> msg_ref \<Rightarrow> nat \<Rightarrow> 'w dart \<Rightarrow> 'w dart option"
  deferred_fn :: "nat \<Rightarrow> u8 \<Rightarrow> 'w dart \<Rightarrow> (bool \<times> 'w dart) option"

definition dart_pin_get_state :: "'w dart_env \<Rightarrow> dart_pin \<Rightarrow> 'w dart \<Rightarrow> bool \<times> 'w dart" where
  "dart_pin_get_state env p self = (let (b, w) = pin_get_state env p (d_world self) in (b, self\<lparr>d_world := w\<rparr>))"

definition dart_pin_set_state :: "'w dart_env \<Rightarrow> dart_pin \<Rightarrow> bool \<Rightarrow> 'w dart \<Rightarrow> 'w dart" where
  "dart_pin_set_state env p b self = self\<lparr>d_world := pin_set_state env p b (d_world self)\<rparr>"

abbreviation (input) DART_BYTE_TIMER_VAL :: u32 where "DART_BYTE_TIMER_VAL \<equiv> 30"
abbreviation (input) DART_CLOSING_TIMER_VAL :: u32 where "DART_CLOSING_TIMER_VAL \<equiv> 50"
abbreviation (input) DART_CHILL_TIMER_VAL :: u32 where "DART_CHILL_TIMER_VAL \<equiv> 100"
abbreviation (input) DART_ACK_TIMER_VAL :: u32 where "DART_ACK_TIMER_VAL \<equiv> 300"
abbreviation (input) DART_WAKEUP_TIMER_VAL :: u32 where "DART_WAKEUP_TIMER_VAL \<equiv> 500"
abbreviation (input) DART_RESPONSE_TIMER_VAL :: u32 where "DART_RESPONSE_TIMER_VAL \<equiv> 3000"
abbreviation (input) DART_WAKEUP_ATTEMPTS :: u8 where "DART_WAKEUP_ATTEMPTS \<equiv> 3"
abbreviation (input) DART_TX_ATTEMPTS :: u8 where "DART_TX_ATTEMPTS \<equiv> 3"

section \<open>Life cycle\<close>

definition dart_reset :: "'w dart \<Rightarrow> 'w dart" where
  "dart_reset self = self\<lparr>transfering := None, pending_request := None,
     wakeup_attempts := 0, wakeup_timer := timer_stop,
     tx_attempts := 0, tx_ack_timer := timer_stop, tx_response_timer := timer_stop,
     rx_buffer_bytes := 0, rx_byte_timer := timer_stop, closing_timer := timer_stop,
     d_queue := msg_queue_init (d_queue self), d_cba := cba_reset (d_cba self)\<rparr>"

definition dart_init :: "'w dart \<Rightarrow> (nat \<Rightarrow> cba_header option) \<Rightarrow> nat \<Rightarrow> u8 list \<Rightarrow> nat \<Rightarrow> 'w dart" where
  "dart_init self mpool mpool_size rxbuf rxsize =
     (let self = self\<lparr>d_callback := None, callback_private := 0, d_deferred := None\<rparr>;
          self = dart_reset self;
          self = self\<lparr>d_cba := cba_init mpool mpool_size\<rparr>
      in self\<lparr>rx_buffer := rxbuf, rx_buffer_size := rxsize, d_running := True\<rparr>)"

definition dart_clean :: "'w dart \<Rightarrow> 'w dart" where
  "dart_clean self = (let self = dart_reset self in self\<lparr>d_cba := cba_clean (d_cba self)\<rparr>)"

definition dart_set_callback :: "'w dart \<Rightarrow> nat \<Rightarrow> nat option \<Rightarrow> 'w dart" where
  "dart_set_callback self private callback = self\<lparr>d_callback := callback, callback_private := private\<rparr>"

definition dart_set_deferred_msg_callback :: "'w dart \<Rightarrow> nat option \<Rightarrow> 'w dart" where
  "dart_set_deferred_msg_callback self callback = self\<lparr>d_deferred := callback\<rparr>"

definition dart_callback :: "'w dart_env \<Rightarrow> 'w dart \<Rightarrow> dart_clbk \<Rightarrow> msg_ref \<Rightarrow> nat \<Rightarrow> 'w dart option" where
  "dart_callback env self code param1 param2 =
     (case d_callback self of
        None \<Rightarrow> Some self
      | Some f \<Rightarrow> callback_fn env f (callback_private self) code param1 param2 self)"

definition dart_deferred_msg_callback :: "'w dart_env \<Rightarrow> 'w dart \<Rightarrow> nat \<Rightarrow> (bool \<times> 'w dart) option" where
  "dart_deferred_msg_callback env self p =
     (case d_deferred self of
        None \<Rightarrow> Some (False, self)
      | Some f \<Rightarrow> do { t \<leftarrow> msg_get_type (d_cba self) (d_heap self) p; deferred_fn env f t self })"

section \<open>Queries\<close>

fun dart_find_loop :: "'w dart \<Rightarrow> nat list \<Rightarrow> nat option option" where
  "dart_find_loop self [] = Some None"
| "dart_find_loop self (i # is) = do {
     l \<leftarrow> msg_queue_get_msg_list (d_queue self) i;
     if msg_list_length (list_prio (d_queue self) l) > 0 then do {
       p \<leftarrow> msg_list_peek (list_prio (d_queue self) l);
       wait \<leftarrow> (if pending_request self \<noteq> None
         then do { t \<leftarrow> msg_get_type (d_cba self) (d_heap self) p; Some (t AND MSG_TYPE_MASK = MSG_REQUEST) }
         else Some False);
       if wait then dart_find_loop self is
       else Some (Some l) }
     else dart_find_loop self is }"

definition dart_find_next_message_queue :: "'w dart \<Rightarrow> nat option option" where
  "dart_find_next_message_queue self = dart_find_loop self [0..<MSG_PRIO_LENGTH]"

definition dart_is_sending :: "'w dart \<Rightarrow> bool option" where
  "dart_is_sending self =
     (if transfering self \<noteq> None then Some True
      else if pending_request self \<noteq> None then Some True
      else do { l \<leftarrow> dart_find_next_message_queue self; Some (if l \<noteq> None then True else False) })"

definition dart_is_receiving :: "'w dart \<Rightarrow> bool" where
  "dart_is_receiving self = (if rx_buffer_bytes self \<noteq> 0 then True else False)"

definition dart_is_idle :: "'w dart \<Rightarrow> bool option" where
  "dart_is_idle self = do {
     s \<leftarrow> dart_is_sending self;
     Some (if s \<or> dart_is_receiving self then False else True) }"

definition dart_is_msg_pending :: "'w dart \<Rightarrow> nat \<Rightarrow> u8 \<Rightarrow> bool option" where
  "dart_is_msg_pending self prio t = do {
     pending \<leftarrow> (case pending_request self of None \<Rightarrow> Some False
       | Some p \<Rightarrow> do { t' \<leftarrow> msg_get_type (d_cba self) (d_heap self) p; Some (t' = t) });
     if pending then Some True
     else do { r \<leftarrow> msg_queue_find_msgtype (d_heap self) (d_queue self) (Some prio) t;
               Some (if r \<noteq> None then True else False) } }"

text \<open>The type stored in \<open>*type\<close>, with \<open>None\<close> where the code returns false.\<close>

definition dart_get_current_msgtype :: "'w dart \<Rightarrow> u8 option option" where
  "dart_get_current_msgtype self =
     (case transfering self of
        Some l \<Rightarrow> do { p \<leftarrow> msg_list_peek (list_prio (d_queue self) l);
                        t \<leftarrow> msg_get_type (d_cba self) (d_heap self) p; Some (Some t) }
      | None \<Rightarrow> (case pending_request self of
            Some p \<Rightarrow> do { t \<leftarrow> msg_get_type (d_cba self) (d_heap self) p; Some (Some t) }
          | None \<Rightarrow> Some None))"

section \<open>Output\<close>

definition dart_push :: "'w dart_env \<Rightarrow> 'w dart \<Rightarrow> u8 list \<Rightarrow> 'w dart" where
  "dart_push env self buf = self\<lparr>d_world := uart_send env buf (d_world self)\<rparr>"

definition dart_push_byte :: "'w dart_env \<Rightarrow> 'w dart \<Rightarrow> u8 \<Rightarrow> 'w dart" where
  "dart_push_byte env self b = dart_push env self [b]"

text \<open>The local array of \<open>buffer_len\<close> bytes starts out with some content, all of it overwritten.\<close>

definition dart_push_frame :: "'w dart_env \<Rightarrow> 'w dart \<Rightarrow> u8 list \<Rightarrow> nat \<Rightarrow> (dart_status \<times> 'w dart) option" where
  "dart_push_frame env self data data_len = do {
     let data_len = dart_len (dart_cfg env) data_len;
     let buffer_len = DART_FRAME_BYTES (dart_cfg env) data_len;
     buf \<leftarrow> dart_compose_frame (dart_cfg env) (replicate buffer_len 0) data data_len;
     Some (DART_SUCCESS, dart_push env self buf) }"

definition dart_push_msg :: "'w dart_env \<Rightarrow> 'w dart \<Rightarrow> u8 list \<Rightarrow> nat \<Rightarrow> (dart_status \<times> 'w dart) option" where
  "dart_push_msg env self msg msg_len = dart_push_frame env self msg (dart_len (dart_cfg env) msg_len)"

text \<open>The bytes of the message composed in the local buf: the type, then the payload.\<close>

definition dart_push_msg_payload ::
    "'w dart_env \<Rightarrow> 'w dart \<Rightarrow> u8 \<Rightarrow> u8 list \<Rightarrow> nat \<Rightarrow> (dart_status \<times> 'w dart) option" where
  "dart_push_msg_payload env self msgtype payload payload_len = do {
     let payload_len = dart_len (dart_cfg env) payload_len;
     let len = sizeof_msg + payload_len;
     data \<leftarrow> (if payload_len \<noteq> 0 then memcpy (replicate payload_len 0) 0 payload payload_len else Some []);
     dart_push_msg env self (msgtype # data) len }"


section \<open>Sending\<close>

text \<open>The lists of the queue are linked through the objects in the pool: taking the first message off a
  list reads its field \<open>next\<close>, appending one writes those of it and of the last one.\<close>

definition msg_link_ok :: "cba \<Rightarrow> nat option \<Rightarrow> bool" where
  "msg_link_ok c p \<longleftrightarrow> (case p of None \<Rightarrow> True | Some q \<Rightarrow> msg_in_chunk c q 24)"

definition dart_list_pop :: "'w dart \<Rightarrow> nat \<Rightarrow> (nat option \<times> msg_list) option" where
  "dart_list_pop self l =
     (if msg_link_ok (d_cba self) (msg_head (list_prio (d_queue self) l))
      then Some (msg_list_pop (d_heap self) (list_prio (d_queue self) l)) else None)"

definition dart_queue_push :: "'w dart \<Rightarrow> nat \<Rightarrow> nat \<Rightarrow> (nat option \<times> msg_heap \<times> msg_queue) option" where
  "dart_queue_push self prio p =
     (if msg_link_ok (d_cba self) (Some p) \<and>
         (prio < MSG_PRIO_LENGTH \<longrightarrow> msg_link_ok (d_cba self) (msg_tail (list_prio (d_queue self) prio)))
      then Some (msg_queue_push (d_heap self) (d_queue self) prio p) else None)"

definition dart_finalize_transfer :: "'w dart \<Rightarrow> 'w dart option" where
  "dart_finalize_transfer self =
     (case transfering self of
        None \<Rightarrow> Some self
      | Some l \<Rightarrow> do {
          (p, list) \<leftarrow> dart_list_pop self l;
          let self = self\<lparr>d_queue := set_list (d_queue self) l list\<rparr>;
          self \<leftarrow> (case p of
              None \<Rightarrow> Some self
            | Some q \<Rightarrow> do { c \<leftarrow> msg_ptr_free (d_cba self) (Some q); Some (self\<lparr>d_cba := c\<rparr>) });
          Some (self\<lparr>transfering := None\<rparr>) })"

definition dart_transfer_msg :: "'w dart_env \<Rightarrow> 'w dart \<Rightarrow> nat \<Rightarrow> (dart_status \<times> 'w dart) option" where
  "dart_transfer_msg env self p = do {
     msg_len \<leftarrow> msg_get_length (d_cba self) (d_heap self) p;
     (transferred, self) \<leftarrow> (if msg_len = sizeof_msg
        then dart_deferred_msg_callback env self p else Some (False, self));
     self \<leftarrow> (if \<not> transferred then do {
          msg_len \<leftarrow> msg_get_length (d_cba self) (d_heap self) p;
          let len = dart_len (dart_cfg env) msg_len;
          data \<leftarrow> msg_read (d_cba self) (d_heap self) p len;
          (status, self) \<leftarrow> dart_push_frame env self data len;
          Some self }
        else Some self);
     Some (DART_SUCCESS, self\<lparr>tx_ack_timer := timer_start (d_clock self) TIMER_MS DART_ACK_TIMER_VAL\<rparr>) }"

text \<open>The first part wakes the opponent up; it yields the status the code returns early with.\<close>

definition dart_wake_up :: "'w dart_env \<Rightarrow> 'w dart \<Rightarrow> (dart_status option \<times> 'w dart) option" where
  "dart_wake_up env self = do {
     let (wrk, self) = dart_pin_get_state env DART_WRK_PIN self;
     if \<not> wrk then do {
       let attempts = wakeup_attempts self;
       let self = self\<lparr>wakeup_attempts := attempts + 1\<rparr>;
       if attempts < DART_WAKEUP_ATTEMPTS then do {
         let self = dart_pin_set_state env DART_WRK_PIN True self;
         Some (None, if \<not> timer_running (wakeup_timer self)
           then self\<lparr>wakeup_timer := timer_start (d_clock self) TIMER_MS DART_WAKEUP_TIMER_VAL\<rparr> else self) }
       else do {
         let self = self\<lparr>wakeup_attempts := 0\<rparr>;
         self \<leftarrow> dart_callback env self DART_CLBK_TRANSFER_IMPOSSIBLE NoMsg 0;
         Some (Some DART_ERR_NOT_POSSIBLE, self) } }
     else Some (None, self) }"

definition dart_start_transfer :: "'w dart_env \<Rightarrow> 'w dart \<Rightarrow> (dart_status \<times> 'w dart) option" where
  "dart_start_transfer env self = do {
     l \<leftarrow> dart_find_next_message_queue self;
     let self = self\<lparr>transfering := l\<rparr>;
     case l of
       None \<Rightarrow> Some (if pending_request self \<noteq> None then DART_PENDING else DART_IDLE, self)
     | Some i \<Rightarrow> do {
         let self = self\<lparr>tx_attempts := 0, wakeup_attempts := 0, closing_timer := timer_stop,
           wakeup_timer := timer_stop\<rparr>;
         p \<leftarrow> msg_list_peek (list_prio (d_queue self) i);
         dart_transfer_msg env self p } }"

definition dart_trigger_transfer :: "'w dart_env \<Rightarrow> 'w dart \<Rightarrow> (dart_status \<times> 'w dart) option" where
  "dart_trigger_transfer env self =
     (if transfering self \<noteq> None then Some (DART_PENDING, self)
      else do {
        (early, self) \<leftarrow> dart_wake_up env self;
        case early of
          Some status \<Rightarrow> Some (status, self)
        | None \<Rightarrow> do {
            let (rdy, self) = dart_pin_get_state env DART_RDY_PIN self;
            if \<not> rdy then do {
              self \<leftarrow> dart_callback env self DART_CLBK_WAITING NoMsg 0;
              Some (DART_WAITING, self) }
            else dart_start_transfer env self } })"

definition dart_trigger_next_transfer :: "'w dart_env \<Rightarrow> 'w dart \<Rightarrow> 'w dart option" where
  "dart_trigger_next_transfer env self = do {
     (status, self) \<leftarrow> dart_trigger_transfer env self;
     if pending_request self = None \<and> status = DART_IDLE
     then dart_callback env self DART_CLBK_TRANSFER_COMPLETE NoMsg 0
     else Some self }"

definition dart_retry_transfer :: "'w dart_env \<Rightarrow> 'w dart \<Rightarrow> 'w dart option" where
  "dart_retry_transfer env self =
     (case transfering self of
        None \<Rightarrow> Some self
      | Some l \<Rightarrow> (case msg_list_peek (list_prio (d_queue self) l) of
            None \<Rightarrow> Some self
          | Some p \<Rightarrow>
              (let self = self\<lparr>tx_ack_timer := timer_stop\<rparr>;
                   self = self\<lparr>tx_attempts := tx_attempts self + 1\<rparr>
               in if tx_attempts self < DART_TX_ATTEMPTS then do {
                    (status, self) \<leftarrow> dart_transfer_msg env self p; Some self }
                  else do {
                    msg_len \<leftarrow> msg_get_length (d_cba self) (d_heap self) p;
                    self \<leftarrow> dart_callback env self DART_CLBK_TRANSFER_FAILURE (PoolMsg p) msg_len;
                    self \<leftarrow> dart_finalize_transfer self;
                    dart_trigger_next_transfer env self })))"

definition dart_acknowledge_msg :: "'w dart_env \<Rightarrow> 'w dart \<Rightarrow> 'w dart option" where
  "dart_acknowledge_msg env self =
     (case transfering self of
        None \<Rightarrow> Some self
      | Some l \<Rightarrow> (case msg_list_peek (list_prio (d_queue self) l) of
            None \<Rightarrow> Some self
          | Some p \<Rightarrow> do {
              let self = self\<lparr>tx_ack_timer := timer_stop\<rparr>;
              t \<leftarrow> msg_get_type (d_cba self) (d_heap self) p;
              self \<leftarrow> (if t AND MSG_TYPE_MASK = MSG_REQUEST then do {
                  let self = self\<lparr>tx_response_timer := timer_start (d_clock self) TIMER_MS DART_RESPONSE_TIMER_VAL\<rparr>;
                  (q, list) \<leftarrow> dart_list_pop self l;
                  Some (self\<lparr>d_queue := set_list (d_queue self) l list, pending_request := q, transfering := None\<rparr>) }
                else do {
                  msg_len \<leftarrow> msg_get_length (d_cba self) (d_heap self) p;
                  dart_callback env self DART_CLBK_TRANSFER_DONE (PoolMsg p) msg_len });
              self \<leftarrow> dart_finalize_transfer self;
              dart_trigger_next_transfer env self }))"

definition dart_finalize_request_msg :: "'w dart_env \<Rightarrow> 'w dart \<Rightarrow> 'w dart option" where
  "dart_finalize_request_msg env self = do {
     let self = self\<lparr>tx_response_timer := timer_stop\<rparr>;
     c \<leftarrow> cba_free (d_cba self) (pending_request self);
     let self = self\<lparr>d_cba := c, pending_request := None\<rparr>;
     dart_trigger_next_transfer env self }"

definition dart_abandon_request_msg :: "'w dart_env \<Rightarrow> 'w dart \<Rightarrow> 'w dart option" where
  "dart_abandon_request_msg env self =
     (case pending_request self of
        None \<Rightarrow> Some self
      | Some p \<Rightarrow> do {
          msg_len \<leftarrow> msg_get_length (d_cba self) (d_heap self) p;
          self \<leftarrow> dart_callback env self DART_CLBK_MESSAGE_ABANDONED (PoolMsg p) msg_len;
          dart_finalize_request_msg env self })"


section \<open>Receiving\<close>

definition dart_handle_received_msg :: "'w dart_env \<Rightarrow> 'w dart \<Rightarrow> nat \<Rightarrow> 'w dart option" where
  "dart_handle_received_msg env self msg_len = do {
     received_type \<leftarrow> rd (rx_buffer self) (DART_DATA_IDX (dart_cfg env));
     self \<leftarrow> dart_callback env self DART_CLBK_MESSAGE_RECEIVED RxMsg msg_len;
     case pending_request self of
       None \<Rightarrow> Some self
     | Some p \<Rightarrow>
         if received_type AND MSG_TYPE_MASK \<noteq> MSG_RESPONSE then Some self
         else do {
           t \<leftarrow> msg_get_type (d_cba self) (d_heap self) p;
           if t AND MSG_ID_MASK \<noteq> received_type AND MSG_ID_MASK then Some self
           else do {
             self \<leftarrow> dart_callback env self DART_CLBK_TRANSFER_DONE (PoolMsg p) msg_len;
             dart_finalize_request_msg env self } } }"

definition dart_rx_drop :: "'w dart \<Rightarrow> 'w dart" where
  "dart_rx_drop self = self\<lparr>rx_byte_timer := timer_stop, rx_buffer_bytes := 0\<rparr>"

text \<open>The four parts of \<open>dart_handle_received_char\<close>: a byte that comes too late drops what was
  received before; the byte is stored; the first byte of a frame or a control byte; the length and
  the end of the frame.\<close>

definition dart_rx_late :: "'w dart_env \<Rightarrow> 'w dart \<Rightarrow> 'w dart option" where
  "dart_rx_late env self =
     (if timer_running (rx_byte_timer self) \<and> timer_expired (d_clock self) (rx_byte_timer self) then do {
        self \<leftarrow> dart_callback env self DART_CLBK_TRANSFER_INCOMPLETE NoMsg 0;
        Some (dart_rx_drop self) }
      else Some self)"

definition dart_rx_store :: "'w dart \<Rightarrow> u8 \<Rightarrow> 'w dart option" where
  "dart_rx_store self ch = do {
     let self = self\<lparr>closing_timer := timer_stop\<rparr>;
     let self = self\<lparr>rx_byte_timer := timer_restart (d_clock self) (rx_byte_timer self)\<rparr>;
     let i = rx_buffer_bytes self;
     b \<leftarrow> wr (rx_buffer self) i ch;
     Some (self\<lparr>rx_buffer := b, rx_buffer_bytes := trunc16 (i + 1)\<rparr>) }"

definition dart_rx_first :: "'w dart_env \<Rightarrow> 'w dart \<Rightarrow> u8 \<Rightarrow> 'w dart option" where
  "dart_rx_first env self ch =
     (if ch = DART_SYNC then do {
        let self = self\<lparr>rx_byte_timer := timer_start (d_clock self) TIMER_MS DART_BYTE_TIMER_VAL\<rparr>;
        let (wrk, self) = dart_pin_get_state env DART_WRK_PIN self;
        Some (if \<not> wrk then dart_pin_set_state env DART_WRK_PIN True self else self) }
      else do {
        let (wrk, self) = dart_pin_get_state env DART_WRK_PIN self;
        self \<leftarrow> (if wrk then
             if ch = DART_ACK then dart_acknowledge_msg env self
             else if ch = DART_BAD then dart_retry_transfer env self
             else if ch = DART_CAN then map_option snd (dart_trigger_transfer env self)
             else Some self
           else Some self);
        Some (dart_rx_drop self) })"

definition dart_rx_frame :: "'w dart_env \<Rightarrow> 'w dart \<Rightarrow> 'w dart option" where
  "dart_rx_frame env self =
     (if rx_buffer_bytes self < DART_LEN_BYTES (dart_cfg env) then Some self
      else do {
        data_len \<leftarrow> dart_get_data_len (dart_cfg env) (rx_buffer self);
        let frame_len = DART_FRAME_BYTES (dart_cfg env) data_len;
        if frame_len > rx_buffer_size self then do {
          self \<leftarrow> dart_callback env self DART_CLBK_TRANSFER_CORRUPTED NoMsg 0;
          Some (dart_rx_drop self) }
        else if rx_buffer_bytes self < frame_len then Some self
        else do {
          crc_received \<leftarrow> dart_get_crc_value (dart_cfg env) (rx_buffer self) data_len;
          crc_calculated \<leftarrow> dart_calculate_crc (dart_cfg env) (rx_buffer self) (DART_DATA_IDX (dart_cfg env)) data_len;
          self \<leftarrow> (if crc_calculated \<noteq> crc_received then
              dart_callback env (dart_push_byte env self DART_BAD) DART_CLBK_TRANSFER_CORRUPTED NoMsg 0
            else dart_handle_received_msg env (dart_push_byte env self DART_ACK) data_len);
          Some (dart_rx_drop self) } })"

definition dart_handle_received_char :: "'w dart_env \<Rightarrow> 'w dart \<Rightarrow> u8 \<Rightarrow> 'w dart option" where
  "dart_handle_received_char env self ch = do {
     self \<leftarrow> dart_rx_late env self;
     self \<leftarrow> dart_rx_store self ch;
     if rx_buffer_bytes self = 1 then dart_rx_first env self ch else dart_rx_frame env self }"

definition dart_handle_transfer_done :: "'w dart \<Rightarrow> 'w dart" where
  "dart_handle_transfer_done self = self"

section \<open>Time\<close>

text \<open>The branch with nothing to send and nothing expected.\<close>

definition dart_closing :: "'w dart_env \<Rightarrow> 'w dart \<Rightarrow> (dart_status \<times> 'w dart) option" where
  "dart_closing env self = do {
     let (wrk, self) = dart_pin_get_state env DART_WRK_PIN self;
     if wrk then
       if timer_running (closing_timer self) then
         Some (DART_IDLE, if timer_expired (d_clock self) (closing_timer self)
           then (dart_pin_set_state env DART_WRK_PIN False self)
             \<lparr>closing_timer := timer_start (d_clock self) TIMER_MS DART_CHILL_TIMER_VAL\<rparr>
           else self)
       else Some (DART_IDLE, self\<lparr>closing_timer := timer_start (d_clock self) TIMER_MS DART_CLOSING_TIMER_VAL\<rparr>)
     else
       if timer_running (closing_timer self) then
         if timer_expired (d_clock self) (closing_timer self) then do {
           let self = self\<lparr>closing_timer := timer_stop\<rparr>;
           let (rdy, self) = dart_pin_get_state env DART_RDY_PIN self;
           if \<not> rdy then do {
             self \<leftarrow> dart_callback env self DART_CLBK_IDLE NoMsg 0; Some (DART_IDLE, self) }
           else Some (DART_IDLE, self) }
         else Some (DART_IDLE, self)
       else do {
         let (rdy, self) = dart_pin_get_state env DART_RDY_PIN self;
         if rdy then Some (DART_PENDING, dart_pin_set_state env DART_WRK_PIN True self)
         else Some (DART_IDLE, self) } }"

definition dart_handle_time :: "'w dart_env \<Rightarrow> 'w dart \<Rightarrow> (dart_status \<times> 'w dart) option" where
  "dart_handle_time env self = do {
     self \<leftarrow> (if pending_request self \<noteq> None \<and> timer_expired (d_clock self) (tx_response_timer self)
        then dart_abandon_request_msg env self else Some self);
     if transfering self \<noteq> None then
       if timer_expired (d_clock self) (tx_ack_timer self) then do {
         let self = self\<lparr>tx_ack_timer := timer_stop\<rparr>;
         let (rdy, self) = dart_pin_get_state env DART_RDY_PIN self;
         self \<leftarrow> (if rdy then dart_retry_transfer env self else Some (self\<lparr>transfering := None\<rparr>));
         Some (DART_PENDING, self) }
       else Some (DART_PENDING, self)
     else do {
       next \<leftarrow> dart_find_next_message_queue self;
       if next \<noteq> None then
         if timer_expired (d_clock self) (wakeup_timer self) then
           Some (DART_WAITING, dart_pin_set_state env DART_WRK_PIN False (self\<lparr>wakeup_timer := timer_stop\<rparr>))
         else dart_trigger_transfer env self
       else if pending_request self = None \<and> rx_buffer_bytes self = 0 then dart_closing env self
       else Some (DART_PENDING, self) } }"

section \<open>Requests of the application\<close>

definition dart_guess_priority :: "u8 \<Rightarrow> nat" where
  "dart_guess_priority ty =
     (let t = ty AND MSG_TYPE_MASK in
      if t = MSG_REPORT then MSG_PRIO_NORMAL
      else if t = MSG_REQUEST then MSG_PRIO_LOW
      else if t = MSG_RESPONSE then MSG_PRIO_HIGH
      else MSG_PRIO_ANY)"

definition dart_send_msg_ex :: "'w dart_env \<Rightarrow> 'w dart \<Rightarrow> nat \<Rightarrow> u8 list \<Rightarrow> nat \<Rightarrow> (dart_status \<times> 'w dart) option" where
  "dart_send_msg_ex env self prio msg msg_len =
     (let msg_len = dart_len (dart_cfg env) msg_len in
      if \<not> d_running self then Some (DART_ERR_NOT_POSSIBLE, self)
      else do {
        prio \<leftarrow> (if prio = MSG_PRIO_ANY then map_option dart_guess_priority (rd msg 0) else Some prio);
        if prio \<ge> MSG_PRIO_LENGTH then Some (DART_ERR_NOT_POSSIBLE, self)
        else do {
          (p, c, h) \<leftarrow> msg_ptr_malloc (d_cba self) (d_heap self) msg_len;
          let self = self\<lparr>d_cba := c, d_heap := h\<rparr>;
          case p of
            None \<Rightarrow> Some (DART_ERR_NO_MEMORY, self)
          | Some q \<Rightarrow>
              if length msg < msg_len then None
              else do {
                h \<leftarrow> msg_write c h q (take msg_len msg);
                let h = h(q := (h q)\<lparr>msg_length := msg_len\<rparr>);
                (r, h, queue) \<leftarrow> dart_queue_push (self\<lparr>d_heap := h\<rparr>) prio q;
                dart_trigger_transfer env (self\<lparr>d_heap := h, d_queue := queue\<rparr>) } } })"

definition dart_send_msgtype_ex :: "'w dart_env \<Rightarrow> 'w dart \<Rightarrow> nat \<Rightarrow> u8 \<Rightarrow> (dart_status \<times> 'w dart) option" where
  "dart_send_msgtype_ex env self prio msgtype = dart_send_msg_ex env self prio [msgtype] sizeof_msg"

definition dart_send_msg :: "'w dart_env \<Rightarrow> 'w dart \<Rightarrow> u8 list \<Rightarrow> nat \<Rightarrow> (dart_status \<times> 'w dart) option" where
  "dart_send_msg env self msg msg_len = dart_send_msg_ex env self MSG_PRIO_ANY msg msg_len"

definition dart_send_msgtype :: "'w dart_env \<Rightarrow> 'w dart \<Rightarrow> u8 \<Rightarrow> (dart_status \<times> 'w dart) option" where
  "dart_send_msgtype env self msgtype = dart_send_msgtype_ex env self MSG_PRIO_ANY msgtype"

end
