(* ===== verification/Mx_DartSafe.thy ===== *)
theory Mx_DartSafe
  imports Mx_Dart
begin

unbundle bit_operations_syntax

text \<open>
  The invariant of the DART engine, and the proof that no handler runs into undefined behaviour:
  it never frees a message twice, follows a null list head, reads a message behind its chunk or one
  that is released, or writes outside the receive buffer, whatever the opponent sends and whatever the application does in its callbacks, as long as the
  callbacks keep the invariant themselves.
\<close>

section \<open>Invariant\<close>

text \<open>The messages of \<open>H\<close> lie in their chunks with all the bytes their field \<open>length\<close> announces.\<close>

definition msgs_held :: "cba \<Rightarrow> msg_heap \<Rightarrow> nat set \<Rightarrow> bool" where
  "msgs_held c h H \<longleftrightarrow> (\<forall>p\<in>H. msg_in_chunk c p (sizeof_msg_ptr - sizeof_msg + msg_length (h p)))"

lemma msgs_held_mono: "msgs_held c h H \<Longrightarrow> H' \<subseteq> H \<Longrightarrow> msgs_held c h H'"
  by (auto simp: msgs_held_def)

lemma msgs_held_simps [simp]:
  "msgs_held c h {}" "msgs_held c h {p} \<longleftrightarrow> msg_in_chunk c p (sizeof_msg_ptr - sizeof_msg + msg_length (h p))"
  by (simp_all add: msgs_held_def)

lemma msgs_held_reads:
  assumes "msgs_held c h H" "p \<in> H"
  shows "msg_get_length c h p = Some (msg_length (h p))" "msg_get_type c h p = Some (msg_type (h p))"
    "n \<le> msg_length (h p) \<Longrightarrow> msg_read c h p n = Some (map (msg_bytes (h p)) [0..<n])"
    "msg_link_ok c (Some p)"
  using assms by (auto simp: msgs_held_def msg_get_length_def msg_get_type_def msg_read_def msg_link_ok_def
      elim!: msg_in_chunk_mono dest!: bspec)

lemma msgs_held_free:
  assumes "cba_pool.owns c H" "msgs_held c h H" "p \<in> H" "cba_free c (Some p) = Some c'"
  shows "msgs_held c' h (H - {p})"
  using assms msg_in_chunk_free [of c p c'] unfolding msgs_held_def cba_pool.owns_def by blast

text \<open>The queue holds \<open>a\<close>; its messages and the pending request are chunks the module owns, each as
  long as its message needs; the pending request is not queued any more, and a transfer is that of
  the head of a list.\<close>

definition dart_mem :: "'w dart \<Rightarrow> prio_queue \<Rightarrow> bool" where
  "dart_mem self a \<longleftrightarrow>
     cba_pool.owns (d_cba self) (pq_members a \<union> set_option (pending_request self)) \<and>
     msgs_held (d_cba self) (d_heap self) (pq_members a \<union> set_option (pending_request self)) \<and>
     queue_repr (d_heap self) (d_queue self) a \<and>
     (\<forall>p. pending_request self = Some p \<longrightarrow> p \<notin> pq_members a) \<and>
     (\<forall>l. transfering self = Some l \<longrightarrow> l < MSG_PRIO_LENGTH \<and> a (prio_of l) \<noteq> [])"

text \<open>The receive buffer is the same object and holds no more bytes than before.\<close>

definition rx_le :: "'w dart \<Rightarrow> 'w dart \<Rightarrow> bool" where
  "rx_le s b \<longleftrightarrow> length (rx_buffer s) = length (rx_buffer b) \<and> rx_buffer_size s = rx_buffer_size b \<and>
     rx_buffer_bytes s \<le> rx_buffer_bytes b"

definition okS :: "'w dart \<Rightarrow> 'w dart option \<Rightarrow> bool" where
  "okS b r \<longleftrightarrow> (\<exists>s a. r = Some s \<and> dart_mem s a \<and> rx_le s b)"

definition okP :: "'w dart \<Rightarrow> ('x \<times> 'w dart) option \<Rightarrow> bool" where
  "okP b r \<longleftrightarrow> (\<exists>x s a. r = Some (x, s) \<and> dart_mem s a \<and> rx_le s b)"

text \<open>The environment: the callbacks are defined and keep the invariant. They may send messages, reset
  the module, exchange its callbacks; they may not receive bytes from within. A deferred message
  callback that declines leaves the messages where they are, since the code goes on to read the one it
  was called for.\<close>

definition env_ok :: "'w dart_env \<Rightarrow> bool" where
  "env_ok env \<longleftrightarrow> dart_config_ok (dart_cfg env) \<and>
     (\<forall>f pr code m n self a. dart_mem self a \<longrightarrow> okS self (callback_fn env f pr code m n self)) \<and>
     (\<forall>f t self a. dart_mem self a \<longrightarrow> (\<exists>x self' a'. deferred_fn env f t self = Some (x, self') \<and>
        dart_mem self' a' \<and> rx_le self' self \<and> (\<not> x \<longrightarrow> pq_members a \<subseteq> pq_members a')))"

lemma rx_le_refl [simp]: "rx_le s s"
  by (simp add: rx_le_def)

lemma rx_le_trans: "rx_le s t \<Longrightarrow> rx_le t b \<Longrightarrow> rx_le s b"
  by (simp add: rx_le_def)

lemma okS_Some: "dart_mem s a \<Longrightarrow> rx_le s b \<Longrightarrow> okS b (Some s)"
  by (auto simp: okS_def)

lemma okP_Some: "dart_mem s a \<Longrightarrow> rx_le s b \<Longrightarrow> okP b (Some (x, s))"
  by (auto simp: okP_def)

lemma okS_mono: "okS s r \<Longrightarrow> rx_le s b \<Longrightarrow> okS b r"
  by (auto simp: okS_def intro: rx_le_trans)

lemma okP_mono: "okP s r \<Longrightarrow> rx_le s b \<Longrightarrow> okP b r"
  by (auto simp: okP_def intro: rx_le_trans)

lemma okS_bind: "okS b r \<Longrightarrow> (\<And>s a. dart_mem s a \<Longrightarrow> rx_le s b \<Longrightarrow> okS b (f s)) \<Longrightarrow> okS b (Option.bind r f)"
  by (auto simp: okS_def)

lemma okS_bindP: "okP b r \<Longrightarrow> (\<And>x s a. dart_mem s a \<Longrightarrow> rx_le s b \<Longrightarrow> okS b (f (x, s))) \<Longrightarrow> okS b (Option.bind r f)"
  by (auto simp: okS_def okP_def)

lemma okP_bind: "okS b r \<Longrightarrow> (\<And>s a. dart_mem s a \<Longrightarrow> rx_le s b \<Longrightarrow> okP b (f s)) \<Longrightarrow> okP b (Option.bind r f)"
  by (auto simp: okS_def okP_def)

lemma okP_bindP: "okP b r \<Longrightarrow> (\<And>x s a. dart_mem s a \<Longrightarrow> rx_le s b \<Longrightarrow> okP b (f (x, s))) \<Longrightarrow> okP b (Option.bind r f)"
  by (auto simp: okP_def)

lemma okS_snd: "okP b r \<Longrightarrow> okS b (map_option snd r)"
  by (auto simp: okS_def okP_def)

text \<open>The fields the invariant does not look at.\<close>

lemma dart_mem_frame [simp, frame]:
  "dart_mem (s\<lparr>wakeup_timer := t\<rparr>) a = dart_mem s a" "dart_mem (s\<lparr>wakeup_attempts := u\<rparr>) a = dart_mem s a"
  "dart_mem (s\<lparr>tx_ack_timer := t\<rparr>) a = dart_mem s a" "dart_mem (s\<lparr>tx_response_timer := t\<rparr>) a = dart_mem s a"
  "dart_mem (s\<lparr>tx_attempts := u\<rparr>) a = dart_mem s a" "dart_mem (s\<lparr>rx_buffer := bs\<rparr>) a = dart_mem s a"
  "dart_mem (s\<lparr>rx_buffer_bytes := n\<rparr>) a = dart_mem s a" "dart_mem (s\<lparr>rx_byte_timer := t\<rparr>) a = dart_mem s a"
  "dart_mem (s\<lparr>closing_timer := t\<rparr>) a = dart_mem s a" "dart_mem (s\<lparr>d_world := w\<rparr>) a = dart_mem s a"
  by (simp_all add: dart_mem_def)

lemma rx_le_frame [simp, frame]:
  "rx_le (s\<lparr>wakeup_timer := t\<rparr>) b = rx_le s b" "rx_le (s\<lparr>wakeup_attempts := u\<rparr>) b = rx_le s b"
  "rx_le (s\<lparr>tx_ack_timer := t\<rparr>) b = rx_le s b" "rx_le (s\<lparr>tx_response_timer := t\<rparr>) b = rx_le s b"
  "rx_le (s\<lparr>tx_attempts := u\<rparr>) b = rx_le s b" "rx_le (s\<lparr>rx_byte_timer := t\<rparr>) b = rx_le s b"
  "rx_le (s\<lparr>closing_timer := t\<rparr>) b = rx_le s b" "rx_le (s\<lparr>d_world := w\<rparr>) b = rx_le s b"
  "rx_le (s\<lparr>d_cba := c\<rparr>) b = rx_le s b" "rx_le (s\<lparr>d_heap := h\<rparr>) b = rx_le s b"
  "rx_le (s\<lparr>d_queue := q\<rparr>) b = rx_le s b" "rx_le (s\<lparr>pending_request := p\<rparr>) b = rx_le s b"
  "rx_le (s\<lparr>transfering := l\<rparr>) b = rx_le s b"
  by (simp_all add: rx_le_def)

lemma pin_get_frame [simp, frame]:
  "dart_mem (snd (dart_pin_get_state env p s)) a = dart_mem s a"
  "rx_le (snd (dart_pin_get_state env p s)) b = rx_le s b"
  by (simp_all add: dart_pin_get_state_def split: prod.splits)

lemma pin_set_frame [simp, frame]:
  "dart_mem (dart_pin_set_state env p v s) a = dart_mem s a"
  "rx_le (dart_pin_set_state env p v s) b = rx_le s b"
  by (simp_all add: dart_pin_set_state_def)

lemma push_frame_free [simp, frame]:
  "dart_mem (dart_push env s bs) a = dart_mem s a" "rx_le (dart_push env s bs) b = rx_le s b"
  "dart_mem (dart_push_byte env s c) a = dart_mem s a" "rx_le (dart_push_byte env s c) b = rx_le s b"
  by (simp_all add: dart_push_def dart_push_byte_def)

section \<open>The queue under the invariant\<close>

lemma prio_index_of [simp]: "l < MSG_PRIO_LENGTH \<Longrightarrow> prio_index (prio_of l) = l"
  by (auto simp: prio_of_def prio_index.simps)

lemma dart_memD:
  assumes "dart_mem s a"
  shows "queue_repr (d_heap s) (d_queue s) a"
    "cba_pool.owns (d_cba s) (pq_members a \<union> set_option (pending_request s))"
    "pending_request s = Some p \<Longrightarrow> p \<notin> pq_members a"
    "transfering s = Some l \<Longrightarrow> l < MSG_PRIO_LENGTH \<and> a (prio_of l) \<noteq> []"
    "msgs_held (d_cba s) (d_heap s) (pq_members a \<union> set_option (pending_request s))"
  using assms by (auto simp: dart_mem_def)

text \<open>Reads of a queued message and of the pending request are inside of their chunks.\<close>

lemma dart_mem_reads:
  assumes "dart_mem s a" "p \<in> pq_members a \<or> pending_request s = Some p"
  shows "msg_get_length (d_cba s) (d_heap s) p = Some (msg_length (d_heap s p))"
    "msg_get_type (d_cba s) (d_heap s) p = Some (msg_type (d_heap s p))"
    "n \<le> msg_length (d_heap s p) \<Longrightarrow> msg_read (d_cba s) (d_heap s) p n = Some (map (msg_bytes (d_heap s p)) [0..<n])"
    "msg_link_ok (d_cba s) (Some p)"
  using msgs_held_reads [OF dart_memD(5) [OF assms(1)], of p] assms(2) by auto

lemma dart_mem_peek:
  "dart_mem s a \<Longrightarrow> l < MSG_PRIO_LENGTH \<Longrightarrow>
   msg_list_peek (list_prio (d_queue s) l) = (case a (prio_of l) of [] \<Rightarrow> None | x # _ \<Rightarrow> Some x)"
  using queue_repr_peek_list [of "d_heap s" "d_queue s" a "prio_of l"] by (simp add: dart_mem_def)

lemma queue_repr_length:
  assumes "queue_repr h q a"
  shows "msg_list_length (list_prio q (prio_index p)) = length (a p)"
proof -
  from mlist.family_repr [OF assms [unfolded queue_repr_def] prio_index_less [of p]]
  have "list_repr h (list_prio q (prio_index p)) (a p)" by simp
  then show ?thesis by (rule mlist.len_repr)
qed

lemma queue_repr_disjoint: "queue_repr h q a \<Longrightarrow> p \<noteq> p' \<Longrightarrow> set (a p) \<inter> set (a p') = {}"
  using prio_index_less [of p] prio_index_less [of p']
  unfolding queue_repr_def mlist.family_def by (metis prio_of_index)

lemma queue_repr_distinct: "queue_repr h q a \<Longrightarrow> distinct (a p)"
  using mlist.family_repr [of MSG_PRIO_LENGTH h "list_prio q" "\<lambda>i. a (prio_of i)" "prio_index p"] mlist.repr_distinct
  by (fastforce simp: queue_repr_def)

lemma pq_members_iff: "x \<in> pq_members a \<longleftrightarrow> (\<exists>p. x \<in> set (a p))"
  by (auto simp: pq_members_def) (metis msg_prio.exhaust)

text \<open>Taking the head off a list takes exactly that message out of the members.\<close>

lemma pq_members_pop:
  assumes "queue_repr h q a" "a p = x # xs"
  shows "pq_members (a(p := xs)) = pq_members a - {x}"
proof -
  have x: "x \<notin> set xs" using queue_repr_distinct [OF assms(1), of p] assms(2) by simp
  have o: "x \<notin> set (a p')" if "p' \<noteq> p" for p'
    using queue_repr_disjoint [OF assms(1) that] assms(2) by auto
  show ?thesis
  proof (rule set_eqI)
    fix y
    have "(\<exists>p'. y \<in> set ((a(p := xs)) p')) \<longleftrightarrow> y \<in> set xs \<or> (\<exists>p'. p' \<noteq> p \<and> y \<in> set (a p'))" by auto
    also have "\<dots> \<longleftrightarrow> (\<exists>p'. y \<in> set (a p')) \<and> y \<noteq> x" using x o assms(2) by (metis list.set_intros(2) set_ConsD)
    finally show "y \<in> pq_members (a(p := xs)) \<longleftrightarrow> y \<in> pq_members a - {x}" by (simp add: pq_members_iff)
  qed
qed

lemma pq_members_head: "a p = x # xs \<Longrightarrow> x \<in> pq_members a"
  by (auto simp: pq_members_iff) (metis list.set_intros(1))

lemma dart_mem_list: "dart_mem s a \<Longrightarrow> l < MSG_PRIO_LENGTH \<Longrightarrow> list_repr (d_heap s) (list_prio (d_queue s) l) (a (prio_of l))"
  using mlist.family_repr [of MSG_PRIO_LENGTH "d_heap s" "list_prio (d_queue s)" "\<lambda>i. a (prio_of i)" l]
  by (simp add: dart_mem_def queue_repr_def)

lemma dart_mem_pop:
  assumes mem: "dart_mem s a" and l: "l < MSG_PRIO_LENGTH" "a (prio_of l) = x # xs"
  shows "\<exists>l'. dart_list_pop s l = Some (Some x, l') \<and>
    queue_repr (d_heap s) (set_list (d_queue s) l l') (a(prio_of l := xs))"
proof -
  have "msg_link_ok (d_cba s) (msg_head (list_prio (d_queue s) l))"
    using dart_mem_peek [OF mem l(1)] l(2) dart_mem_reads(4) [OF mem disjI1 [OF pq_members_head [of a, OF l(2)]]]
    by (simp add: msg_list_peek_def)
  then show ?thesis
    using queue_repr_nonempty [OF dart_memD(1) [OF mem] l(2)] l(1) by (auto simp: dart_list_pop_def)
qed

text \<open>Which list the next transfer takes its message from.\<close>

definition may_send :: "'w dart \<Rightarrow> prio_queue \<Rightarrow> nat \<Rightarrow> bool" where
  "may_send s a l \<longleftrightarrow> a (prio_of l) \<noteq> [] \<and>
     \<not> (pending_request s \<noteq> None \<and> msg_type (d_heap s (hd (a (prio_of l)))) AND MSG_TYPE_MASK = MSG_REQUEST)"

lemma dart_find_loop_ok:
  assumes mem: "dart_mem s a"
  shows "set is \<subseteq> {..<MSG_PRIO_LENGTH} \<Longrightarrow> dart_find_loop s is = Some (find (may_send s a) is)"
proof (induction "is")
  case (Cons i "is")
  then have i: "i < MSG_PRIO_LENGTH" by simp
  then have list: "msg_queue_get_msg_list (d_queue s) i = Some i" by (simp add: msg_queue_get_msg_list_def)
  have len: "msg_list_length (list_prio (d_queue s) i) = length (a (prio_of i))"
    using queue_repr_length [OF dart_memD(1) [OF mem], of "prio_of i"] i by simp
  show ?case
  proof (cases "a (prio_of i)")
    case Nil
    with Cons i list len show ?thesis by (simp add: may_send_def)
  next
    case (Cons x xs)
    with dart_mem_reads(2) [OF mem disjI1 [OF pq_members_head]]
    have "msg_get_type (d_cba s) (d_heap s) x = Some (msg_type (d_heap s x))" by blast
    with Cons Cons.IH Cons.prems i list len dart_mem_peek [OF mem i] show ?thesis
      by (auto simp: may_send_def)
  qed
qed simp

lemma dart_find_next_ok:
  "dart_mem s a \<Longrightarrow> dart_find_next_message_queue s = Some (find (may_send s a) [0..<MSG_PRIO_LENGTH])"
  unfolding dart_find_next_message_queue_def by (rule dart_find_loop_ok) auto

lemma find_may_send: "find (may_send s a) [0..<MSG_PRIO_LENGTH] = Some l \<Longrightarrow> l < MSG_PRIO_LENGTH \<and> may_send s a l"
  using find_Some_iff [of "may_send s a" "[0..<MSG_PRIO_LENGTH]" l] by (auto simp: nth_append)

section \<open>Every handler keeps the invariant\<close>

lemma callback_ok:
  assumes "env_ok env" "dart_mem s a" "rx_le s b"
  shows "okS b (dart_callback env s code m n)"
proof (cases "d_callback s")
  case None
  with assms show ?thesis by (simp add: dart_callback_def okS_Some)
next
  case (Some f)
  from assms(1,2) have "okS s (callback_fn env f (callback_private s) code m n s)" unfolding env_ok_def by blast
  with Some assms(3) show ?thesis by (simp add: dart_callback_def okS_mono)
qed

lemma deferred_ok:
  assumes "env_ok env" "dart_mem s a" "rx_le s b" "p \<in> pq_members a"
  shows "\<exists>x s' a'. dart_deferred_msg_callback env s p = Some (x, s') \<and> dart_mem s' a' \<and> rx_le s' b \<and>
    (\<not> x \<longrightarrow> p \<in> pq_members a')"
proof (cases "d_deferred s")
  case None
  with assms show ?thesis by (auto simp: dart_deferred_msg_callback_def)
next
  case (Some f)
  from assms(1,2) obtain x s' a' where f: "deferred_fn env f (msg_type (d_heap s p)) s = Some (x, s')"
    "dart_mem s' a'" "rx_le s' s" "\<not> x \<longrightarrow> pq_members a \<subseteq> pq_members a'" unfolding env_ok_def by blast
  from f(1) Some dart_mem_reads(2) [OF assms(2) disjI1 [OF assms(4)]]
  have "dart_deferred_msg_callback env s p = Some (x, s')" by (simp add: dart_deferred_msg_callback_def)
  moreover have "\<not> x \<longrightarrow> p \<in> pq_members a'" using f(4) assms(4) by blast
  ultimately show ?thesis using f(2) rx_le_trans [OF f(3) assms(3)] by blast
qed

lemma dart_len_idem [simp]: "dart_len cfg (dart_len cfg n) = dart_len cfg n"
  by (simp add: dart_len_def)

lemma push_frame_ok:
  assumes "env_ok env" "dart_mem s a" "rx_le s b" "dart_len (dart_cfg env) n \<le> length data"
  shows "okP b (dart_push_frame env s data n)"
proof -
  let ?n = "dart_len (dart_cfg env) n"
  have "dart_compose_frame (dart_cfg env) (replicate (DART_FRAME_BYTES (dart_cfg env) ?n) 0) data ?n =
      Some (frame (dart_cfg env) (take ?n data))"
    by (rule dart_compose_frame_ok) (use assms in \<open>simp_all add: env_ok_def\<close>)
  with assms show ?thesis by (simp add: dart_push_frame_def okP_Some)
qed

lemma dart_len_le: "dart_len cfg n \<le> n"
  by (simp add: dart_len_def)

lemma transfer_msg_ok:
  assumes env: "env_ok env" and s: "dart_mem s a" "rx_le s b" and p: "p \<in> pq_members a"
  shows "okP b (dart_transfer_msg env s p)"
proof -
  obtain x s1 a1 where d: "(if msg_length (d_heap s p) = sizeof_msg
        then dart_deferred_msg_callback env s p else Some (False, s)) = Some (x, s1)"
    and s1: "dart_mem s1 a1" "rx_le s1 b" "\<not> x \<longrightarrow> p \<in> pq_members a1"
  proof (cases "msg_length (d_heap s p) = sizeof_msg")
    case True
    with deferred_ok [OF env s p] that show ?thesis by auto
  next
    case False
    with s p that show ?thesis by simp
  qed
  have "okS b (if \<not> x then do {
          msg_len \<leftarrow> msg_get_length (d_cba s1) (d_heap s1) p;
          let len = dart_len (dart_cfg env) msg_len;
          data \<leftarrow> msg_read (d_cba s1) (d_heap s1) p len;
          (status, self) \<leftarrow> dart_push_frame env s1 data len;
          Some self } else Some s1)"
  proof (cases x)
    case False
    with s1(3) have p1: "p \<in> pq_members a1 \<or> pending_request s1 = Some p" by simp
    note reads = dart_mem_reads(1) [OF s1(1) p1] dart_mem_reads(3) [OF s1(1) p1 dart_len_le [of "dart_cfg env"]]
    show ?thesis unfolding Let_def
      using False by (simp add: reads) (auto intro!: okS_bindP [OF push_frame_ok [OF env s1(1,2)]] intro: okS_Some)
  qed (use s1 in \<open>simp add: okS_Some\<close>)
  then have "okP b (do { self \<leftarrow> (if \<not> x then do {
          msg_len \<leftarrow> msg_get_length (d_cba s1) (d_heap s1) p;
          let len = dart_len (dart_cfg env) msg_len;
          data \<leftarrow> msg_read (d_cba s1) (d_heap s1) p len;
          (status, self) \<leftarrow> dart_push_frame env s1 data len;
          Some self } else Some s1);
     Some (DART_SUCCESS, self\<lparr>tx_ack_timer := timer_start (d_clock self) TIMER_MS DART_ACK_TIMER_VAL\<rparr>) })"
    by (rule okP_bind) (simp add: okP_Some)
  then show ?thesis
    unfolding dart_transfer_msg_def dart_mem_reads(1) [OF s(1) disjI1 [OF p]] bind.bind_lunit d case_prod_conv .
qed

lemma wake_up_ok:
  assumes env: "env_ok env" and s: "dart_mem s a" "rx_le s b"
  shows "okP b (dart_wake_up env s)"
proof -
  obtain wrk s1 where g: "dart_pin_get_state env DART_WRK_PIN s = (wrk, s1)" by fastforce
  with pin_get_frame [of env DART_WRK_PIN s] s have s1: "dart_mem s1 a" "rx_le s1 b" by simp_all
  have "okS b (dart_callback env (s1\<lparr>wakeup_attempts := 0\<rparr>) DART_CLBK_TRANSFER_IMPOSSIBLE NoMsg 0)"
    by (rule callback_ok [OF env]) (use s1 in simp_all)
  then show ?thesis unfolding dart_wake_up_def g Let_def using s1
    by (auto intro!: okP_bind intro: okP_Some)
qed

lemma dart_mem_transfering [simp]:
  "dart_mem s a \<Longrightarrow> dart_mem (s\<lparr>transfering := None\<rparr>) a"
  "dart_mem s a \<Longrightarrow> l < MSG_PRIO_LENGTH \<Longrightarrow> a (prio_of l) \<noteq> [] \<Longrightarrow> dart_mem (s\<lparr>transfering := Some l\<rparr>) a"
  by (simp_all add: dart_mem_def)

lemma start_transfer_ok:
  assumes env: "env_ok env" and s: "dart_mem s a" "rx_le s b"
  shows "okP b (dart_start_transfer env s)"
proof (cases "find (may_send s a) [0..<MSG_PRIO_LENGTH]")
  case None
  have "dart_mem (s\<lparr>transfering := None\<rparr>) a" "rx_le (s\<lparr>transfering := None\<rparr>) b"
    using s by simp_all
  with dart_find_next_ok [OF s(1)] None show ?thesis by (simp add: dart_start_transfer_def okP_Some)
next
  case (Some l)
  from find_may_send [OF Some] have l: "l < MSG_PRIO_LENGTH" "a (prio_of l) \<noteq> []" by (simp_all add: may_send_def)
  then obtain x xs where x: "a (prio_of l) = x # xs" by (cases "a (prio_of l)") auto
  let ?s = "s\<lparr>transfering := Some l, tx_attempts := 0, wakeup_attempts := 0, closing_timer := timer_stop, wakeup_timer := timer_stop\<rparr>"
  have "okP b (dart_transfer_msg env ?s x)"
    using s l pq_members_head [of a, OF x] by (intro transfer_msg_ok [OF env, of _ a]) simp_all
  with Some dart_find_next_ok [OF s(1)] dart_mem_peek [OF s(1) l(1)] x show ?thesis
    by (simp add: dart_start_transfer_def)
qed

lemma trigger_transfer_ok:
  assumes env: "env_ok env" and s: "dart_mem s a" "rx_le s b"
  shows "okP b (dart_trigger_transfer env s)"
proof (cases "transfering s = None")
  case False
  with s show ?thesis by (simp add: dart_trigger_transfer_def okP_Some)
next
  case True
  have rest: "okP b (case dart_pin_get_state env DART_RDY_PIN s1 of (rdy, self) \<Rightarrow>
            if \<not> rdy then do {
              self \<leftarrow> dart_callback env self DART_CLBK_WAITING NoMsg 0;
              Some (DART_WAITING, self) }
            else dart_start_transfer env self)" if "dart_mem s1 a1" "rx_le s1 b" for s1 a1
  proof -
    obtain rdy s2 where g: "dart_pin_get_state env DART_RDY_PIN s1 = (rdy, s2)" by fastforce
    with pin_get_frame [of env DART_RDY_PIN s1] that have s2: "dart_mem s2 a1" "rx_le s2 b" by simp_all
    then show ?thesis unfolding g Let_def
      by (auto intro!: okP_bind [OF callback_ok [OF env]] start_transfer_ok [OF env] intro: okP_Some)
  qed
  have "okP b (case early of Some status \<Rightarrow> Some (status, s1)
        | None \<Rightarrow> (case dart_pin_get_state env DART_RDY_PIN s1 of (rdy, self) \<Rightarrow>
            if \<not> rdy then do {
              self \<leftarrow> dart_callback env self DART_CLBK_WAITING NoMsg 0;
              Some (DART_WAITING, self) }
            else dart_start_transfer env self))" if "dart_mem s1 a1" "rx_le s1 b" for early s1 a1
    using rest [OF that] okP_Some [OF that] by (cases early) auto
  then show ?thesis unfolding dart_trigger_transfer_def Let_def using True
    by (auto intro!: okP_bindP [OF wake_up_ok [OF env s]])
qed

lemma trigger_next_ok:
  assumes env: "env_ok env" and s: "dart_mem s a" "rx_le s b"
  shows "okS b (dart_trigger_next_transfer env s)"
  unfolding dart_trigger_next_transfer_def
  by (auto intro!: okS_bindP [OF trigger_transfer_ok [OF env s]] callback_ok [OF env] intro: okS_Some)


lemma finalize_transfer_ok:
  assumes s: "dart_mem s a" "rx_le s b"
  shows "okS b (dart_finalize_transfer s)"
proof (cases "transfering s")
  case None
  with s show ?thesis by (simp add: dart_finalize_transfer_def okS_Some)
next
  case (Some l)
  with dart_memD(4) [OF s(1)] obtain x xs where l: "l < MSG_PRIO_LENGTH" and x: "a (prio_of l) = x # xs"
    by (metis neq_Nil_conv)
  from dart_mem_pop [OF s(1) l x] obtain l' where
    pop: "dart_list_pop s l = Some (Some x, l')"
    "queue_repr (d_heap s) (set_list (d_queue s) l l') (a(prio_of l := xs))" by blast
  note mem = pq_members_pop [OF dart_memD(1) [OF s(1)] x]
  from x have "x \<in> pq_members a" by (auto simp: pq_members_iff) (metis list.set_intros(1))
  then have x_in: "x \<in> pq_members a \<union> set_option (pending_request s)" by simp
  from cba_pool.owns_free [OF dart_memD(2) [OF s(1)] x_in] obtain c where
    c: "cba_free (d_cba s) (Some x) = Some c"
    "cba_pool.owns c (pq_members a \<union> set_option (pending_request s) - {x})" by blast
  from dart_memD(3) [OF s(1)] \<open>x \<in> pq_members a\<close> have "x \<notin> set_option (pending_request s)" by auto
  then have "pq_members a \<union> set_option (pending_request s) - {x} =
      pq_members (a(prio_of l := xs)) \<union> set_option (pending_request s)" unfolding mem by blast
  with c(2) msgs_held_free [OF dart_memD(2,5) [OF s(1)] x_in c(1)] pop(2) dart_memD(3) [OF s(1)] have
    "dart_mem (s\<lparr>d_queue := set_list (d_queue s) l l', d_cba := c, transfering := None\<rparr>) (a(prio_of l := xs))"
    by (simp add: dart_mem_def mem)
  from okS_Some [OF this, of b] show ?thesis using s Some pop(1) c(1)
    by (simp add: dart_finalize_transfer_def msg_ptr_free_def)
qed

lemma retry_ok:
  assumes env: "env_ok env" and s: "dart_mem s a" "rx_le s b"
  shows "okS b (dart_retry_transfer env s)"
proof (cases "transfering s")
  case None
  with s show ?thesis by (simp add: dart_retry_transfer_def okS_Some)
next
  case (Some l)
  with dart_memD(4) [OF s(1)] obtain x xs where l: "l < MSG_PRIO_LENGTH" and x: "a (prio_of l) = x # xs"
    by (metis neq_Nil_conv)
  let ?s = "s\<lparr>tx_ack_timer := timer_stop, tx_attempts := tx_attempts s + 1\<rparr>"
  have s': "dart_mem ?s a" "rx_le ?s b" using s by simp_all
  have again: "okS b (do { (status, self) \<leftarrow> dart_transfer_msg env ?s x; Some self })"
    by (rule okS_bindP [OF transfer_msg_ok [OF env s' pq_members_head [of a, OF x]]]) (simp add: okS_Some)
  have give_up: "okS b (do { self \<leftarrow> dart_callback env ?s DART_CLBK_TRANSFER_FAILURE (PoolMsg x) n;
                    self \<leftarrow> dart_finalize_transfer self;
                    dart_trigger_next_transfer env self })" for n
    by (auto intro!: okS_bind [OF callback_ok [OF env s']] okS_bind [OF finalize_transfer_ok] trigger_next_ok [OF env])
  from again give_up Some dart_mem_peek [OF s(1) l] x dart_mem_reads(1) [OF s(1) disjI1 [OF pq_members_head [of a, OF x]]]
  show ?thesis by (simp add: dart_retry_transfer_def Let_def)
qed

lemma acknowledge_ok:
  assumes env: "env_ok env" and s: "dart_mem s a" "rx_le s b"
  shows "okS b (dart_acknowledge_msg env s)"
proof (cases "transfering s")
  case None
  with s show ?thesis by (simp add: dart_acknowledge_msg_def okS_Some)
next
  case (Some l)
  with dart_memD(4) [OF s(1)] obtain x xs where l: "l < MSG_PRIO_LENGTH" and x: "a (prio_of l) = x # xs"
    by (metis neq_Nil_conv)
  from dart_mem_pop [OF s(1) l x] obtain l' where
    pop: "dart_list_pop s l = Some (Some x, l')"
    "queue_repr (d_heap s) (set_list (d_queue s) l l') (a(prio_of l := xs))" by blast
  note mem = pq_members_pop [OF dart_memD(1) [OF s(1)] x]
  let ?r = "s\<lparr>tx_ack_timer := timer_stop, tx_response_timer := timer_start (d_clock s) TIMER_MS DART_RESPONSE_TIMER_VAL,
      d_queue := set_list (d_queue s) l l', pending_request := Some x, transfering := None\<rparr>"
  from x have "x \<in> pq_members a" by (auto simp: pq_members_iff) (metis list.set_intros(1))
  then have "pq_members (a(prio_of l := xs)) \<union> {x} \<subseteq> pq_members a \<union> set_option (pending_request s)"
    unfolding mem by blast
  from cba_pool.owns_mono [OF dart_memD(2) [OF s(1)] this] msgs_held_mono [OF dart_memD(5) [OF s(1)] this] pop(2)
  have "dart_mem ?r (a(prio_of l := xs))" by (simp add: dart_mem_def mem)
  then have req: "okS b (Some ?r)" by (rule okS_Some) (use s in simp)
  have rep: "okS b (dart_callback env (s\<lparr>tx_ack_timer := timer_stop\<rparr>) DART_CLBK_TRANSFER_DONE (PoolMsg x) (msg_length (d_heap s x)))"
    by (rule callback_ok [OF env]) (use s in simp_all)
  have tail: "okS b (Option.bind r (\<lambda>self. do { self \<leftarrow> dart_finalize_transfer self; dart_trigger_next_transfer env self }))"
    if "okS b r" for r
    by (auto intro!: okS_bind [OF that] okS_bind [OF finalize_transfer_ok] trigger_next_ok [OF env])
  have pop': "dart_list_pop (s\<lparr>tx_ack_timer := t, tx_response_timer := u\<rparr>) l = Some (Some x, l')" for t u
    using pop(1) by (simp add: dart_list_pop_def split: if_splits)
  from tail [OF req] tail [OF rep] Some dart_mem_peek [OF s(1) l] x pop'
    dart_mem_reads(1,2) [OF s(1) disjI1 [OF pq_members_head [of a, OF x]]] show ?thesis
    by (simp add: dart_acknowledge_msg_def Let_def)
qed

lemma finalize_request_ok:
  assumes env: "env_ok env" and s: "dart_mem s a" "rx_le s b"
  shows "okS b (dart_finalize_request_msg env s)"
proof -
  have "\<exists>c. cba_free (d_cba s) (pending_request s) = Some c \<and> cba_pool.owns c (pq_members a) \<and> msgs_held c (d_heap s) (pq_members a)"
  proof (cases "pending_request s")
    case None
    with dart_memD(2,5) [OF s(1)] cba_pool.free_null show ?thesis by simp
  next
    case (Some p)
    with cba_pool.owns_free [OF dart_memD(2) [OF s(1)], of p] obtain c where
      "cba_free (d_cba s) (Some p) = Some c" "cba_pool.owns c (pq_members a \<union> {p} - {p})" by auto
    with msgs_held_free [OF dart_memD(2,5) [OF s(1)], of p] dart_memD(3) [OF s(1) Some] Some show ?thesis by auto
  qed
  then obtain c where c: "cba_free (d_cba s) (pending_request s) = Some c" "cba_pool.owns c (pq_members a)"
    "msgs_held c (d_heap s) (pq_members a)" by blast
  have "okS b (dart_trigger_next_transfer env (s\<lparr>tx_response_timer := timer_stop, d_cba := c, pending_request := None\<rparr>))"
    by (rule trigger_next_ok [OF env, of _ a]) (use s c in \<open>simp_all add: dart_mem_def\<close>)
  with c(1) show ?thesis by (simp add: dart_finalize_request_msg_def)
qed

lemma abandon_ok:
  assumes env: "env_ok env" and s: "dart_mem s a" "rx_le s b"
  shows "okS b (dart_abandon_request_msg env s)"
  using s by (auto simp: dart_abandon_request_msg_def okS_Some dart_mem_reads(1) [OF s(1) disjI2] split: option.splits
      intro!: okS_bind [OF callback_ok [OF env]] finalize_request_ok [OF env])

lemma received_msg_ok:
  assumes env: "env_ok env" and s: "dart_mem s a" "rx_le s b"
    and data: "DART_DATA_IDX (dart_cfg env) < length (rx_buffer s)"
  shows "okS b (dart_handle_received_msg env s n)"
proof -
  have "okS b (case pending_request s1 of None \<Rightarrow> Some s1
     | Some p \<Rightarrow> if t AND MSG_TYPE_MASK \<noteq> MSG_RESPONSE then Some s1
         else do {
           ty \<leftarrow> msg_get_type (d_cba s1) (d_heap s1) p;
           if ty AND MSG_ID_MASK \<noteq> t AND MSG_ID_MASK then Some s1
           else do { self \<leftarrow> dart_callback env s1 DART_CLBK_TRANSFER_DONE (PoolMsg p) n;
                     dart_finalize_request_msg env self } })"
    if s1: "dart_mem s1 a1" "rx_le s1 b" for s1 a1 t
    using okS_Some [OF s1] okS_bind [OF callback_ok [OF env s1], of "dart_finalize_request_msg env"]
      finalize_request_ok [OF env] dart_mem_reads(2) [OF s1(1) disjI2]
    by (auto split: option.splits)
  with data show ?thesis
    by (auto simp: dart_handle_received_msg_def intro!: okS_bind [OF callback_ok [OF env s]])
qed

lemma queue_repr_upd_other:
  assumes "x \<notin> pq_members a"
  shows "queue_repr (h(x := m)) q a = queue_repr h q a"
proof -
  have "x \<notin> set (a p)" for p using assms by (auto simp: pq_members_iff)
  then show ?thesis by (simp add: queue_repr_def mlist.family_def)
qed

lemma pq_members_push: "pq_members (pq_push a p x) = insert x (pq_members a)"
  by (auto simp: pq_members_iff pq_push_def split: if_splits)

lemma msg_queue_push_length: "msg_queue_push h q i p = (r, h', q') \<Longrightarrow> msg_length (h' x) = msg_length (h x)"
  by (auto simp: msg_queue_push_def msg_list_push_def Let_def split: if_splits option.splits)

lemma dart_mem_tail:
  assumes mem: "dart_mem s a" and i: "i < MSG_PRIO_LENGTH" "msg_tail (list_prio (d_queue s) i) = Some t"
  shows "t \<in> pq_members a"
proof -
  from dart_mem_list [OF mem i(1)] i(2) have "t \<in> set (a (prio_of i))" by (auto simp: list_repr_def split: if_splits)
  then show ?thesis by (auto simp: pq_members_iff)
qed

lemma pq_push_nonempty: "a p \<noteq> [] \<Longrightarrow> pq_push a p' x p \<noteq> []"
  by (simp add: pq_push_def)

lemma send_msg_ok:
  assumes env: "env_ok env" and s: "dart_mem s a" "rx_le s b"
    and msg: "dart_len (dart_cfg env) n \<le> length msg" "msg \<noteq> []" "dart_len (dart_cfg env) n \<le> 65501"
  shows "okP b (dart_send_msg_ex env s prio msg n)"
proof -
  let ?n = "dart_len (dart_cfg env) n"
  let ?H = "pq_members a \<union> set_option (pending_request s)"
  define post where "post i = (do {
          (p, c, h) \<leftarrow> msg_ptr_malloc (d_cba s) (d_heap s) ?n;
          let self = s\<lparr>d_cba := c, d_heap := h\<rparr>;
          case p of
            None \<Rightarrow> Some (DART_ERR_NO_MEMORY, self)
          | Some q \<Rightarrow>
              if length msg < ?n then None
              else do {
                h \<leftarrow> msg_write c h q (take ?n msg);
                let h = h(q := (h q)\<lparr>msg_length := ?n\<rparr>);
                (r, h, queue) \<leftarrow> dart_queue_push (self\<lparr>d_heap := h\<rparr>) i q;
                dart_trigger_transfer env (self\<lparr>d_heap := h, d_queue := queue\<rparr>) } })" for i
  have post: "okP b (post i)" if i: "i < MSG_PRIO_LENGTH" for i
  proof (cases rule: msg_ptr_malloc_owns [OF dart_memD(2) [OF s(1)] msg(3), of "d_heap s"])
    case 1
    with s show ?thesis by (simp add: post_def okP_Some)
  next
    case chunk: (2 q c)
    define h where "h = (d_heap s)(q := (d_heap s q)\<lparr>msg_next := None, msg_private := None, msg_length := ?n\<rparr>)"
    obtain h1 where w: "msg_write c h q (take ?n msg) = Some h1" and h1: "\<exists>m. h1 = h(q := m)"
      using chunk(4) msg(1) by (auto simp: msg_write_def h_def)
    define h2 where "h2 = h1(q := (h1 q)\<lparr>msg_length := ?n\<rparr>)"
    from chunk(2) have q: "q \<notin> pq_members a" "pending_request s \<noteq> Some q" by auto
    have "queue_repr h2 (d_queue s) a"
      using dart_memD(1) [OF s(1)] h1 by (auto simp: h2_def h_def queue_repr_upd_other [OF q(1)])
    from queue_repr_push [OF this q(1), of "prio_of i"] i obtain h3 qu where
      push: "msg_queue_push h2 (d_queue s) i q = (Some q, h3, qu)" "queue_repr h3 qu (pq_push a (prio_of i) q)" by auto
    have "insert q ?H = pq_members (pq_push a (prio_of i) q) \<union> set_option (pending_request s)"
      by (auto simp: pq_members_push)
    then have owns: "cba_pool.owns c (pq_members (pq_push a (prio_of i) q) \<union> set_option (pending_request s))"
      using chunk(3) by simp
    have same: "h2 p = d_heap s p" if "p \<noteq> q" for p using that h1 by (auto simp: h2_def h_def)
    have new: "msg_length (h2 q) = ?n" by (simp add: h2_def)
    have held: "msg_in_chunk c p (sizeof_msg_ptr - sizeof_msg + msg_length (h2 p))" if "p \<in> insert q ?H" for p
      using that chunk(5,6) dart_memD(5) [OF s(1)] same [of p] new by (cases "p = q") (auto simp: msgs_held_def)
    then have "msgs_held c h3 (pq_members (pq_push a (prio_of i) q) \<union> set_option (pending_request s))"
      unfolding msgs_held_def msg_queue_push_length [OF push(1)] by (simp add: pq_members_push)
    note owns = owns this
    have fields: "msg_in_chunk c p 24" if "p \<in> insert q ?H" for p using msg_in_chunk_mono [OF held [OF that]] by simp
    then have "msg_link_ok c (Some q)" by (simp add: msg_link_ok_def)
    moreover have "msg_link_ok c (msg_tail (list_prio (d_queue s) i))"
      using dart_mem_tail [OF s(1) i] fields by (auto simp: msg_link_ok_def split: option.splits)
    ultimately have qpush: "dart_queue_push (s\<lparr>d_cba := c, d_heap := h2\<rparr>) i q = Some (Some q, h3, qu)"
      using push(1) by (simp add: dart_queue_push_def)
    have "dart_mem (s\<lparr>d_cba := c, d_heap := h3, d_queue := qu\<rparr>) (pq_push a (prio_of i) q)"
      unfolding dart_mem_def
    proof (intro conjI allI impI)
      fix p assume "pending_request (s\<lparr>d_cba := c, d_heap := h3, d_queue := qu\<rparr>) = Some p"
      then show "p \<notin> pq_members (pq_push a (prio_of i) q)"
        using dart_memD(3) [OF s(1)] q by (auto simp: pq_members_push)
    qed (use owns push(2) dart_memD(4) [OF s(1)] in \<open>simp_all add: pq_push_nonempty\<close>)
    from trigger_transfer_ok [OF env this, of b] s(2)
    have "okP b (dart_trigger_transfer env (s\<lparr>d_cba := c, d_heap := h3, d_queue := qu\<rparr>))" by simp
    with chunk(1) qpush msg(1) show ?thesis
      unfolding post_def by (simp add: h_def [symmetric] w h2_def [symmetric])
  qed
  have "okP b (if i \<ge> MSG_PRIO_LENGTH then Some (DART_ERR_NOT_POSSIBLE, s) else post i)" for i
    using post [of i] s by (simp add: okP_Some)
  with msg(2) s show ?thesis
    unfolding dart_send_msg_ex_def post_def Let_def by (simp add: okP_Some)
qed


section \<open>Receiving and time\<close>

text \<open>The receive buffer: it has room for the sync byte and the length, and the next byte fits.\<close>

definition rx_ok :: "'w dart_env \<Rightarrow> 'w dart \<Rightarrow> bool" where
  "rx_ok env s \<longleftrightarrow> DART_LEN_BYTES (dart_cfg env) \<le> rx_buffer_size s \<and> rx_buffer_size s < 2 ^ 16 \<and>
     rx_buffer_size s \<le> length (rx_buffer s) \<and> rx_buffer_bytes s < rx_buffer_size s"

definition dart_ok :: "'w dart_env \<Rightarrow> 'w dart \<Rightarrow> bool" where
  "dart_ok env s \<longleftrightarrow> (\<exists>a. dart_mem s a) \<and> rx_ok env s"

lemma okS_dart_ok: "okS b r \<Longrightarrow> rx_ok env b \<Longrightarrow> \<exists>s. r = Some s \<and> dart_ok env s"
  by (auto simp: okS_def dart_ok_def rx_ok_def rx_le_def)

lemma okP_dart_ok: "okP b r \<Longrightarrow> rx_ok env b \<Longrightarrow> \<exists>x s. r = Some (x, s) \<and> dart_ok env s"
  by (auto simp: okP_def dart_ok_def rx_ok_def rx_le_def)

lemma closing_ok:
  assumes env: "env_ok env" and s: "dart_mem s a" "rx_le s b"
  shows "okP b (dart_closing env s)"
proof -
  obtain wrk s1 where g: "dart_pin_get_state env DART_WRK_PIN s = (wrk, s1)" by fastforce
  with pin_get_frame [of env DART_WRK_PIN s] s have s1: "dart_mem s1 a" "rx_le s1 b" by simp_all
  obtain rdy s2 where r: "dart_pin_get_state env DART_RDY_PIN s1 = (rdy, s2)" by fastforce
  with pin_get_frame [of env DART_RDY_PIN s1] s1 have s2: "dart_mem s2 a" "rx_le s2 b" by simp_all
  let ?s1 = "s1\<lparr>closing_timer := timer_stop\<rparr>"
  obtain rdy' s3 where r': "dart_pin_get_state env DART_RDY_PIN ?s1 = (rdy', s3)" by fastforce
  with pin_get_frame [of env DART_RDY_PIN ?s1] s1 have s3: "dart_mem s3 a" "rx_le s3 b" by simp_all
  have clbk: "okP b (do { self \<leftarrow> dart_callback env s3 DART_CLBK_IDLE NoMsg 0; Some (DART_IDLE, self) })"
    by (rule okP_bind [OF callback_ok [OF env s3]]) (rule okP_Some)
  then show ?thesis unfolding dart_closing_def g Let_def using s1 s2 s3
    by (simp add: r r' okP_Some)
qed

lemma handle_time_ok:
  assumes env: "env_ok env" and s: "dart_mem s a" "rx_le s b"
  shows "okP b (dart_handle_time env s)"
proof -
  have retry: "okP b (do { self \<leftarrow> (if rdy then dart_retry_transfer env s1 else Some (s1\<lparr>transfering := None\<rparr>));
         Some (DART_PENDING, self) })" if "dart_mem s1 a1" "rx_le s1 b" for s1 a1 rdy
    using that by (auto intro!: okP_bind [OF retry_ok [OF env]] intro: okP_Some okP_Some [OF dart_mem_transfering(1)])
  have tail: "okP b (if transfering s0 \<noteq> None then
       if timer_expired (d_clock s0) (tx_ack_timer s0) then do {
         let self = s0\<lparr>tx_ack_timer := timer_stop\<rparr>;
         let (rdy, self) = dart_pin_get_state env DART_RDY_PIN self;
         self \<leftarrow> (if rdy then dart_retry_transfer env self else Some (self\<lparr>transfering := None\<rparr>));
         Some (DART_PENDING, self) }
       else Some (DART_PENDING, s0)
     else do {
       next \<leftarrow> dart_find_next_message_queue s0;
       if next \<noteq> None then
         if timer_expired (d_clock s0) (wakeup_timer s0) then
           Some (DART_WAITING, dart_pin_set_state env DART_WRK_PIN False (s0\<lparr>wakeup_timer := timer_stop\<rparr>))
         else dart_trigger_transfer env s0
       else if pending_request s0 = None \<and> rx_buffer_bytes s0 = 0 then dart_closing env s0
       else Some (DART_PENDING, s0) })" if s0: "dart_mem s0 a0" "rx_le s0 b" for s0 a0
  proof -
    let ?s = "s0\<lparr>tx_ack_timer := timer_stop\<rparr>"
    obtain rdy s1 where g: "dart_pin_get_state env DART_RDY_PIN ?s = (rdy, s1)" by fastforce
    with pin_get_frame [of env DART_RDY_PIN ?s] s0 have s1: "dart_mem s1 a0" "rx_le s1 b" by simp_all
    note trigger_transfer_ok [OF env s0] closing_ok [OF env s0]
    moreover have "okP b (Some (DART_PENDING, s0))" by (rule okP_Some [OF s0])
    moreover have "okP b (Some (DART_WAITING, dart_pin_set_state env DART_WRK_PIN False (s0\<lparr>wakeup_timer := timer_stop\<rparr>)))"
      using s0 by (simp add: okP_Some)
    ultimately show ?thesis unfolding Let_def g case_prod_conv dart_find_next_ok [OF s0(1)] bind.bind_lunit
      using retry [OF s1, of rdy] by (simp del: upt_Suc)
  qed
  have "okS b (if pending_request s \<noteq> None \<and> timer_expired (d_clock s) (tx_response_timer s)
        then dart_abandon_request_msg env s else Some s)"
    using s by (simp add: abandon_ok [OF env] okS_Some)
  then show ?thesis unfolding dart_handle_time_def by (rule okP_bind) (rule tail)
qed

lemma rx_drop_ok: "dart_mem s a \<Longrightarrow> dart_mem (dart_rx_drop s) a" "rx_le (dart_rx_drop s) b \<longleftrightarrow> rx_le (s\<lparr>rx_buffer_bytes := 0\<rparr>) b"
  by (simp_all add: dart_rx_drop_def rx_le_def)

text \<open>The result of receiving a byte: the same buffer, with room for another byte.\<close>

definition okR :: "'w dart_env \<Rightarrow> 'w dart \<Rightarrow> 'w dart option \<Rightarrow> bool" where
  "okR env b r \<longleftrightarrow> (\<exists>s a. r = Some s \<and> dart_mem s a \<and> length (rx_buffer s) = length (rx_buffer b) \<and>
     rx_buffer_size s = rx_buffer_size b \<and> rx_buffer_bytes s < rx_buffer_size b)"

lemma okR_Some:
  "dart_mem s a \<Longrightarrow> rx_le s b \<Longrightarrow> rx_buffer_bytes s < rx_buffer_size b \<Longrightarrow> okR env b (Some s)"
  by (auto simp: okR_def rx_le_def)

lemma okR_drop:
  assumes "okS b r" "0 < rx_buffer_size b"
  shows "okR env b (do { self \<leftarrow> r; Some (dart_rx_drop self) })"
proof -
  from assms(1) obtain s a where s: "r = Some s" "dart_mem s a" "rx_le s b" by (auto simp: okS_def)
  from rx_drop_ok(1) [OF s(2)] s assms(2) show ?thesis
    unfolding okR_def by (intro exI [of _ "dart_rx_drop s"] exI [of _ a]) (simp add: dart_rx_drop_def rx_le_def)
qed

lemma rx_first_ok:
  assumes env: "env_ok env" and s: "dart_mem s a" and size: "1 < rx_buffer_size s" "rx_buffer_bytes s = 1"
  shows "okR env s (dart_rx_first env s ch)"
proof (cases "ch = DART_SYNC")
  case True
  let ?s = "s\<lparr>rx_byte_timer := timer_start (d_clock s) TIMER_MS DART_BYTE_TIMER_VAL\<rparr>"
  obtain wrk s1 where g: "dart_pin_get_state env DART_WRK_PIN ?s = (wrk, s1)" by fastforce
  with pin_get_frame [of env DART_WRK_PIN ?s] s have s1: "dart_mem s1 a" "rx_le s1 s" by simp_all
  with size(2) have "rx_le s1 s" "rx_buffer_bytes s1 \<le> 1" by (simp_all add: rx_le_def)
  with s1 size True show ?thesis
    by (auto simp: dart_rx_first_def g okR_def rx_le_def dart_pin_set_state_def)
next
  case False
  obtain wrk s1 where g: "dart_pin_get_state env DART_WRK_PIN s = (wrk, s1)" by fastforce
  with pin_get_frame [of env DART_WRK_PIN s] s have s1: "dart_mem s1 a" "rx_le s1 s" by simp_all
  have "okS s (if wrk then if ch = DART_ACK then dart_acknowledge_msg env s1
             else if ch = DART_BAD then dart_retry_transfer env s1
             else if ch = DART_CAN then map_option snd (dart_trigger_transfer env s1)
             else Some s1 else Some s1)"
    using s1 by (auto intro: acknowledge_ok [OF env] retry_ok [OF env] okS_snd [OF trigger_transfer_ok [OF env]] okS_Some)
  from okR_drop [OF this, of env] size(1) False show ?thesis
    by (simp add: dart_rx_first_def g)
qed

lemma get_data_len_defined:
  "dart_config_ok cfg \<Longrightarrow> DART_LEN_BYTES cfg \<le> length buf \<Longrightarrow> \<exists>n. dart_get_data_len cfg buf = Some n"
  by (auto simp: dart_get_data_len_def dart_config_ok_def DART_LEN_BYTES_def)

lemma get_crc_defined:
  "dart_config_ok cfg \<Longrightarrow> DART_FRAME_BYTES cfg n \<le> length buf \<Longrightarrow> \<exists>c. dart_get_crc_value cfg buf n = Some c"
  by (auto simp: dart_get_crc_value_def dart_config_ok_def DART_FRAME_BYTES_def DART_LEN_BYTES_def
      DART_CRC_IDX_def DART_DATA_IDX_def)

lemma rx_frame_ok:
  assumes env: "env_ok env" and s: "dart_mem s a"
    and size: "DART_LEN_BYTES (dart_cfg env) \<le> rx_buffer_size s" "rx_buffer_size s \<le> length (rx_buffer s)"
      "rx_buffer_bytes s \<le> rx_buffer_size s"
  shows "okR env s (dart_rx_frame env s)"
proof (cases "rx_buffer_bytes s < DART_LEN_BYTES (dart_cfg env)")
  case True
  with s size show ?thesis by (auto simp: dart_rx_frame_def okR_def)
next
  case False
  let ?cfg = "dart_cfg env"
  have cfg: "dart_config_ok ?cfg" using env by (simp add: env_ok_def)
  from get_data_len_defined [OF cfg, of "rx_buffer s"] size obtain n where
    n: "dart_get_data_len ?cfg (rx_buffer s) = Some n" by auto
  have pos: "0 < rx_buffer_size s" using size(1) by (simp add: DART_LEN_BYTES_def)
  have corrupt: "okS s (dart_callback env s' DART_CLBK_TRANSFER_CORRUPTED NoMsg 0)"
    if "dart_mem s' a" "rx_le s' s" for s' using callback_ok [OF env that] .
  show ?thesis
  proof (cases "DART_FRAME_BYTES ?cfg n > rx_buffer_size s \<or> rx_buffer_bytes s < DART_FRAME_BYTES ?cfg n")
    case True
    with s size False n okR_drop [OF corrupt pos, of s] show ?thesis
      by (auto simp: dart_rx_frame_def Let_def okR_def)
  next
    case fits: False
    with size have len: "DART_FRAME_BYTES ?cfg n \<le> length (rx_buffer s)" by simp
    from get_crc_defined [OF cfg len] obtain c where c: "dart_get_crc_value ?cfg (rx_buffer s) n = Some c" by blast
    have "DART_DATA_IDX ?cfg + n \<le> length (rx_buffer s)" and data: "DART_DATA_IDX ?cfg < length (rx_buffer s)"
      using len cfg by (auto simp: DART_FRAME_BYTES_def DART_LEN_BYTES_def DART_DATA_IDX_def dart_config_ok_def)
    note crc = dart_calculate_crc_ok [OF this(1), of ?cfg]
    have "okS s (dart_handle_received_msg env (dart_push_byte env s DART_ACK) n)"
      by (rule received_msg_ok [OF env]) (use s data in \<open>simp_all add: dart_push_byte_def dart_push_def\<close>)
    moreover have "okS s (dart_callback env (dart_push_byte env s DART_BAD) DART_CLBK_TRANSFER_CORRUPTED NoMsg 0)"
      by (rule corrupt) (use s in simp_all)
    ultimately show ?thesis using False fits n c crc
      by (simp add: dart_rx_frame_def Let_def okR_drop [OF _ pos])
  qed
qed

lemma handle_received_char_ok:
  assumes env: "env_ok env" and s: "dart_mem s a" and rx: "rx_ok env s"
  shows "okR env s (dart_handle_received_char env s ch)"
proof -
  have late: "okS s (dart_rx_late env s)"
    using s by (auto simp: dart_rx_late_def rx_drop_ok rx_le_def dart_rx_drop_def
        intro!: okS_bind [OF callback_ok [OF env s rx_le_refl]] intro: okS_Some)
  then obtain s1 a1 where s1: "dart_rx_late env s = Some s1" "dart_mem s1 a1" "rx_le s1 s"
    by (auto simp: okS_def)
  let ?i = "rx_buffer_bytes s1"
  have i: "?i < rx_buffer_size s1" "rx_buffer_size s1 \<le> length (rx_buffer s1)" "rx_buffer_size s1 < 65536"
    "DART_LEN_BYTES (dart_cfg env) \<le> rx_buffer_size s1" "rx_buffer_size s1 = rx_buffer_size s"
    "length (rx_buffer s1) = length (rx_buffer s)"
    using rx s1(3) by (auto simp: rx_ok_def rx_le_def)
  define s2 where "s2 = s1\<lparr>closing_timer := timer_stop,
    rx_byte_timer := timer_restart (d_clock s1) (rx_byte_timer s1), rx_buffer := (rx_buffer s1)[?i := ch],
    rx_buffer_bytes := ?i + 1\<rparr>"
  have store: "dart_rx_store s1 ch = Some s2"
    using i by (simp add: dart_rx_store_def s2_def trunc16_id Let_def)
  have s2: "dart_mem s2 a1" "rx_buffer_size s2 = rx_buffer_size s" "length (rx_buffer s2) = length (rx_buffer s)"
    "rx_buffer_bytes s2 \<le> rx_buffer_size s2"
    using s1(2) i by (simp_all add: s2_def)
  have "2 \<le> DART_LEN_BYTES (dart_cfg env)" using env by (auto simp: env_ok_def dart_config_ok_def DART_LEN_BYTES_def)
  with i s2 have "1 < rx_buffer_size s2" by simp
  then have "okR env s2 (if rx_buffer_bytes s2 = 1 then dart_rx_first env s2 ch else dart_rx_frame env s2)"
    using rx_first_ok [OF env s2(1)] rx_frame_ok [OF env s2(1)] s2 i by simp
  then show ?thesis using s1(1) store s2 by (simp add: dart_handle_received_char_def okR_def)
qed

section \<open>Any sequence of calls\<close>

datatype dart_op = OpReset | OpClock u32 u32 | OpReceive u8 | OpTime | OpSend nat "u8 list" nat
  | OpSetCallback nat "nat option" | OpSetDeferred "nat option"

fun dart_op_ok :: "dart_config \<Rightarrow> dart_op \<Rightarrow> bool" where
  "dart_op_ok cfg (OpSend prio msg n) \<longleftrightarrow> dart_len cfg n \<le> length msg \<and> msg \<noteq> [] \<and> dart_len cfg n \<le> 65501"
| "dart_op_ok cfg _ \<longleftrightarrow> True"

fun dart_do :: "'w dart_env \<Rightarrow> dart_op \<Rightarrow> 'w dart \<Rightarrow> 'w dart option" where
  "dart_do env OpReset s = Some (dart_reset s)"
| "dart_do env (OpClock ms ch) s = Some (s\<lparr>d_clock := clock_update (d_clock s) ms ch\<rparr>)"
| "dart_do env (OpReceive ch) s = dart_handle_received_char env s ch"
| "dart_do env OpTime s = map_option snd (dart_handle_time env s)"
| "dart_do env (OpSend prio msg n) s = map_option snd (dart_send_msg_ex env s prio msg n)"
| "dart_do env (OpSetCallback pr f) s = Some (dart_set_callback s pr f)"
| "dart_do env (OpSetDeferred f) s = Some (dart_set_deferred_msg_callback s f)"

fun dart_run :: "'w dart_env \<Rightarrow> dart_op list \<Rightarrow> 'w dart \<Rightarrow> 'w dart option" where
  "dart_run env [] s = Some s"
| "dart_run env (x # xs) s = do { s1 \<leftarrow> dart_do env x s; dart_run env xs s1 }"

lemma pq_members_empty [simp]: "pq_members (\<lambda>_. []) = {}"
  by (simp add: pq_members_def)

lemma reset_ok:
  assumes "dart_mem s a"
  shows "dart_mem (dart_reset s) (\<lambda>_. [])"
proof -
  from assms obtain xs where "cba_wf (d_cba s) xs" by (auto simp: dart_mem_def cba_pool.owns_def cba_ok_def)
  then have "cba_ok (cba_reset (d_cba s))" using cba_reset_wf by (auto simp: cba_ok_def)
  then show ?thesis by (simp add: dart_mem_def dart_reset_def cba_pool.owns_def queue_repr_init msgs_held_def)
qed

lemma dart_init_ok:
  assumes "buffer_ok mpool n" "DART_LEN_BYTES (dart_cfg env) \<le> rxsize" "rxsize < 2 ^ 16" "rxsize \<le> length rxbuf"
  shows "dart_ok env (dart_init s mpool n rxbuf rxsize)"
proof -
  have "cba_ok (cba_init mpool n)" using cba_init_wf [OF assms(1)] by (auto simp: cba_ok_def)
  then have "dart_mem (dart_init s mpool n rxbuf rxsize) (\<lambda>_. [])"
    by (simp add: dart_init_def dart_reset_def dart_mem_def cba_pool.owns_def queue_repr_init msgs_held_def)
  moreover have "0 < rxsize" using assms(2) by (simp add: DART_LEN_BYTES_def)
  ultimately show ?thesis using assms by (auto simp: dart_ok_def rx_ok_def dart_init_def dart_reset_def)
qed

lemma dart_do_ok:
  assumes env: "env_ok env" and s: "dart_ok env s" and x: "dart_op_ok (dart_cfg env) x"
  shows "\<exists>s'. dart_do env x s = Some s' \<and> dart_ok env s'"
proof -
  from s obtain a where a: "dart_mem s a" and rx: "rx_ok env s" by (auto simp: dart_ok_def)
  note snd_ok = okS_dart_ok [OF okS_snd rx]
  show ?thesis
  proof (cases x)
    case OpReset
    from reset_ok [OF a] rx have "dart_ok env (dart_reset s)"
      by (auto simp: dart_ok_def rx_ok_def dart_reset_def)
    with OpReset show ?thesis by simp
  next
    case (OpReceive ch)
    from handle_received_char_ok [OF env a rx, of ch] rx OpReceive show ?thesis
      by (auto simp: okR_def dart_ok_def rx_ok_def)
  next
    case OpTime
    with snd_ok [OF handle_time_ok [OF env a rx_le_refl]] show ?thesis by simp
  next
    case (OpSend prio msg n)
    with snd_ok [OF send_msg_ok [OF env a rx_le_refl, of n msg prio]] x show ?thesis by simp
  qed (use a rx in \<open>auto simp: dart_ok_def rx_ok_def dart_mem_def dart_set_callback_def dart_set_deferred_msg_callback_def\<close>)
qed

lemma dart_run_ok:
  "env_ok env \<Longrightarrow> dart_ok env s \<Longrightarrow> \<forall>x\<in>set xs. dart_op_ok (dart_cfg env) x \<Longrightarrow>
   \<exists>s'. dart_run env xs s = Some s' \<and> dart_ok env s'"
proof (induction xs arbitrary: s)
  case (Cons x xs)
  from dart_do_ok [OF Cons.prems(1,2), of x] Cons.prems(3) obtain s1 where
    "dart_do env x s = Some s1" "dart_ok env s1" by auto
  with Cons.IH [of s1] Cons.prems show ?case by auto
qed simp

section \<open>A bench\<close>

text \<open>The environment of the unit tests: two pins, a UART that records what is sent, callbacks that
  record their code and the type and length of their message.\<close>

record bench =
  b_wrk :: bool
  b_rdy :: bool
  b_sent :: "u8 list list"
  b_log :: "(dart_clbk \<times> u8 option \<times> nat) list"

definition ref_type :: "dart_config \<Rightarrow> 'w dart \<Rightarrow> msg_ref \<Rightarrow> u8 option" where
  "ref_type cfg s m = (case m of NoMsg \<Rightarrow> None | PoolMsg p \<Rightarrow> Some (msg_type (d_heap s p))
     | RxMsg \<Rightarrow> Some (rx_buffer s ! DART_DATA_IDX cfg))"

definition bench_env :: "dart_config \<Rightarrow> bench dart_env" where
  "bench_env cfg = \<lparr>dart_cfg = cfg,
     pin_get_state = (\<lambda>p w. (case p of DART_WRK_PIN \<Rightarrow> b_wrk w | DART_RDY_PIN \<Rightarrow> b_rdy w, w)),
     pin_set_state = (\<lambda>p v w. case p of DART_WRK_PIN \<Rightarrow> w\<lparr>b_wrk := v\<rparr> | DART_RDY_PIN \<Rightarrow> w\<lparr>b_rdy := v\<rparr>),
     uart_send = (\<lambda>bs w. w\<lparr>b_sent := b_sent w @ [bs]\<rparr>),
     callback_fn = (\<lambda>f pr code m n s.
       Some (s\<lparr>d_world := (d_world s)\<lparr>b_log := b_log (d_world s) @ [(code, ref_type cfg s m, n)]\<rparr>\<rparr>)),
     deferred_fn = (\<lambda>f t s. Some (False, s))\<rparr>"

lemma bench_env_ok: "dart_config_ok cfg \<Longrightarrow> env_ok (bench_env cfg)"
  by (auto simp: env_ok_def bench_env_def intro!: okS_Some okP_Some)

definition bench0 :: "bench dart" where
  "bench0 = \<lparr>d_cba = demo_cba, d_heap = heap0, d_queue = \<lparr>list_prio = (\<lambda>_. msg_list_init)\<rparr>,
     transfering = None, pending_request = None, wakeup_timer = timer_stop, wakeup_attempts = 0,
     tx_ack_timer = timer_stop, tx_response_timer = timer_stop, tx_attempts = 0, rx_buffer = [],
     rx_buffer_size = 0, rx_buffer_bytes = 0, rx_byte_timer = timer_stop, d_callback = None,
     callback_private = 0, d_deferred = None, closing_timer = timer_stop, d_running = False,
     d_clock = clock_zero, d_world = \<lparr>b_wrk = True, b_rdy = True, b_sent = [], b_log = []\<rparr>\<rparr>"

text \<open>A module with the pool of the allocator's instances and a receive buffer of 8 bytes.\<close>

definition bench_init :: "bench dart" where
  "bench_init = dart_set_callback (dart_init bench0 pool50 50 (replicate 8 0) 8) 0 (Some 1)"

lemma bench_init_ok: "dart_ok (bench_env cfg11) bench_init"
proof -
  have "dart_ok (bench_env cfg11) (dart_init bench0 pool50 50 (replicate 8 0) 8)"
    by (rule dart_init_ok) (simp_all add: pool50_ok bench_env_def DART_LEN_BYTES_def cfg11_def)
  then show ?thesis
    by (simp add: bench_init_def dart_set_callback_def dart_ok_def rx_ok_def dart_mem_def)
qed



text \<open>A receive buffer of one byte is overrun by the length byte: the size is compared with the length
  of the frame only after that byte was stored.\<close>

theorem dart_rx_buffer_overrun:
  "dart_run (bench_env cfg11) [OpReceive 0x55, OpReceive 1] (dart_init bench0 pool50 50 [0] 1) = None"
  by (simp add: dart_handle_received_char_def dart_rx_late_def dart_rx_store_def dart_rx_first_def
      dart_init_def dart_reset_def bench0_def Let_def trunc16_def dart_pin_get_state_def bench_env_def
      timer_running_def timer_stop_def timer_start_def timer_restart_def timer_expired_def timer_value_def
      timer_tstamp_def clock_zero_def clock_get_milis_def wr_def)

end
