(* ===== verification/Mx_DartRx.thy ===== *)
theory Mx_DartRx
  imports Mx_DartSafe
begin

unbundle bit_operations_syntax

text \<open>
  What the receiver of DART does with a whole frame: whatever arrives as a frame of some message, byte
  by byte and in time, is acknowledged and handed over when its checksum is right, and refused
  when it is not.
\<close>

section \<open>Receiving a frame\<close>

text \<open>Bytes that arrive one by one, each some time after the one before.\<close>

definition paced :: "(u32 \<times> u32 \<times> u8) list \<Rightarrow> dart_op list" where
  "paced xs = concat (map (\<lambda>(ms, chrono, b). [OpClock ms chrono, OpReceive b]) xs)"

definition bytes_of :: "(u32 \<times> u32 \<times> u8) list \<Rightarrow> u8 list" where
  "bytes_of xs = map (\<lambda>(ms, chrono, b). b) xs"

definition clock_after :: "(u32 \<times> u32 \<times> u8) list \<Rightarrow> clock \<Rightarrow> clock" where
  "clock_after xs clk = clock_run clk (map (\<lambda>(ms, chrono, b). (ms, chrono)) xs)"

definition in_time :: "(u32 \<times> u32 \<times> u8) list \<Rightarrow> bool" where
  "in_time xs \<longleftrightarrow> list_all (\<lambda>(ms, chrono, b). ms < DART_BYTE_TIMER_VAL) xs"

lemma paced_simps [simp]:
  "paced [] = []" "paced ((ms, chrono, b) # xs) = OpClock ms chrono # OpReceive b # paced xs"
  "bytes_of [] = []" "bytes_of ((ms, chrono, b) # xs) = b # bytes_of xs"
  "clock_after [] clk = clk" "clock_after ((ms, chrono, b) # xs) clk = clock_after xs (clock_update clk ms chrono)"
  "in_time []" "in_time ((ms, chrono, b) # xs) \<longleftrightarrow> ms < DART_BYTE_TIMER_VAL \<and> in_time xs"
  by (simp_all add: paced_def bytes_of_def clock_after_def in_time_def)

text \<open>The module after the bytes \<open>bs\<close> of a frame, the last of them now.\<close>

definition rx_state :: "'w dart \<Rightarrow> u8 list \<Rightarrow> clock \<Rightarrow> 'w \<Rightarrow> 'w dart" where
  "rx_state s bs clk w = s\<lparr>rx_buffer := bs @ drop (length bs) (rx_buffer s), rx_buffer_bytes := length bs,
     rx_byte_timer := timer_start clk TIMER_MS DART_BYTE_TIMER_VAL, closing_timer := timer_stop,
     d_clock := clk, d_world := w\<rparr>"

lemma rx_timer_fresh:
  assumes "ms < DART_BYTE_TIMER_VAL"
  shows "\<not> timer_expired (clock_update clk ms chrono) (timer_start clk TIMER_MS DART_BYTE_TIMER_VAL)"
proof -
  from assms have "unat ms < 30" by (simp add: word_less_nat_alt)
  with timer_ms_expired [of "[(ms, chrono)]" clk 30] show ?thesis by simp
qed

lemma upd_next_byte: "length bs < length xs \<Longrightarrow> (bs @ drop (length bs) xs)[length bs := b] = (bs @ [b]) @ drop (Suc (length bs)) xs"
  by (simp add: list_update_append Cons_nth_drop_Suc [symmetric] del: Cons_nth_drop_Suc)

lemma rx_next_byte:
  assumes "bs \<noteq> []" "length bs < length (rx_buffer s)" "length bs < 65535" "ms < DART_BYTE_TIMER_VAL"
  shows "dart_run env (OpClock ms chrono # OpReceive b # ops) (rx_state s bs clk w) =
    do { t \<leftarrow> dart_rx_frame env (rx_state s (bs @ [b]) (clock_update clk ms chrono) w); dart_run env ops t }"
proof -
  let ?clk = "clock_update clk ms chrono"
  let ?t = "(rx_state s bs clk w)\<lparr>d_clock := ?clk\<rparr>"
  have "dart_rx_late env ?t = Some ?t"
    using rx_timer_fresh [OF assms(4)] by (simp add: dart_rx_late_def rx_state_def)
  moreover have "dart_rx_store ?t b = Some (rx_state s (bs @ [b]) ?clk w)"
    using assms(2,3) by (simp add: dart_rx_store_def rx_state_def upd_next_byte trunc16_id timer_restart_def timer_start_def Let_def)
  moreover have "rx_buffer_bytes (rx_state s (bs @ [b]) ?clk w) \<noteq> 1"
    using assms(1) by (simp add: rx_state_def)
  ultimately show ?thesis
    by (simp add: dart_handle_received_char_def rx_state_def)
qed

text \<open>A frame with any content in its checksum.\<close>

definition raw_frame :: "dart_config \<Rightarrow> u8 list \<Rightarrow> u8 list \<Rightarrow> u8 list" where
  "raw_frame cfg msg crc = DART_SYNC # len_field cfg (length msg) @ msg @ crc"

lemma length_raw_frame:
  "dart_config_ok cfg \<Longrightarrow> length crc = DART_CRC_SIZE cfg \<Longrightarrow> length (raw_frame cfg msg crc) = DART_FRAME_BYTES cfg (length msg)"
  by (simp add: raw_frame_def DART_FRAME_BYTES_def DART_LEN_BYTES_def)

lemma raw_frame_len_field:
  assumes "dart_config_ok cfg" "length msg < 2 ^ (8 * DART_LEN_SIZE cfg)"
    "bs @ ys = raw_frame cfg msg crc" "DART_LEN_BYTES cfg \<le> length bs"
  shows "dart_get_data_len cfg (bs @ rest) = Some (length msg)"
proof -
  let ?hd = "DART_SYNC # len_field cfg (length msg)"
  have "length ?hd = DART_LEN_BYTES cfg" using assms(1) by (simp add: DART_LEN_BYTES_def)
  with assms(3,4) have "take (length ?hd) bs = ?hd"
    by (metis append_eq_append_conv_if append_take_drop_id raw_frame_def append_Cons)
  then obtain zs where "bs = ?hd @ zs" by (metis append_take_drop_id)
  with dart_get_data_len_ok [OF assms(1,2)] show ?thesis by simp
qed

lemma rx_frame_waits:
  assumes cfg: "dart_config_ok (dart_cfg env)" and len: "length msg < 2 ^ (8 * DART_LEN_SIZE (dart_cfg env))"
    and crc: "length crc = DART_CRC_SIZE (dart_cfg env)" and fits: "DART_FRAME_BYTES (dart_cfg env) (length msg) \<le> rx_buffer_size s"
    and part: "bs @ ys = raw_frame (dart_cfg env) msg crc" "ys \<noteq> []"
  shows "dart_rx_frame env (rx_state s bs clk w) = Some (rx_state s bs clk w)"
proof (cases "length bs < DART_LEN_BYTES (dart_cfg env)")
  case False
  then have "dart_get_data_len (dart_cfg env) (rx_buffer (rx_state s bs clk w)) = Some (length msg)"
    using raw_frame_len_field [OF cfg len part(1)] by (simp add: rx_state_def)
  moreover have "length bs < DART_FRAME_BYTES (dart_cfg env) (length msg)"
    using arg_cong [OF part(1), of length] part(2) length_raw_frame [OF cfg crc, of msg] by (cases ys) simp_all
  ultimately show ?thesis using False fits by (simp add: dart_rx_frame_def rx_state_def)
qed (simp add: dart_rx_frame_def rx_state_def)

lemma crc_field_get:
  assumes "dart_config_ok cfg" "length crc = DART_CRC_SIZE cfg" "length xs = DART_CRC_IDX cfg n"
  shows "\<exists>v. dart_get_crc_value cfg (xs @ crc @ rest) n = Some v \<and> crc_field cfg v = crc"
proof (cases "DART_CRC_SIZE cfg = 1")
  case True
  with assms obtain a where "crc = [a]" by (auto simp: length_1_iff)
  with True assms(3) show ?thesis
    by (simp add: dart_get_crc_value_def crc_field_def rd_append [where j = 0] ucast_ucast_u8 rd_def nth_append)
next
  case False
  with assms(1) have two: "DART_CRC_SIZE cfg = 2" by (simp add: dart_config_ok_def)
  with assms(2) obtain a b where "crc = [a, b]" by (auto simp: length_2_iff)
  moreover have "(ucast (drop_bit 8 (ucast (push_bit 8 (ucast a) OR ucast b :: u16) :: u32)) :: u8) = a"
    "(ucast (ucast (push_bit 8 (ucast a) OR ucast b :: u16) :: u32) :: u8) = b"
    by (rule bit_word_eqI; auto simp: bit_simps dest: bit_imp_le_length)+
  moreover have "rd (xs @ a # b # rest) (DART_CRC_IDX cfg n) = Some a" "rd (xs @ a # b # rest) (Suc (DART_CRC_IDX cfg n)) = Some b"
    unfolding assms(3) [symmetric] by (simp_all add: rd_def nth_append)
  ultimately show ?thesis using two
    by (simp add: dart_get_crc_value_def crc_field_def)
qed

lemma rx_frame_complete:
  assumes cfg: "dart_config_ok (dart_cfg env)" and len: "length msg < 2 ^ (8 * DART_LEN_SIZE (dart_cfg env))"
    and crc: "length crc = DART_CRC_SIZE (dart_cfg env)" and fits: "DART_FRAME_BYTES (dart_cfg env) (length msg) \<le> rx_buffer_size s"
    and t: "t = rx_state s (raw_frame (dart_cfg env) msg crc) clk w"
  shows "dart_rx_frame env t = do {
      self \<leftarrow> (if crc_field (dart_cfg env) (crc_of (dart_cfg env) msg) \<noteq> crc
        then dart_callback env (dart_push_byte env t DART_BAD) DART_CLBK_TRANSFER_CORRUPTED NoMsg 0
        else dart_handle_received_msg env (dart_push_byte env t DART_ACK) (length msg));
      Some (dart_rx_drop self) }"
proof -
  let ?cfg = "dart_cfg env" and ?rest = "drop (DART_FRAME_BYTES (dart_cfg env) (length msg)) (rx_buffer s)"
  let ?hd = "DART_SYNC # len_field ?cfg (length msg)"
  have buf: "rx_buffer t = ?hd @ msg @ crc @ ?rest" and bytes: "rx_buffer_bytes t = DART_FRAME_BYTES ?cfg (length msg)"
    and size: "rx_buffer_size t = rx_buffer_size s"
    using length_raw_frame [OF cfg crc] t by (simp_all add: rx_state_def) (simp add: raw_frame_def)
  have hd: "length ?hd = DART_DATA_IDX ?cfg" using cfg by (simp add: DART_DATA_IDX_def)
  have "dart_get_data_len ?cfg (rx_buffer t) = Some (length msg)"
    using dart_get_data_len_ok [OF cfg len] buf by simp
  moreover have "dart_calculate_crc ?cfg (rx_buffer t) (DART_DATA_IDX ?cfg) (length msg) = Some (crc_of ?cfg msg)"
    unfolding buf hd [symmetric] by (subst dart_calculate_crc_ok) simp_all
  moreover have "length (?hd @ msg) = DART_CRC_IDX ?cfg (length msg)" unfolding DART_CRC_IDX_def hd [symmetric] by simp
  then obtain v where v: "dart_get_crc_value ?cfg (rx_buffer t) (length msg) = Some v" "crc_field ?cfg v = crc"
    using crc_field_get [OF cfg crc, of "?hd @ msg" "length msg" ?rest] buf by auto
  moreover have "crc_of ?cfg msg = v \<longleftrightarrow> crc_field ?cfg (crc_of ?cfg msg) = crc"
  proof
    assume "crc_field ?cfg (crc_of ?cfg msg) = crc"
    with dart_get_crc_value_ok [OF cfg \<open>length (?hd @ msg) = _\<close>, of msg ?rest] v(1) buf
    show "crc_of ?cfg msg = v" by simp
  qed (use v(2) in simp)
  ultimately show ?thesis using bytes size fits
    by (simp add: dart_rx_frame_def Let_def DART_FRAME_BYTES_def)
qed

text \<open>The first byte.\<close>

definition wrk_up :: "'w dart_env \<Rightarrow> 'w \<Rightarrow> 'w" where
  "wrk_up env w = (let (wrk, w) = pin_get_state env DART_WRK_PIN w in if wrk then w else pin_set_state env DART_WRK_PIN True w)"

lemma rx_sync:
  assumes "rx_buffer_bytes s = 0" "\<not> timer_running (rx_byte_timer s)" "rx_buffer s \<noteq> []"
  shows "dart_run env (OpClock ms chrono # OpReceive DART_SYNC # ops) s =
    dart_run env ops (rx_state s [DART_SYNC] (clock_update (d_clock s) ms chrono) (wrk_up env (d_world s)))"
proof -
  obtain wrk w where "pin_get_state env DART_WRK_PIN (d_world s) = (wrk, w)" by fastforce
  with assms show ?thesis
    by (cases s; cases "rx_buffer s"; cases wrk)
      (simp_all add: dart_handle_received_char_def dart_rx_late_def dart_rx_store_def
        dart_rx_first_def rx_state_def wrk_up_def dart_pin_get_state_def dart_pin_set_state_def trunc16_def Let_def)
qed

lemma rx_rest:
  assumes cfg: "dart_config_ok (dart_cfg env)" and len: "length msg < 2 ^ (8 * DART_LEN_SIZE (dart_cfg env))"
    and crc: "length crc = DART_CRC_SIZE (dart_cfg env)" and fits: "DART_FRAME_BYTES (dart_cfg env) (length msg) \<le> rx_buffer_size s"
    and size: "rx_buffer_size s \<le> length (rx_buffer s)" "rx_buffer_size s < 65536"
  shows "bs \<noteq> [] \<Longrightarrow> xs \<noteq> [] \<Longrightarrow> bs @ bytes_of xs = raw_frame (dart_cfg env) msg crc \<Longrightarrow> in_time xs \<Longrightarrow>
    dart_run env (paced xs) (rx_state s bs clk w) =
    dart_rx_frame env (rx_state s (raw_frame (dart_cfg env) msg crc) (clock_after xs clk) w)"
proof (induction xs arbitrary: bs clk)
  case (Cons x xs)
  obtain ms chrono b where x: "x = (ms, chrono, b)" by (cases x)
  have total: "length bs + Suc (length xs) = DART_FRAME_BYTES (dart_cfg env) (length msg)"
    using arg_cong [OF Cons.prems(3), of length] length_raw_frame [OF cfg crc, of msg] x by (simp add: bytes_of_def)
  with fits size have n: "length bs < length (rx_buffer s)" "length bs < 65535" by linarith+
  have step: "dart_run env (paced (x # xs)) (rx_state s bs clk w) =
      do { t \<leftarrow> dart_rx_frame env (rx_state s (bs @ [b]) (clock_update clk ms chrono) w); dart_run env (paced xs) t }"
    unfolding x paced_simps using Cons.prems x by (intro rx_next_byte n) simp_all
  show ?case
  proof (cases xs)
    case Nil
    with step x Cons.prems(3) show ?thesis by (simp del: dart_run.simps) simp
  next
    case (Cons y ys)
    then have "bytes_of xs \<noteq> []" by (simp add: bytes_of_def)
    with rx_frame_waits [OF cfg len crc fits, of "bs @ [b]" "bytes_of xs"] Cons.prems(3) x
    have "dart_rx_frame env (rx_state s (bs @ [b]) (clock_update clk ms chrono) w) =
      Some (rx_state s (bs @ [b]) (clock_update clk ms chrono) w)" by simp
    moreover from Cons have "xs \<noteq> []" by simp
    ultimately show ?thesis using step Cons.IH [of "bs @ [b]" "clock_update clk ms chrono"] Cons.prems x
      by (simp del: dart_run.simps)
  qed
qed simp


lemma frame_received:
  assumes "dart_config_ok (dart_cfg env)" "length msg < 2 ^ (8 * DART_LEN_SIZE (dart_cfg env))"
    "length crc = DART_CRC_SIZE (dart_cfg env)" "DART_FRAME_BYTES (dart_cfg env) (length msg) \<le> rx_buffer_size s"
    "rx_buffer_size s \<le> length (rx_buffer s)" "rx_buffer_size s < 65536"
    "rx_buffer_bytes s = 0" "\<not> timer_running (rx_byte_timer s)"
    "bytes_of xs = raw_frame (dart_cfg env) msg crc" "in_time (tl xs)"
    "t = rx_state s (raw_frame (dart_cfg env) msg crc) (clock_after xs (d_clock s)) (wrk_up env (d_world s))"
  shows "dart_run env (paced xs) s = do {
      self \<leftarrow> (if crc = crc_field (dart_cfg env) (crc_of (dart_cfg env) msg)
        then dart_handle_received_msg env (dart_push_byte env t DART_ACK) (length msg)
        else dart_callback env (dart_push_byte env t DART_BAD) DART_CLBK_TRANSFER_CORRUPTED NoMsg 0);
      Some (dart_rx_drop self) }"
proof -
  from assms(9) obtain ms chrono ys where xs: "xs = (ms, chrono, DART_SYNC) # ys"
    "bytes_of ys = len_field (dart_cfg env) (length msg) @ msg @ crc"
    by (cases xs) (auto simp: raw_frame_def)
  have "len_field (dart_cfg env) (length msg) \<noteq> []" by (simp add: len_field_def)
  with xs(2) have ne: "ys \<noteq> []" by auto
  have raw: "[DART_SYNC] @ bytes_of ys = raw_frame (dart_cfg env) msg crc" using xs(2) by (simp add: raw_frame_def)
  have "0 < rx_buffer_size s" using assms(4) by (simp add: DART_FRAME_BYTES_def DART_LEN_BYTES_def)
  with assms(5) have buf: "rx_buffer s \<noteq> []" by auto
  show ?thesis
    unfolding xs(1) paced_simps rx_sync [OF assms(7,8) buf]
      rx_rest [OF assms(1-6) _ ne raw assms(10) [unfolded xs(1) list.sel], simplified]
    using rx_frame_complete [OF assms(1-4), of t "clock_after xs (d_clock s)" "wrk_up env (d_world s)"] assms(11) xs(1)
    by auto
qed

text \<open>C9: What the receiver does with a whole frame, for any environment: let the bytes SYNC, length,
  data and any checksum arrive one by one, less than 30 ms apart, into an empty receive buffer that
  the frame fits. Then the module differs from before only in the clock, the frame in the receive
  buffer, the running byte timer, the stopped closing timer, and WRK raised if it was down. From
  there, a right checksum makes it send ACK and call dart_handle_received_msg with exactly the
  length of the data that stand in the receive buffer (which may also finish the pending request and
  start the next transfer), a wrong one makes it send BAD and report CORRUPTED; last the receive
  buffer is emptied and the byte timer stopped.\<close>

theorem dart_receives_frame:
  assumes "dart_config_ok (dart_cfg env)" "length msg < 2 ^ (8 * DART_LEN_SIZE (dart_cfg env))"
    "length crc = DART_CRC_SIZE (dart_cfg env)" "DART_FRAME_BYTES (dart_cfg env) (length msg) \<le> rx_buffer_size s"
    "rx_buffer_size s \<le> length (rx_buffer s)" "rx_buffer_size s < 65536"
    "rx_buffer_bytes s = 0" "\<not> timer_running (rx_byte_timer s)"
    "bytes_of xs = raw_frame (dart_cfg env) msg crc" "in_time (tl xs)"
    "t = rx_state s (raw_frame (dart_cfg env) msg crc) (clock_after xs (d_clock s)) (wrk_up env (d_world s))"
  shows "dart_run env (paced xs) s = do {
      self \<leftarrow> (if crc = crc_field (dart_cfg env) (crc_of (dart_cfg env) msg)
        then dart_handle_received_msg env (dart_push_byte env t DART_ACK) (length msg)
        else dart_callback env (dart_push_byte env t DART_BAD) DART_CLBK_TRANSFER_CORRUPTED NoMsg 0);
      Some (dart_rx_drop self) }"
  by (rule frame_received [OF assms])

theorem dart_receives_frame_witness:
  "\<exists>s'. dart_run (bench_env cfg11) (paced [(500, 0, 0x55), (1, 0, 2), (29, 0, 0x12), (7, 0, 0x34), (0, 0, 0xD9)]) bench_init = Some s' \<and>
     b_sent (d_world s') = [[0xAA]] \<and> b_log (d_world s') = [(DART_CLBK_MESSAGE_RECEIVED, Some 0x12, 2)] \<and> rx_buffer_bytes s' = 0"
proof -
  let ?xs = "[(500, 0, 0x55), (1, 0, 2), (29, 0, 0x12), (7, 0, 0x34), (0, 0, 0xD9)] :: (u32 \<times> u32 \<times> u8) list"
  have cfg: "dart_cfg (bench_env cfg11) = cfg11" by (simp add: bench_env_def)
  have crc: "crc_field cfg11 (crc_of cfg11 [0x12, 0x34]) = [0xD9]"
    by (simp add: crc_field_def crc_of_def cfg11_def crc8_round_def)
  define t where "t = rx_state bench_init (raw_frame cfg11 [0x12, 0x34] [0xD9]) (clock_after ?xs (d_clock bench_init))
    (wrk_up (bench_env cfg11) (d_world bench_init))"
  have run: "dart_run (bench_env cfg11) (paced ?xs) bench_init = do {
      self \<leftarrow> dart_handle_received_msg (bench_env cfg11) (dart_push_byte (bench_env cfg11) t DART_ACK) (length [0x12, 0x34 :: u8]);
      Some (dart_rx_drop self) }"
    by (subst dart_receives_frame [where msg = "[0x12, 0x34]" and crc = "[0xD9]" and t = t])
      (simp_all add: cfg crc t_def, simp_all add: bench_init_def dart_set_callback_def dart_init_def dart_reset_def bench0_def
        timer_running_def timer_stop_def cfg11_def DART_FRAME_BYTES_def DART_LEN_BYTES_def raw_frame_def len_field_def)
  show ?thesis unfolding run
    by (simp add: t_def dart_handle_received_msg_def dart_push_byte_def dart_push_def rx_state_def raw_frame_def len_field_def
        bench_env_def cfg11_def DART_DATA_IDX_def dart_callback_def bench_init_def dart_set_callback_def dart_init_def
        dart_reset_def bench0_def ref_type_def dart_rx_drop_def wrk_up_def)
qed

end
