(* ===== verification/Mx_DartLink.thy ===== *)
theory Mx_DartLink
  imports Mx_DartRx
begin

unbundle bit_operations_syntax

text \<open>
  Two DART engines on a line. The line may spoil frames, up to the third attempt, as long as the
  checksum shows it; the stations then agree on what was delivered: a message is reported as done
  if and only if it was handed over at the other end, once and in order.
\<close>

section \<open>A pool in which nothing is allocated\<close>

definition cba_fresh :: "nat \<Rightarrow> cba \<Rightarrow> bool" where
  "cba_fresh n c \<longleftrightarrow> cba_wf c [] \<and> cba_size c = n"

text \<open>The pool while one block is allocated from a fresh one.\<close>

definition cba_single :: "nat \<Rightarrow> nat \<Rightarrow> cba \<Rightarrow> bool" where
  "cba_single n p c \<longleftrightarrow> (\<exists>k. cba_wf c [k] \<and> is_bound c k \<and> p = k + CBA_HEADER_LEN) \<and> cba_size c = n"

lemma cba_fresh_malloc:
  assumes "cba_fresh z c" "cba_chunk_len n + CBA_HEADER_LEN < z"
  shows "\<exists>p c'. cba_malloc c n = Some (Some p, c') \<and> cba_single z p c'"
proof -
  from assms(1) have wf: "cba_wf c []" and size: "cba_size c = z" by (simp_all add: cba_fresh_def)
  then have idle: "tail_idx c = 0" "head_idx c = 0" "free_idx c = 0"
    using cba_layout_nil [of c] by (auto simp: cba_wf_def)
  from wf have pool: "cba_pool c" by (simp add: cba_wf_def)
  then have "cba_size c < 65536" by (simp add: cba_pool_def)
  with idle reallocate_chunk [OF pool, of 0 "cba_chunk_len n"] assms(2) size
  obtain c0 where "cba_malloc c n = Some (Some CBA_HEADER_LEN, c0)"
    by (auto simp: cba_malloc_def cba_allocate_chunk_def sub16_id)
  with cba_malloc_cases [OF wf, of n] size show ?thesis
    by (auto simp: alloc_post_def cba_single_def)
qed

lemma cba_single_free:
  assumes "cba_single z p c"
  shows "\<exists>c'. cba_free c (Some p) = Some c' \<and> cba_fresh z c'"
proof -
  from assms obtain k where k: "cba_wf c [k]" "p = k + CBA_HEADER_LEN" and z: "cba_size c = z"
    by (auto simp: cba_single_def)
  have "k \<in> set [k]" by simp
  from cba_free_ok [OF k(1) this] obtain c' where f: "cba_free c (Some p) = Some c'" and post: "free_post c [k] k c'"
    unfolding k(2) by blast
  from post obtain ys :: "nat list" where "cba_wf c' (drop (length ys) [k])" unfolding free_post_def by blast
  moreover have "\<not> is_bound c' k" using post [unfolded free_post_def, THEN conjunct2, THEN conjunct2, THEN conjunct2] by blast
  moreover have "cba_wf c' [k] \<Longrightarrow> is_bound c' k" by (simp add: cba_wf_def)
  moreover have "drop (length ys) [k] = [] \<or> drop (length ys) [k] = [k]" by (cases "length ys") simp_all
  ultimately have "cba_wf c' []" by metis
  moreover have "cba_size c' = z" using post [unfolded free_post_def, THEN conjunct2, THEN conjunct1] z by simp
  ultimately show ?thesis using f by (auto simp: cba_fresh_def)
qed

lemma cba_single_ok: "cba_single z p c \<Longrightarrow> cba_pool.owns c {p}"
  by (auto simp: cba_single_def cba_pool.owns_def cba_ok_def cba_live_iff)


section \<open>Two stations on a line\<close>

text \<open>The world of a station: its two pins, the bytes it sent, and what its application was told.\<close>

record link =
  l_wrk :: bool
  l_rdy :: bool
  l_out :: "u8 list"
  l_heard :: "(dart_clbk \<times> u8 list) list"

definition ref_bytes :: "dart_config \<Rightarrow> 'w dart \<Rightarrow> msg_ref \<Rightarrow> nat \<Rightarrow> u8 list" where
  "ref_bytes cfg s m n = (case m of NoMsg \<Rightarrow> [] | PoolMsg p \<Rightarrow> map (msg_bytes (d_heap s p)) [0..<n]
     | RxMsg \<Rightarrow> take n (drop (DART_DATA_IDX cfg) (rx_buffer s)))"

definition hear :: "dart_clbk \<Rightarrow> u8 list \<Rightarrow> link dart \<Rightarrow> link dart" where
  "hear c bs s = s\<lparr>d_world := (d_world s)\<lparr>l_heard := l_heard (d_world s) @ [(c, bs)]\<rparr>\<rparr>"

definition link_env :: "dart_config \<Rightarrow> link dart_env" where
  "link_env cfg = \<lparr>dart_cfg = cfg,
     pin_get_state = (\<lambda>p w. (case p of DART_WRK_PIN \<Rightarrow> l_wrk w | DART_RDY_PIN \<Rightarrow> l_rdy w, w)),
     pin_set_state = (\<lambda>p v w. case p of DART_WRK_PIN \<Rightarrow> w\<lparr>l_wrk := v\<rparr> | DART_RDY_PIN \<Rightarrow> w\<lparr>l_rdy := v\<rparr>),
     uart_send = (\<lambda>bs w. w\<lparr>l_out := l_out w @ bs\<rparr>),
     callback_fn = (\<lambda>f pr code m n s. Some (hear code (ref_bytes cfg s m n) s)),
     deferred_fn = (\<lambda>f t s. Some (False, s))\<rparr>"

lemma link_env_simps [simp]:
  "dart_cfg (link_env cfg) = cfg"
  "dart_pin_get_state (link_env cfg) DART_WRK_PIN s = (l_wrk (d_world s), s)"
  "dart_pin_get_state (link_env cfg) DART_RDY_PIN s = (l_rdy (d_world s), s)"
  "dart_push (link_env cfg) s bs = s\<lparr>d_world := (d_world s)\<lparr>l_out := l_out (d_world s) @ bs\<rparr>\<rparr>"
  "d_callback s \<noteq> None \<Longrightarrow> dart_callback (link_env cfg) s code m n = Some (hear code (ref_bytes cfg s m n) s)"
  by (auto simp: link_env_def dart_pin_get_state_def dart_push_def dart_callback_def)

text \<open>A station that is connected, has nothing in its receive buffer and no request pending.\<close>

definition on_line :: "nat \<Rightarrow> link dart \<Rightarrow> bool" where
  "on_line r s \<longleftrightarrow> d_callback s \<noteq> None \<and> d_deferred s = None \<and> d_running s \<and> pending_request s = None \<and>
     rx_buffer_size s = r \<and> r \<le> length (rx_buffer s) \<and> r < 65536 \<and> rx_buffer_bytes s = 0 \<and>
     \<not> timer_running (rx_byte_timer s) \<and> l_wrk (d_world s) \<and> l_rdy (d_world s)"

definition at_rest :: "nat \<Rightarrow> nat \<Rightarrow> link dart \<Rightarrow> bool" where
  "at_rest z r s \<longleftrightarrow> on_line r s \<and> cba_fresh z (d_cba s) \<and> queue_repr (d_heap s) (d_queue s) (\<lambda>_. []) \<and>
     transfering s = None"

text \<open>It has sent \<open>msg\<close> for the \<open>k\<close>-th time after the first and waits for an answer.\<close>

definition sending :: "nat \<Rightarrow> nat \<Rightarrow> nat \<Rightarrow> u8 list \<Rightarrow> link dart \<Rightarrow> bool" where
  "sending z r k msg s \<longleftrightarrow> on_line r s \<and> (\<exists>l p. l < MSG_PRIO_LENGTH \<and> transfering s = Some l \<and>
     cba_single z p (d_cba s) \<and> queue_repr (d_heap s) (d_queue s) ((\<lambda>_. [])(prio_of l := [p])) \<and>
     msg_length (d_heap s p) = length msg \<and> msg_content (d_heap s p) = msg \<and>
     msg_in_chunk (d_cba s) p (sizeof_msg_ptr - sizeof_msg + length msg)) \<and> unat (tx_attempts s) = k"

definition sendable :: "dart_config \<Rightarrow> nat \<Rightarrow> nat \<Rightarrow> u8 list \<Rightarrow> bool" where
  "sendable cfg z r msg \<longleftrightarrow> msg \<noteq> [] \<and> length msg < 2 ^ (8 * DART_LEN_SIZE cfg) \<and> length msg \<le> 65501 \<and>
     cba_chunk_len (sizeof_msg_ptr - sizeof_msg + length msg) + CBA_HEADER_LEN < z \<and> DART_FRAME_BYTES cfg (length msg) \<le> r"

definition transmissible :: "dart_config \<Rightarrow> nat \<Rightarrow> nat \<Rightarrow> u8 list \<Rightarrow> bool" where
  "transmissible cfg z r msg \<longleftrightarrow> sendable cfg z r msg \<and> hd msg AND MSG_TYPE_MASK \<noteq> MSG_REQUEST"

lemma transfer_sends:
  assumes cfg: "dart_config_ok cfg" and s: "d_deferred s = None" and m: "msg_length (d_heap s p) = length msg"
    "msg_content (d_heap s p) = msg" "length msg < 2 ^ (8 * DART_LEN_SIZE cfg)"
    "msg_in_chunk (d_cba s) p (sizeof_msg_ptr - sizeof_msg + length msg)"
  shows "dart_transfer_msg (link_env cfg) s p = Some (DART_SUCCESS,
    s\<lparr>d_world := (d_world s)\<lparr>l_out := l_out (d_world s) @ frame cfg msg\<rparr>,
      tx_ack_timer := timer_start (d_clock s) TIMER_MS DART_ACK_TIMER_VAL\<rparr>)"
proof -
  from m(3) have n: "dart_len cfg (length msg) = length msg" by (simp add: dart_len_def)
  have "dart_compose_frame cfg (replicate (DART_FRAME_BYTES cfg (length msg)) 0) msg (length msg) = Some (frame cfg (take (length msg) msg))"
    by (rule dart_compose_frame_ok [OF cfg]) simp_all
  with n m have "dart_push_frame (link_env cfg) s (map (msg_bytes (d_heap s p)) [0..<length msg]) (length msg) =
    Some (DART_SUCCESS, s\<lparr>d_world := (d_world s)\<lparr>l_out := l_out (d_world s) @ frame cfg msg\<rparr>\<rparr>)"
    by (simp add: dart_push_frame_def msg_content_def)
  moreover have "(if length msg = sizeof_msg then dart_deferred_msg_callback (link_env cfg) s p else Some (False, s)) = Some (False, s)"
    using s by (simp add: dart_deferred_msg_callback_def)
  moreover have "msg_get_length (d_cba s) (d_heap s) p = Some (length msg)"
    "msg_read (d_cba s) (d_heap s) p (length msg) = Some (map (msg_bytes (d_heap s p)) [0..<length msg])"
    using msgs_held_reads [of "d_cba s" "d_heap s" "{p}" p] m(1,4) by simp_all
  ultimately show ?thesis unfolding dart_transfer_msg_def Let_def by (simp add: n)
qed


lemma msg_type_hd: "msg_content m = msg \<Longrightarrow> msg \<noteq> [] \<Longrightarrow> msg_type m = hd msg"
  by (cases "msg_length m") (auto simp: msg_content_def msg_type_def upt_rec)

lemma at_rest_mem: "at_rest z r s \<Longrightarrow> dart_mem s (\<lambda>_. [])"
  by (auto simp: at_rest_def dart_mem_def on_line_def cba_fresh_def cba_pool.owns_def cba_ok_def)

lemma pq_members_single: "pq_members ((\<lambda>_. [])(i := [p])) = {p}"
  by (auto simp: pq_members_iff)

lemma sending_mem:
  "on_line r s \<Longrightarrow> transfering s = Some l \<or> transfering s = None \<Longrightarrow> l < MSG_PRIO_LENGTH \<Longrightarrow> cba_single z p (d_cba s) \<Longrightarrow>
   queue_repr (d_heap s) (d_queue s) ((\<lambda>_. [])(prio_of l := [p])) \<Longrightarrow>
   msg_in_chunk (d_cba s) p (sizeof_msg_ptr - sizeof_msg + msg_length (d_heap s p)) \<Longrightarrow> dart_mem s ((\<lambda>_. [])(prio_of l := [p]))"
  by (auto simp: dart_mem_def on_line_def pq_members_single cba_single_ok)

lemma find_single:
  assumes "l < MSG_PRIO_LENGTH" "pending_request s = None"
  shows "find (may_send s ((\<lambda>_. [])(prio_of l := [p]))) [0..<MSG_PRIO_LENGTH] = Some l"
  using assms by (auto simp: upt_rec may_send_def prio_of_def numeral_eq_Suc less_Suc_eq)

lemma trigger_starts:
  assumes cfg: "dart_config_ok cfg" and s: "on_line r s" "transfering s = None" "l < MSG_PRIO_LENGTH"
    "cba_single z p (d_cba s)" "queue_repr (d_heap s) (d_queue s) ((\<lambda>_. [])(prio_of l := [p]))"
    and m: "msg_length (d_heap s p) = length msg" "msg_content (d_heap s p) = msg" "length msg < 2 ^ (8 * DART_LEN_SIZE cfg)"
      "msg_in_chunk (d_cba s) p (sizeof_msg_ptr - sizeof_msg + length msg)"
  shows "\<exists>t. dart_trigger_transfer (link_env cfg) s = Some (DART_SUCCESS, t) \<and> sending z r 0 msg t \<and>
    l_out (d_world t) = l_out (d_world s) @ frame cfg msg \<and> l_heard (d_world t) = l_heard (d_world s) \<and>
    tx_ack_timer t = timer_start (d_clock s) TIMER_MS DART_ACK_TIMER_VAL \<and> d_clock t = d_clock s"
proof -
  have mem: "dart_mem s ((\<lambda>_. [])(prio_of l := [p]))" by (rule sending_mem) (use s m in auto)
  have peek: "msg_list_peek (list_prio (d_queue s) l) = Some p" using dart_mem_peek [OF mem s(3)] by simp
  have pend: "pending_request s = None" using s(1) by (simp add: on_line_def)
  let ?s = "s\<lparr>transfering := Some l, tx_attempts := 0, wakeup_attempts := 0, closing_timer := timer_stop, wakeup_timer := timer_stop\<rparr>"
  let ?t = "?s\<lparr>d_world := (d_world s)\<lparr>l_out := l_out (d_world s) @ frame cfg msg\<rparr>,
      tx_ack_timer := timer_start (d_clock s) TIMER_MS DART_ACK_TIMER_VAL\<rparr>"
  have "dart_transfer_msg (link_env cfg) ?s p = Some (DART_SUCCESS, ?t)"
    using transfer_sends [OF cfg, of ?s p msg] m s(1) by (simp add: on_line_def)
  then have "dart_start_transfer (link_env cfg) s = Some (DART_SUCCESS, ?t)"
    using dart_find_next_ok [OF mem] find_single [OF s(3) pend, of p] peek by (simp add: dart_start_transfer_def)
  then have "dart_trigger_transfer (link_env cfg) s = Some (DART_SUCCESS, ?t)"
    using s(1,2) by (simp add: dart_trigger_transfer_def dart_wake_up_def on_line_def)
  moreover have "on_line r ?t" using s(1) by (simp add: on_line_def)
  then have "sending z r 0 msg ?t" using s m(1,2,4) by (auto simp: sending_def)
  ultimately show ?thesis by (intro exI [of _ ?t]) simp
qed

text \<open>Sending, acknowledgement and refusal.\<close>

lemma line_send_ok:
  assumes cfg: "dart_config_ok cfg" and s: "at_rest z r s" and m: "sendable cfg z r msg" and l: "l < MSG_PRIO_LENGTH"
  shows "\<exists>t. dart_send_msg_ex (link_env cfg) s l msg (length msg) = Some (DART_SUCCESS, t) \<and> sending z r 0 msg t \<and>
    l_out (d_world t) = l_out (d_world s) @ frame cfg msg \<and> l_heard (d_world t) = l_heard (d_world s) \<and>
    tx_ack_timer t = timer_start (d_clock s) TIMER_MS DART_ACK_TIMER_VAL \<and> d_clock t = d_clock s"
proof -
  let ?size = "sizeof_msg_ptr - sizeof_msg + length msg"
  from m have n: "dart_len cfg (length msg) = length msg" "length msg \<le> 65501" "length msg < 2 ^ (8 * DART_LEN_SIZE cfg)"
    by (simp_all add: sendable_def dart_len_def)
  from s have fresh: "cba_fresh z (d_cba s)" and q: "queue_repr (d_heap s) (d_queue s) (\<lambda>_. [])"
    by (simp_all add: at_rest_def)
  from cba_fresh_malloc [OF fresh, of ?size] m obtain p c where
    c: "cba_malloc (d_cba s) ?size = Some (Some p, c)" "cba_single z p c" by (auto simp: sendable_def)
  have "cba_ok (d_cba s)" using fresh by (auto simp: cba_fresh_def cba_ok_def)
  from cba_malloc_holds [OF this c(1)] msg_in_chunk_new [OF this c(1)] n(2)
  have holds: "chunk_holds c p ?size" and room: "msg_in_chunk c p ?size" by simp_all
  define h where "h = (d_heap s)(p := (d_heap s p)\<lparr>msg_next := None, msg_private := None, msg_length := length msg\<rparr>)"
  have malloc: "msg_ptr_malloc (d_cba s) (d_heap s) (length msg) = Some (Some p, c, h)"
    using c(1) n(2) chunk_holds_mono [OF holds, of 24] by (simp add: msg_ptr_malloc_def trunc16_id h_def)
  define h1 where "h1 = h(p := (h p)\<lparr>msg_bytes := (\<lambda>i. if i < length msg then msg ! i else msg_bytes (h p) i)\<rparr>)"
  have wr: "msg_write c h p msg = Some h1" using holds by (simp add: msg_write_def h1_def)
  have h1: "msg_length (h1 p) = length msg" "msg_content (h1 p) = msg" "h1(p := (h1 p)\<lparr>msg_length := length msg\<rparr>) = h1"
    by (auto simp: h1_def h_def msg_content_def intro: nth_equalityI)
  have "queue_repr h1 (d_queue s) (\<lambda>_. [])" using q by (simp add: h1_def h_def queue_repr_upd_other)
  from queue_repr_push [OF this, of p "prio_of l"] l obtain h2 qu where
    push: "msg_queue_push h1 (d_queue s) l p = (Some p, h2, qu)" "queue_repr h2 qu ((\<lambda>_. [])(prio_of l := [p]))"
    by (auto simp: pq_push_def)
  have h2: "msg_length (h2 p) = length msg" "msg_content (h2 p) = msg"
    using push(1) h1(1,2) by (auto simp: msg_queue_push_def msg_list_push_def msg_content_def Let_def split: option.splits if_splits prod.splits)
  let ?s = "s\<lparr>d_cba := c, d_heap := h2, d_queue := qu\<rparr>"
  have "on_line r ?s" "transfering ?s = None" using s by (simp_all add: at_rest_def on_line_def)
  from trigger_starts [OF cfg this l, of z p msg] c(2) push(2) h2 n(3) room obtain t where
    t: "dart_trigger_transfer (link_env cfg) ?s = Some (DART_SUCCESS, t)" "sending z r 0 msg t"
      "l_out (d_world t) = l_out (d_world s) @ frame cfg msg" "l_heard (d_world t) = l_heard (d_world s)"
      "tx_ack_timer t = timer_start (d_clock s) TIMER_MS DART_ACK_TIMER_VAL" "d_clock t = d_clock s" by auto
  have "list_repr (d_heap s) (list_prio (d_queue s) l) []" using dart_mem_list [OF at_rest_mem [OF s] l] by simp
  then have "msg_tail (list_prio (d_queue s) l) = None" by (simp add: list_repr_def)
  then have "dart_queue_push (s\<lparr>d_cba := c, d_heap := h1\<rparr>) l p = Some (Some p, h2, qu)"
    using push(1) msg_in_chunk_mono [OF room, of 24] by (simp add: dart_queue_push_def msg_link_ok_def)
  then have "dart_send_msg_ex (link_env cfg) s l msg (length msg) = dart_trigger_transfer (link_env cfg) ?s"
    using s l malloc wr h1(3) n(1) by (simp add: dart_send_msg_ex_def at_rest_def on_line_def Let_def)
  with t show ?thesis by auto
qed


lemma find_none: "find (may_send s (\<lambda>_. [])) is = None"
  by (induction "is") (simp_all add: may_send_def)

lemma finalize_completes:
  assumes "d_callback s \<noteq> None" "pending_request s = None" "l_wrk (d_world s)" "l_rdy (d_world s)"
    "transfering s = Some l" "l < MSG_PRIO_LENGTH" "cba_single z p (d_cba s)"
    "queue_repr (d_heap s) (d_queue s) ((\<lambda>_. [])(prio_of l := [p]))"
    "msg_in_chunk (d_cba s) p (sizeof_msg_ptr - sizeof_msg + msg_length (d_heap s p))"
  shows "\<exists>c q. do { self \<leftarrow> dart_finalize_transfer s; dart_trigger_next_transfer (link_env cfg) self } =
      Some (hear DART_CLBK_TRANSFER_COMPLETE [] (s\<lparr>d_cba := c, d_queue := q, transfering := None\<rparr>)) \<and>
    cba_fresh z c \<and> queue_repr (d_heap s) q (\<lambda>_. [])"
proof -
  have mem: "dart_mem s ((\<lambda>_. [])(prio_of l := [p]))"
    using assms(2,5-9) by (auto simp: dart_mem_def pq_members_single cba_single_ok)
  from dart_mem_pop [OF mem assms(6), of p "[]"] obtain l' where
    pop: "dart_list_pop s l = Some (Some p, l')"
      "queue_repr (d_heap s) (set_list (d_queue s) l l') ((\<lambda>_. [])(prio_of l := []))" by auto
  then have rep: "queue_repr (d_heap s) (set_list (d_queue s) l l') (\<lambda>_. [])" by (simp add: fun_upd_def)
  from cba_single_free [OF assms(7)] obtain c where c: "cba_free (d_cba s) (Some p) = Some c" "cba_fresh z c" by blast
  let ?q = "set_list (d_queue s) l l'"
  let ?t = "s\<lparr>d_cba := c, d_queue := ?q, transfering := None\<rparr>"
  have fin: "dart_finalize_transfer s = Some ?t"
    using assms(5) pop(1) c(1) by (cases s) (simp add: dart_finalize_transfer_def msg_ptr_free_def)
  have "dart_mem ?t (\<lambda>_. [])"
    using c(2) rep assms(2) by (auto simp: dart_mem_def cba_pool.owns_def cba_fresh_def cba_ok_def)
  from dart_find_next_ok [OF this] have "dart_find_next_message_queue ?t = Some None" by (simp only: find_none)
  then have "dart_trigger_transfer (link_env cfg) ?t = Some (DART_IDLE, ?t)"
    using assms(2-4) by (cases s) (simp add: dart_trigger_transfer_def dart_wake_up_def dart_start_transfer_def)
  then have "dart_trigger_next_transfer (link_env cfg) ?t = Some (hear DART_CLBK_TRANSFER_COMPLETE [] ?t)"
    using assms(1,2) by (simp add: dart_trigger_next_transfer_def ref_bytes_def)
  with fin c(2) rep show ?thesis by (intro exI [of _ c] exI [of _ ?q]) simp
qed

lemma control_byte:
  assumes "on_line r s" "0 < r" "ch \<noteq> DART_SYNC"
    "s1 = s\<lparr>closing_timer := timer_stop, rx_byte_timer := timer_restart (d_clock s) (rx_byte_timer s),
       rx_buffer := (rx_buffer s)[0 := ch], rx_buffer_bytes := 1\<rparr>"
  shows "dart_do (link_env cfg) (OpReceive ch) s = do {
      self \<leftarrow> (if ch = DART_ACK then dart_acknowledge_msg (link_env cfg) s1
        else if ch = DART_BAD then dart_retry_transfer (link_env cfg) s1
        else if ch = DART_CAN then map_option snd (dart_trigger_transfer (link_env cfg) s1) else Some s1);
      Some (dart_rx_drop self) }"
proof -
  have "dart_rx_late (link_env cfg) s = Some s" using assms(1) by (simp add: dart_rx_late_def on_line_def)
  moreover from assms(1,2) have "0 < length (rx_buffer s)" by (auto simp: on_line_def)
  then have "dart_rx_store s ch = Some s1"
    using assms(1,4) by (auto simp: dart_rx_store_def on_line_def Let_def trunc16_def)
  moreover have "l_wrk (d_world s1)" "rx_buffer_bytes s1 = 1" using assms(1,4) by (simp_all add: on_line_def)
  ultimately show ?thesis using assms(3) by (simp add: dart_handle_received_char_def dart_rx_first_def)
qed

lemma answered:
  assumes s: "sending z r k msg s" and r: "0 < r" and m: "msg \<noteq> []" "hd msg AND MSG_TYPE_MASK \<noteq> MSG_REQUEST"
  shows "\<exists>t. dart_do (link_env cfg) (OpReceive DART_ACK) s = Some t \<and> at_rest z r t \<and> l_out (d_world t) = l_out (d_world s) \<and>
    l_heard (d_world t) = l_heard (d_world s) @ [(DART_CLBK_TRANSFER_DONE, msg), (DART_CLBK_TRANSFER_COMPLETE, [])]"
proof -
  from s obtain l p where line: "on_line r s" and l: "l < MSG_PRIO_LENGTH" "transfering s = Some l"
    and p: "cba_single z p (d_cba s)" "queue_repr (d_heap s) (d_queue s) ((\<lambda>_. [])(prio_of l := [p]))"
      "msg_length (d_heap s p) = length msg" "msg_content (d_heap s p) = msg"
      "msg_in_chunk (d_cba s) p (sizeof_msg_ptr - sizeof_msg + length msg)" by (auto simp: sending_def)
  have mem: "dart_mem s ((\<lambda>_. [])(prio_of l := [p]))" by (rule sending_mem [OF line _ l(1) p(1,2)]) (use l(2) p(3,5) in simp_all)
  note reads = dart_mem_reads [OF mem, unfolded pq_members_single, of p, simplified]
  have peek: "msg_list_peek (list_prio (d_queue s) l) = Some p" using dart_mem_peek [OF mem l(1)] by simp
  define s1 where "s1 = s\<lparr>closing_timer := timer_stop, rx_byte_timer := timer_restart (d_clock s) (rx_byte_timer s),
       rx_buffer := (rx_buffer s)[0 := DART_ACK], rx_buffer_bytes := 1\<rparr>"
  let ?s2 = "hear DART_CLBK_TRANSFER_DONE msg (s1\<lparr>tx_ack_timer := timer_stop\<rparr>)"
  have "\<exists>c q. do { self \<leftarrow> dart_finalize_transfer ?s2; dart_trigger_next_transfer (link_env cfg) self } =
      Some (hear DART_CLBK_TRANSFER_COMPLETE [] (?s2\<lparr>d_cba := c, d_queue := q, transfering := None\<rparr>)) \<and>
      cba_fresh z c \<and> queue_repr (d_heap ?s2) q (\<lambda>_. [])"
    by (rule finalize_completes [of _ l z p]) (use line l p in \<open>simp_all add: hear_def s1_def on_line_def\<close>)
  then obtain c q where fin: "do { self \<leftarrow> dart_finalize_transfer ?s2; dart_trigger_next_transfer (link_env cfg) self } =
      Some (hear DART_CLBK_TRANSFER_COMPLETE [] (?s2\<lparr>d_cba := c, d_queue := q, transfering := None\<rparr>))"
    "cba_fresh z c" "queue_repr (d_heap s) q (\<lambda>_. [])" by (auto simp: hear_def s1_def)
  have ack: "dart_acknowledge_msg (link_env cfg) s1 = do { self \<leftarrow> dart_finalize_transfer ?s2; dart_trigger_next_transfer (link_env cfg) self }"
    using line l peek p m msg_type_hd [OF p(4) m(1)] reads(1,2)
    by (simp add: dart_acknowledge_msg_def s1_def on_line_def ref_bytes_def msg_content_def Let_def)
  let ?t = "dart_rx_drop (hear DART_CLBK_TRANSFER_COMPLETE [] (?s2\<lparr>d_cba := c, d_queue := q, transfering := None\<rparr>))"
  have "dart_do (link_env cfg) (OpReceive DART_ACK) s = Some ?t"
    using control_byte [OF line r _ s1_def, of cfg] fin(1) ack by simp
  moreover have "on_line r ?t"
    using line by (simp add: on_line_def dart_rx_drop_def timer_running_def timer_stop_def hear_def s1_def)
  then have "at_rest z r ?t" using fin(2,3) by (simp add: at_rest_def dart_rx_drop_def hear_def s1_def)
  ultimately show ?thesis by (intro exI [of _ ?t]) (simp add: dart_rx_drop_def hear_def s1_def)
qed


text \<open>What \<open>dart_retry_transfer\<close> does with a message that was sent \<open>k\<close> times after the first.\<close>

lemma retried:
  assumes cfg: "dart_config_ok cfg"
    and s: "d_callback s \<noteq> None" "d_deferred s = None" "pending_request s = None" "l_wrk (d_world s)" "l_rdy (d_world s)"
    and l: "transfering s = Some l" "l < MSG_PRIO_LENGTH"
    and p: "cba_single z p (d_cba s)" "queue_repr (d_heap s) (d_queue s) ((\<lambda>_. [])(prio_of l := [p]))"
      "msg_length (d_heap s p) = length msg" "msg_content (d_heap s p) = msg"
      "msg_in_chunk (d_cba s) p (sizeof_msg_ptr - sizeof_msg + length msg)"
    and n: "unat (tx_attempts s) = k" "k < 3" and len: "length msg < 2 ^ (8 * DART_LEN_SIZE cfg)"
  shows "if k < 2 then dart_retry_transfer (link_env cfg) s = Some (s\<lparr>tx_attempts := tx_attempts s + 1,
        d_world := (d_world s)\<lparr>l_out := l_out (d_world s) @ frame cfg msg\<rparr>,
        tx_ack_timer := timer_start (d_clock s) TIMER_MS DART_ACK_TIMER_VAL\<rparr>) \<and> unat (tx_attempts s + 1) = Suc k
    else \<exists>c q. dart_retry_transfer (link_env cfg) s = Some (hear DART_CLBK_TRANSFER_COMPLETE []
        ((hear DART_CLBK_TRANSFER_FAILURE msg (s\<lparr>tx_ack_timer := timer_stop, tx_attempts := tx_attempts s + 1\<rparr>))
          \<lparr>d_cba := c, d_queue := q, transfering := None\<rparr>)) \<and> cba_fresh z c \<and> queue_repr (d_heap s) q (\<lambda>_. [])"
proof -
  have mem: "dart_mem s ((\<lambda>_. [])(prio_of l := [p]))"
    using s(3) l p by (auto simp: dart_mem_def pq_members_single cba_single_ok)
  note reads = dart_mem_reads [OF mem, unfolded pq_members_single, of p, simplified]
  have peek: "msg_list_peek (list_prio (d_queue s) l) = Some p" using dart_mem_peek [OF mem l(2)] by simp
  have succ: "unat (tx_attempts s + 1) = Suc k" using n by (simp add: unat_word_ariths)
  then have lim: "tx_attempts s + 1 < DART_TX_ATTEMPTS \<longleftrightarrow> k < 2" by (simp add: word_less_nat_alt)
  let ?s = "s\<lparr>tx_ack_timer := timer_stop, tx_attempts := tx_attempts s + 1\<rparr>"
  show ?thesis
  proof (cases "k < 2")
    case True
    have "dart_transfer_msg (link_env cfg) ?s p = Some (DART_SUCCESS, ?s\<lparr>d_world := (d_world s)\<lparr>l_out := l_out (d_world s) @ frame cfg msg\<rparr>,
        tx_ack_timer := timer_start (d_clock s) TIMER_MS DART_ACK_TIMER_VAL\<rparr>)"
      using transfer_sends [OF cfg, of ?s p msg] p len s(2) by simp
    then show ?thesis using l peek lim True succ by (cases s) (simp add: dart_retry_transfer_def)
  next
    case False
    let ?t = "hear DART_CLBK_TRANSFER_FAILURE msg ?s"
    have "\<exists>c q. do { self \<leftarrow> dart_finalize_transfer ?t; dart_trigger_next_transfer (link_env cfg) self } =
        Some (hear DART_CLBK_TRANSFER_COMPLETE [] (?t\<lparr>d_cba := c, d_queue := q, transfering := None\<rparr>)) \<and>
        cba_fresh z c \<and> queue_repr (d_heap ?t) q (\<lambda>_. [])"
      by (rule finalize_completes [of _ l z p]) (use s l p in \<open>simp_all add: hear_def\<close>)
    moreover have "dart_retry_transfer (link_env cfg) s = do { self \<leftarrow> dart_finalize_transfer ?t; dart_trigger_next_transfer (link_env cfg) self }"
      using s(1) l peek lim False p reads(1) by (simp add: dart_retry_transfer_def ref_bytes_def msg_content_def)
    ultimately show ?thesis using False by (simp add: hear_def)
  qed
qed

lemma sending_retried:
  assumes cfg: "dart_config_ok cfg" and s: "sending z r k msg s" "k < 3" and len: "length msg < 2 ^ (8 * DART_LEN_SIZE cfg)"
    and u: "u = s\<lparr>closing_timer := ct, rx_byte_timer := bt, rx_buffer := rb, rx_buffer_bytes := n, tx_ack_timer := at, d_clock := clk\<rparr>"
      "length rb = length (rx_buffer s)"
  shows "\<exists>t. dart_retry_transfer (link_env cfg) u = Some t \<and> d_clock t = clk \<and>
    (if k < 2 then sending z r (Suc k) msg (dart_rx_drop t) \<and> l_out (d_world t) = l_out (d_world s) @ frame cfg msg \<and>
        l_heard (d_world t) = l_heard (d_world s) \<and> tx_ack_timer t = timer_start clk TIMER_MS DART_ACK_TIMER_VAL
     else at_rest z r (dart_rx_drop t) \<and> l_out (d_world t) = l_out (d_world s) \<and>
        l_heard (d_world t) = l_heard (d_world s) @ [(DART_CLBK_TRANSFER_FAILURE, msg), (DART_CLBK_TRANSFER_COMPLETE, [])]) \<and>
    rx_buffer_bytes t = n \<and> rx_byte_timer t = bt"
proof -
  from s(1) obtain l p where line: "on_line r s" and l: "l < MSG_PRIO_LENGTH" "transfering s = Some l"
    and p: "cba_single z p (d_cba s)" "queue_repr (d_heap s) (d_queue s) ((\<lambda>_. [])(prio_of l := [p]))"
      "msg_length (d_heap s p) = length msg" "msg_content (d_heap s p) = msg"
      "msg_in_chunk (d_cba s) p (sizeof_msg_ptr - sizeof_msg + length msg)" and k: "unat (tx_attempts s) = k"
    by (auto simp: sending_def)
  have "if k < 2 then dart_retry_transfer (link_env cfg) u = Some (u\<lparr>tx_attempts := tx_attempts u + 1,
        d_world := (d_world u)\<lparr>l_out := l_out (d_world u) @ frame cfg msg\<rparr>,
        tx_ack_timer := timer_start (d_clock u) TIMER_MS DART_ACK_TIMER_VAL\<rparr>) \<and> unat (tx_attempts u + 1) = Suc k
    else \<exists>c q. dart_retry_transfer (link_env cfg) u = Some (hear DART_CLBK_TRANSFER_COMPLETE []
        ((hear DART_CLBK_TRANSFER_FAILURE msg (u\<lparr>tx_ack_timer := timer_stop, tx_attempts := tx_attempts u + 1\<rparr>))
          \<lparr>d_cba := c, d_queue := q, transfering := None\<rparr>)) \<and> cba_fresh z c \<and> queue_repr (d_heap u) q (\<lambda>_. [])"
    by (rule retried [OF cfg, of _ l z p]) (use line l p k s(2) len in \<open>simp_all add: u(1) on_line_def\<close>)
  note step = this
  show ?thesis
  proof (cases "k < 2")
    case True
    let ?t = "u\<lparr>tx_attempts := tx_attempts u + 1, d_world := (d_world u)\<lparr>l_out := l_out (d_world u) @ frame cfg msg\<rparr>,
        tx_ack_timer := timer_start (d_clock u) TIMER_MS DART_ACK_TIMER_VAL\<rparr>"
    from step True have t: "dart_retry_transfer (link_env cfg) u = Some ?t" "unat (tx_attempts u + 1) = Suc k" by simp_all
    have "on_line r (dart_rx_drop ?t)"
      using line u(2) by (simp add: u(1) on_line_def dart_rx_drop_def timer_running_def timer_stop_def)
    then have "sending z r (Suc k) msg (dart_rx_drop ?t)" using l p t(2) by (auto simp: sending_def dart_rx_drop_def u(1))
    with t(1) True show ?thesis by (intro exI [of _ ?t]) (simp add: u(1))
  next
    case False
    with step obtain c q where t: "dart_retry_transfer (link_env cfg) u = Some (hear DART_CLBK_TRANSFER_COMPLETE []
        ((hear DART_CLBK_TRANSFER_FAILURE msg (u\<lparr>tx_ack_timer := timer_stop, tx_attempts := tx_attempts u + 1\<rparr>))
          \<lparr>d_cba := c, d_queue := q, transfering := None\<rparr>))" (is "_ = Some ?t")
      "cba_fresh z c" "queue_repr (d_heap u) q (\<lambda>_. [])" by auto
    have "on_line r (dart_rx_drop ?t)"
      using line u(2) by (simp add: u(1) on_line_def dart_rx_drop_def timer_running_def timer_stop_def hear_def)
    then have "at_rest z r (dart_rx_drop ?t)" using t(2,3) by (simp add: at_rest_def dart_rx_drop_def hear_def u(1))
    with t(1) False show ?thesis by (intro exI [of _ ?t]) (simp add: u(1) hear_def)
  qed
qed

lemma refused:
  assumes cfg: "dart_config_ok cfg" and s: "sending z r k msg s" and r: "0 < r" and k: "k < 3"
    and len: "length msg < 2 ^ (8 * DART_LEN_SIZE cfg)"
  shows "\<exists>t. dart_do (link_env cfg) (OpReceive DART_BAD) s = Some t \<and>
    (if k < 2 then sending z r (Suc k) msg t \<and> l_out (d_world t) = l_out (d_world s) @ frame cfg msg \<and>
        l_heard (d_world t) = l_heard (d_world s)
     else at_rest z r t \<and> l_out (d_world t) = l_out (d_world s) \<and>
        l_heard (d_world t) = l_heard (d_world s) @ [(DART_CLBK_TRANSFER_FAILURE, msg), (DART_CLBK_TRANSFER_COMPLETE, [])])"
proof -
  from s have line: "on_line r s" by (simp add: sending_def)
  define s1 where "s1 = s\<lparr>closing_timer := timer_stop, rx_byte_timer := timer_restart (d_clock s) (rx_byte_timer s),
       rx_buffer := (rx_buffer s)[0 := DART_BAD], rx_buffer_bytes := 1\<rparr>"
  have step: "dart_do (link_env cfg) (OpReceive DART_BAD) s = map_option dart_rx_drop (dart_retry_transfer (link_env cfg) s1)"
    using control_byte [OF line r _ s1_def, of cfg] by (simp add: map_option_case split: option.splits Option.bind_splits)
  have "s1 = s\<lparr>closing_timer := timer_stop, rx_byte_timer := timer_restart (d_clock s) (rx_byte_timer s),
       rx_buffer := (rx_buffer s)[0 := DART_BAD], rx_buffer_bytes := 1, tx_ack_timer := tx_ack_timer s, d_clock := d_clock s\<rparr>"
    by (cases s) (simp add: s1_def)
  from sending_retried [OF cfg s k len this] step show ?thesis by (auto simp: dart_rx_drop_def)
qed

text \<open>The other station.\<close>

lemma received:
  assumes cfg: "dart_config_ok cfg" and s: "at_rest z r s" and crc: "length crc = DART_CRC_SIZE cfg"
    and m: "length msg < 2 ^ (8 * DART_LEN_SIZE cfg)" "DART_FRAME_BYTES cfg (length msg) \<le> r" "msg \<noteq> []"
    and xs: "bytes_of xs = raw_frame cfg msg crc" "in_time (tl xs)"
  shows "\<exists>t. dart_run (link_env cfg) (paced xs) s = Some t \<and> at_rest z r t \<and>
    (if crc = crc_field cfg (crc_of cfg msg)
     then l_out (d_world t) = l_out (d_world s) @ [DART_ACK] \<and>
       l_heard (d_world t) = l_heard (d_world s) @ [(DART_CLBK_MESSAGE_RECEIVED, msg)]
     else l_out (d_world t) = l_out (d_world s) @ [DART_BAD] \<and>
       l_heard (d_world t) = l_heard (d_world s) @ [(DART_CLBK_TRANSFER_CORRUPTED, [])])"
proof -
  let ?w = "wrk_up (link_env cfg) (d_world s)"
  let ?u = "rx_state s (raw_frame cfg msg crc) (clock_after xs (d_clock s)) ?w"
  from s have line: "on_line r s" by (simp add: at_rest_def)
  have w: "?w = d_world s" using line by (simp add: wrk_up_def link_env_def on_line_def)
  note run = frame_received [of "link_env cfg" msg crc s xs ?u, unfolded link_env_simps, OF cfg m(1) crc _ _ _ _ _ xs refl]
  have buf: "rx_buffer ?u = DART_SYNC # len_field cfg (length msg) @ msg @ crc @ drop (length (raw_frame cfg msg crc)) (rx_buffer s)"
    by (simp add: rx_state_def) (simp add: raw_frame_def)
  have hd: "length (DART_SYNC # len_field cfg (length msg)) = DART_DATA_IDX cfg" using cfg by (simp add: DART_DATA_IDX_def)
  have data: "take (length msg) (drop (DART_DATA_IDX cfg) (rx_buffer ?u)) = msg" unfolding buf hd [symmetric] by simp
  then have "DART_DATA_IDX cfg < length (rx_buffer ?u)" using m(3) by (metis drop_all not_le take_Nil)
  then have rd: "\<exists>ty. rd (rx_buffer ?u) (DART_DATA_IDX cfg) = Some ty" by simp
  let ?f = "\<lambda>c bs b. dart_rx_drop (hear c bs (?u\<lparr>d_world := (d_world s)\<lparr>l_out := l_out (d_world s) @ [b]\<rparr>\<rparr>))"
  have rest: "at_rest z r (?f c bs b)" for c bs b
    using s cfg crc m(2) by (simp add: at_rest_def on_line_def dart_rx_drop_def hear_def rx_state_def timer_running_def timer_stop_def
        length_raw_frame)
  have "dart_run (link_env cfg) (paced xs) s = Some (if crc = crc_field cfg (crc_of cfg msg)
      then ?f DART_CLBK_MESSAGE_RECEIVED msg DART_ACK else ?f DART_CLBK_TRANSFER_CORRUPTED [] DART_BAD)"
    using line rd data m(2) w by (subst run) (auto simp: on_line_def dart_handle_received_msg_def dart_push_byte_def rx_state_def
        ref_bytes_def hear_def)
  with rest show ?thesis by (auto simp: dart_rx_drop_def hear_def)
qed


section \<open>The line\<close>

text \<open>The line between the stations gives the bytes a station sent to the other one, each with the time
  that passed before it, and possibly changed. The answers get through.\<close>

type_synonym line = "u8 list \<Rightarrow> (u32 \<times> u32 \<times> u8) list"

definition take_out :: "link dart \<Rightarrow> u8 list \<times> link dart" where
  "take_out s = (l_out (d_world s), s\<lparr>d_world := (d_world s)\<lparr>l_out := []\<rparr>\<rparr>)"

text \<open>One attempt: what \<open>a\<close> has sent reaches \<open>b\<close>, and what \<open>b\<close> answers reaches \<open>a\<close>.\<close>

definition attempt :: "link dart_env \<Rightarrow> line \<Rightarrow> link dart \<times> link dart \<Rightarrow> (link dart \<times> link dart) option" where
  "attempt env line ab = do {
     let (out, a) = take_out (fst ab);
     b \<leftarrow> dart_run env (paced (line out)) (snd ab);
     let (back, b) = take_out b;
     a \<leftarrow> dart_run env (map OpReceive back) a;
     Some (a, b) }"

fun attempts :: "link dart_env \<Rightarrow> line list \<Rightarrow> link dart \<times> link dart \<Rightarrow> (link dart \<times> link dart) option" where
  "attempts env [] ab = Some ab"
| "attempts env (line # lines) ab = do { ab \<leftarrow> attempt env line ab; attempts env lines ab }"

text \<open>The messages are sent one after the other, each with the line's behaviour for its attempts.\<close>

fun dialogue :: "link dart_env \<Rightarrow> (nat \<times> u8 list \<times> line list) list \<Rightarrow> link dart \<times> link dart \<Rightarrow> (link dart \<times> link dart) option" where
  "dialogue env [] ab = Some ab"
| "dialogue env ((prio, msg, lines) # xs) ab = do {
     (status, a) \<leftarrow> dart_send_msg_ex env (fst ab) prio msg (length msg);
     ab \<leftarrow> attempts env lines (a, snd ab);
     dialogue env xs ab }"

text \<open>A line that gives the frame of \<open>msg\<close> as it is, in time, and one that changes it into something
  with the shape of a frame but a wrong checksum.\<close>

definition clear :: "dart_config \<Rightarrow> u8 list \<Rightarrow> line \<Rightarrow> bool" where
  "clear cfg msg line \<longleftrightarrow> bytes_of (line (frame cfg msg)) = frame cfg msg \<and> in_time (tl (line (frame cfg msg)))"

definition noisy :: "dart_config \<Rightarrow> nat \<Rightarrow> u8 list \<Rightarrow> line \<Rightarrow> bool" where
  "noisy cfg r msg line \<longleftrightarrow> (\<exists>msg' crc. bytes_of (line (frame cfg msg)) = raw_frame cfg msg' crc \<and>
     in_time (tl (line (frame cfg msg))) \<and> msg' \<noteq> [] \<and> length msg' < 2 ^ (8 * DART_LEN_SIZE cfg) \<and>
     DART_FRAME_BYTES cfg (length msg') \<le> r \<and> length crc = DART_CRC_SIZE cfg \<and> crc \<noteq> crc_field cfg (crc_of cfg msg'))"

text \<open>Either fewer than three noisy attempts and then a clear one, or three noisy ones.\<close>

definition lines_ok :: "dart_config \<Rightarrow> nat \<Rightarrow> u8 list \<Rightarrow> line list \<Rightarrow> bool" where
  "lines_ok cfg r msg lines \<longleftrightarrow> length lines \<le> 3 \<and> lines \<noteq> [] \<and> list_all (noisy cfg r msg) (butlast lines) \<and>
     (clear cfg msg (last lines) \<or> length lines = 3 \<and> noisy cfg r msg (last lines))"

definition quiet :: "nat \<Rightarrow> nat \<Rightarrow> link dart \<Rightarrow> bool" where
  "quiet z r s \<longleftrightarrow> at_rest z r s \<and> l_out (d_world s) = []"

definition delivered :: "(dart_clbk \<times> u8 list) list \<Rightarrow> u8 list list" where
  "delivered log = map snd (filter (\<lambda>(c, _). c = DART_CLBK_MESSAGE_RECEIVED) log)"

definition reported :: "dart_config \<Rightarrow> u8 list \<times> line list \<Rightarrow> (dart_clbk \<times> u8 list) list" where
  "reported cfg x = (case x of (msg, lines) \<Rightarrow>
     [(if clear cfg msg (last lines) then DART_CLBK_TRANSFER_DONE else DART_CLBK_TRANSFER_FAILURE, msg),
      (DART_CLBK_TRANSFER_COMPLETE, [])])"

lemma take_out_simps [simp]:
  "at_rest z r (s\<lparr>d_world := (d_world s)\<lparr>l_out := o'\<rparr>\<rparr>) = at_rest z r s"
  "sending z r k msg (s\<lparr>d_world := (d_world s)\<lparr>l_out := o'\<rparr>\<rparr>) = sending z r k msg s"
  by (simp_all add: at_rest_def sending_def on_line_def)

lemma raw_frame_frame: "frame cfg msg = raw_frame cfg msg (crc_field cfg (crc_of cfg msg))"
  by (simp add: frame_def raw_frame_def)

lemma frame_not_clear_noisy: "dart_config_ok cfg \<Longrightarrow> length msg < 2 ^ (8 * DART_LEN_SIZE cfg) \<Longrightarrow>
   noisy cfg r msg line \<Longrightarrow> \<not> clear cfg msg line"
proof
  assume cfg: "dart_config_ok cfg" and len: "length msg < 2 ^ (8 * DART_LEN_SIZE cfg)"
    and noisy: "noisy cfg r msg line" and "clear cfg msg line"
  then obtain msg' crc where eq: "frame cfg msg = raw_frame cfg msg' crc" and m: "length msg' < 2 ^ (8 * DART_LEN_SIZE cfg)"
    and crc: "length crc = DART_CRC_SIZE cfg" "crc \<noteq> crc_field cfg (crc_of cfg msg')" by (auto simp: noisy_def clear_def)
  have "length msg = length msg'"
    using arg_cong [OF eq, of length] cfg crc(1) by (simp add: raw_frame_frame length_raw_frame DART_FRAME_BYTES_def)
  with eq crc(2) cfg show False by (auto simp: raw_frame_frame raw_frame_def)
qed

lemma attempt_ok:
  assumes cfg: "dart_config_ok cfg" and m: "transmissible cfg z r msg" and k: "k < 3"
    and a: "sending z r k msg a" "l_out (d_world a) = frame cfg msg" and b: "quiet z' r b"
    and line: "clear cfg msg line \<or> noisy cfg r msg line"
  shows "\<exists>a' b'. attempt (link_env cfg) line (a, b) = Some (a', b') \<and> quiet z' r b' \<and>
    (if clear cfg msg line then quiet z r a' \<and> l_heard (d_world a') = l_heard (d_world a) @ reported cfg (msg, [line]) \<and>
       delivered (l_heard (d_world b')) = delivered (l_heard (d_world b)) @ [msg]
     else delivered (l_heard (d_world b')) = delivered (l_heard (d_world b)) \<and>
       (if k < 2 then sending z r (Suc k) msg a' \<and> l_out (d_world a') = frame cfg msg \<and> l_heard (d_world a') = l_heard (d_world a)
        else quiet z r a' \<and> l_heard (d_world a') = l_heard (d_world a) @ reported cfg (msg, [line])))"
proof -
  from m have len: "length msg < 2 ^ (8 * DART_LEN_SIZE cfg)" "msg \<noteq> []" "DART_FRAME_BYTES cfg (length msg) \<le> r"
    "hd msg AND MSG_TYPE_MASK \<noteq> MSG_REQUEST" by (simp_all add: transmissible_def sendable_def)
  then have r: "0 < r" by (simp add: DART_FRAME_BYTES_def DART_LEN_BYTES_def)
  from b have rest: "at_rest z' r b" and out: "l_out (d_world b) = []" by (simp_all add: quiet_def)
  let ?a = "a\<lparr>d_world := (d_world a)\<lparr>l_out := []\<rparr>\<rparr>"
  have sa: "sending z r k msg ?a" using a(1) by simp
  show ?thesis
  proof (cases "clear cfg msg line")
    case True
    then have xs: "bytes_of (line (frame cfg msg)) = raw_frame cfg msg (crc_field cfg (crc_of cfg msg))"
      "in_time (tl (line (frame cfg msg)))" by (simp_all add: clear_def raw_frame_frame)
    from received [OF cfg rest _ len(1,3,2) xs] cfg out obtain b' where
      b': "dart_run (link_env cfg) (paced (line (frame cfg msg))) b = Some b'" "at_rest z' r b'"
        "l_out (d_world b') = [DART_ACK]" "l_heard (d_world b') = l_heard (d_world b) @ [(DART_CLBK_MESSAGE_RECEIVED, msg)]"
      by auto
    from answered [OF sa r len(2,4), of cfg] obtain a' where
      a': "dart_do (link_env cfg) (OpReceive DART_ACK) ?a = Some a'" "at_rest z r a'" "l_out (d_world a') = []"
        "l_heard (d_world a') = l_heard (d_world a) @ [(DART_CLBK_TRANSFER_DONE, msg), (DART_CLBK_TRANSFER_COMPLETE, [])]" by auto
    show ?thesis using a(2) b' a' True
      by (simp add: attempt_def take_out_def quiet_def reported_def delivered_def del: dart_do.simps)
  next
    case False
    with line obtain msg' crc where n: "bytes_of (line (frame cfg msg)) = raw_frame cfg msg' crc"
      "in_time (tl (line (frame cfg msg)))" "msg' \<noteq> []" "length msg' < 2 ^ (8 * DART_LEN_SIZE cfg)"
      "DART_FRAME_BYTES cfg (length msg') \<le> r" "length crc = DART_CRC_SIZE cfg" "crc \<noteq> crc_field cfg (crc_of cfg msg')"
      by (auto simp: noisy_def)
    from received [OF cfg rest n(6,4,5,3,1,2)] n(7) out obtain b' where
      b': "dart_run (link_env cfg) (paced (line (frame cfg msg))) b = Some b'" "at_rest z' r b'"
        "l_out (d_world b') = [DART_BAD]" "l_heard (d_world b') = l_heard (d_world b) @ [(DART_CLBK_TRANSFER_CORRUPTED, [])]"
      by auto
    from refused [OF cfg sa r k len(1)] obtain a' where
      a': "dart_do (link_env cfg) (OpReceive DART_BAD) ?a = Some a'"
        "if k < 2 then sending z r (Suc k) msg a' \<and> l_out (d_world a') = frame cfg msg \<and> l_heard (d_world a') = l_heard (d_world a)
         else at_rest z r a' \<and> l_out (d_world a') = [] \<and> l_heard (d_world a') =
           l_heard (d_world a) @ [(DART_CLBK_TRANSFER_FAILURE, msg), (DART_CLBK_TRANSFER_COMPLETE, [])]" by auto
    show ?thesis using a(2) b' a' False
      by (simp add: attempt_def take_out_def quiet_def reported_def delivered_def del: dart_do.simps split: if_splits)
  qed
qed


lemma attempts_ok:
  assumes cfg: "dart_config_ok cfg" and m: "transmissible cfg z r msg"
  shows "sending z r k msg a \<Longrightarrow> l_out (d_world a) = frame cfg msg \<Longrightarrow> quiet z' r b \<Longrightarrow> lines \<noteq> [] \<Longrightarrow>
    k + length lines \<le> 3 \<Longrightarrow> list_all (noisy cfg r msg) (butlast lines) \<Longrightarrow>
    clear cfg msg (last lines) \<or> k + length lines = 3 \<and> noisy cfg r msg (last lines) \<Longrightarrow>
    \<exists>a' b'. attempts (link_env cfg) lines (a, b) = Some (a', b') \<and> quiet z r a' \<and> quiet z' r b' \<and>
      l_heard (d_world a') = l_heard (d_world a) @ reported cfg (msg, lines) \<and>
      delivered (l_heard (d_world b')) = delivered (l_heard (d_world b)) @ (if clear cfg msg (last lines) then [msg] else [])"
proof (induction lines arbitrary: k a b)
  case (Cons line lines)
  show ?case
  proof (cases "lines = []")
    case True
    with Cons.prems(5) have "k < 3" by simp
    moreover from Cons.prems(7) True have "clear cfg msg line \<or> noisy cfg r msg line" by auto
    ultimately obtain a' b' where "attempt (link_env cfg) line (a, b) = Some (a', b')" "quiet z' r b'"
      "if clear cfg msg line then quiet z r a' \<and> l_heard (d_world a') = l_heard (d_world a) @ reported cfg (msg, [line]) \<and>
         delivered (l_heard (d_world b')) = delivered (l_heard (d_world b)) @ [msg]
       else delivered (l_heard (d_world b')) = delivered (l_heard (d_world b)) \<and>
         (if k < 2 then sending z r (Suc k) msg a' \<and> l_out (d_world a') = frame cfg msg \<and> l_heard (d_world a') = l_heard (d_world a)
          else quiet z r a' \<and> l_heard (d_world a') = l_heard (d_world a) @ reported cfg (msg, [line]))"
      using attempt_ok [OF cfg m _ Cons.prems(1-3)] by blast
    with True Cons.prems(7) show ?thesis by (auto split: if_splits)
  next
    case False
    with Cons.prems(6) have noisy: "noisy cfg r msg line" and rest: "list_all (noisy cfg r msg) (butlast lines)" by simp_all
    from m have "length msg < 2 ^ (8 * DART_LEN_SIZE cfg)" by (simp add: transmissible_def sendable_def)
    from frame_not_clear_noisy [OF cfg this noisy] have not: "\<not> clear cfg msg line" .
    from False Cons.prems(5) have k: "k < 2" by (cases lines) simp_all
    from attempt_ok [OF cfg m _ Cons.prems(1-3), of line] noisy not k obtain a' b' where
      step: "attempt (link_env cfg) line (a, b) = Some (a', b')" "quiet z' r b'" "sending z r (Suc k) msg a'"
        "l_out (d_world a') = frame cfg msg" "l_heard (d_world a') = l_heard (d_world a)"
        "delivered (l_heard (d_world b')) = delivered (l_heard (d_world b))" by auto
    have "\<exists>a'' b''. attempts (link_env cfg) lines (a', b') = Some (a'', b'') \<and> quiet z r a'' \<and> quiet z' r b'' \<and>
      l_heard (d_world a'') = l_heard (d_world a') @ reported cfg (msg, lines) \<and>
      delivered (l_heard (d_world b'')) = delivered (l_heard (d_world b')) @ (if clear cfg msg (last lines) then [msg] else [])"
      by (rule Cons.IH [OF step(3,4,2) False]) (use Cons.prems(5,7) rest False in simp_all)
    with step False show ?thesis by (auto simp: reported_def)
  qed
qed simp

text \<open>C2: Two DART engines on a line agree on what was delivered: for any list of reports and responses
  sent one after the other over a line that spoils the frames of some attempts, so that their
  checksum is wrong, a message is handed over at the other end exactly once and in order if one of
  its first three transmissions gets through, and is reported as DONE exactly then; otherwise it is
  reported as FAILURE after three transmissions and never handed over. Afterwards all memory is free
  again. The pool and the receive buffer have room for each message, answers get through, no byte is
  late.\<close>

theorem dart_line_delivers:
  assumes "dart_config_ok cfg" "quiet z r a" "quiet z' r b"
    "list_all (\<lambda>(prio, msg, lines). prio < MSG_PRIO_LENGTH \<and> transmissible cfg z r msg \<and> lines_ok cfg r msg lines) xs"
  shows "\<exists>a' b'. dialogue (link_env cfg) xs (a, b) = Some (a', b') \<and> quiet z r a' \<and> quiet z' r b' \<and>
    delivered (l_heard (d_world b')) = delivered (l_heard (d_world b)) @
      [msg. (_, msg, lines) \<leftarrow> xs, clear cfg msg (last lines)] \<and>
    l_heard (d_world a') = l_heard (d_world a) @ concat (map (\<lambda>x. reported cfg (snd x)) xs)"
  using assms(2-4)
proof (induction xs arbitrary: a b)
  case (Cons x xs)
  obtain prio msg lines where x: "x = (prio, msg, lines)" by (cases x)
  from Cons.prems(3) x have prio: "prio < MSG_PRIO_LENGTH" and m: "transmissible cfg z r msg" and lines: "lines_ok cfg r msg lines"
    and xs: "list_all (\<lambda>(prio, msg, lines). prio < MSG_PRIO_LENGTH \<and> transmissible cfg z r msg \<and> lines_ok cfg r msg lines) xs"
    by simp_all
  from Cons.prems(1) have rest: "at_rest z r a" "l_out (d_world a) = []" by (simp_all add: quiet_def)
  from line_send_ok [OF assms(1) rest(1) m [unfolded transmissible_def, THEN conjunct1] prio] rest(2) obtain a1 where
    a1: "dart_send_msg_ex (link_env cfg) a prio msg (length msg) = Some (DART_SUCCESS, a1)" "sending z r 0 msg a1"
      "l_out (d_world a1) = frame cfg msg" "l_heard (d_world a1) = l_heard (d_world a)" by auto
  have "\<exists>a' b'. attempts (link_env cfg) lines (a1, b) = Some (a', b') \<and> quiet z r a' \<and> quiet z' r b' \<and>
      l_heard (d_world a') = l_heard (d_world a1) @ reported cfg (msg, lines) \<and>
      delivered (l_heard (d_world b')) = delivered (l_heard (d_world b)) @ (if clear cfg msg (last lines) then [msg] else [])"
    by (rule attempts_ok [OF assms(1) m a1(2,3) Cons.prems(2)]) (use lines in \<open>auto simp: lines_ok_def\<close>)
  then obtain a2 b2 where ab: "attempts (link_env cfg) lines (a1, b) = Some (a2, b2)" "quiet z r a2" "quiet z' r b2"
      "l_heard (d_world a2) = l_heard (d_world a1) @ reported cfg (msg, lines)"
      "delivered (l_heard (d_world b2)) = delivered (l_heard (d_world b)) @ (if clear cfg msg (last lines) then [msg] else [])"
    by blast
  from Cons.IH [OF ab(2,3) xs] obtain a' b' where
    "dialogue (link_env cfg) xs (a2, b2) = Some (a', b')" "quiet z r a'" "quiet z' r b'"
    "delivered (l_heard (d_world b')) = delivered (l_heard (d_world b2)) @ [msg. (_, msg, lines) \<leftarrow> xs, clear cfg msg (last lines)]"
    "l_heard (d_world a') = l_heard (d_world a2) @ concat (map (\<lambda>x. reported cfg (snd x)) xs)" by blast
  with a1 ab x show ?case by (intro exI [of _ a'] exI [of _ b']) simp
qed simp

text \<open>Two stations with pools of 50 bytes and receive buffers of 8; the first message gets through at
  the second attempt, the second one never.\<close>

definition station :: "link dart" where
  "station = dart_set_callback (dart_init \<lparr>d_cba = demo_cba, d_heap = heap0, d_queue = \<lparr>list_prio = (\<lambda>_. msg_list_init)\<rparr>,
     transfering = None, pending_request = None, wakeup_timer = timer_stop, wakeup_attempts = 0,
     tx_ack_timer = timer_stop, tx_response_timer = timer_stop, tx_attempts = 0, rx_buffer = [],
     rx_buffer_size = 0, rx_buffer_bytes = 0, rx_byte_timer = timer_stop, d_callback = None,
     callback_private = 0, d_deferred = None, closing_timer = timer_stop, d_running = False,
     d_clock = clock_zero, d_world = \<lparr>l_wrk = True, l_rdy = True, l_out = [], l_heard = []\<rparr>\<rparr>
     pool50 50 (replicate 8 0) 8) 0 (Some 1)"

lemma station_quiet: "quiet 50 8 station"
  using cba_init_wf [OF pool50_ok]
  by (simp add: quiet_def at_rest_def on_line_def station_def dart_set_callback_def dart_init_def dart_reset_def
      cba_fresh_def queue_repr_init timer_running_def timer_stop_def) (simp add: cba_init_def)

definition line_of :: "u8 list \<Rightarrow> line" where
  "line_of flips bs = map2 (\<lambda>b f. (2, 0, b XOR f)) bs flips"

theorem dart_line_delivers_witness:
  "\<exists>a b. dialogue (link_env cfg11) [(1, [0x12, 0x34], [line_of [0, 0, 0, 1, 0], line_of [0, 0, 0, 0, 0]]),
       (0, [0x80, 7, 9], replicate 3 (line_of [0, 0, 0, 0, 4, 0]))] (station, station) = Some (a, b) \<and>
     delivered (l_heard (d_world b)) = [[0x12, 0x34]] \<and>
     l_heard (d_world a) = [(DART_CLBK_TRANSFER_DONE, [0x12, 0x34]), (DART_CLBK_TRANSFER_COMPLETE, []),
       (DART_CLBK_TRANSFER_FAILURE, [0x80, 7, 9]), (DART_CLBK_TRANSFER_COMPLETE, [])]"
proof -
  let ?xs = "[(1, [0x12, 0x34], [line_of [0, 0, 0, 1, 0], line_of [0, 0, 0, 0, 0]]),
       (0, [0x80, 7, 9], replicate 3 (line_of [0, 0, 0, 0, 4, 0]))] :: (nat \<times> u8 list \<times> line list) list"
  have clear: "clear cfg11 [0x12, 0x34] (line_of [0, 0, 0, 0, 0])"
    by (simp add: clear_def line_of_def frame_def cfg11_def len_field_def crc_field_def crc_of_def crc8_round_def)
  have noise: "noisy cfg11 8 [0x12, 0x34] (line_of [0, 0, 0, 1, 0])"
    unfolding noisy_def by (rule exI [of _ "[0x12, 0x35]"], rule exI [of _ "[0xD9]"])
      (simp add: line_of_def frame_def cfg11_def len_field_def crc_field_def crc_of_def crc8_round_def raw_frame_def
        DART_FRAME_BYTES_def DART_LEN_BYTES_def)
  have noise': "noisy cfg11 8 [0x80, 7, 9] (line_of [0, 0, 0, 0, 4, 0])"
    unfolding noisy_def by (rule exI [of _ "[0x80, 7, 13]"], rule exI [of _ "[0x71]"])
      (simp add: line_of_def frame_def cfg11_def len_field_def crc_field_def crc_of_def crc8_round_def raw_frame_def
        DART_FRAME_BYTES_def DART_LEN_BYTES_def)
  from frame_not_clear_noisy [OF cfgs_ok(1) _ noise'] have not: "\<not> clear cfg11 [0x80, 7, 9] (line_of [0, 0, 0, 0, 4, 0])"
    by (simp add: cfg11_def)
  have "list_all (\<lambda>(prio, msg, lines). prio < MSG_PRIO_LENGTH \<and> transmissible cfg11 50 8 msg \<and> lines_ok cfg11 8 msg lines) ?xs"
    using clear noise noise'
    by (simp add: lines_ok_def numeral_3_eq_3 transmissible_def sendable_def cfg11_def DART_FRAME_BYTES_def DART_LEN_BYTES_def cba_chunk_len_def trunc16_def)
  from dart_line_delivers [OF cfgs_ok(1) station_quiet station_quiet this] clear not show ?thesis
    by (auto simp: reported_def delivered_def station_def dart_set_callback_def dart_init_def dart_reset_def numeral_3_eq_3)
qed

end
