(* ===== verification/Mx_DartRequest.thy ===== *)
theory Mx_DartRequest
  imports Mx_DartLink
begin

unbundle bit_operations_syntax

text \<open>
  Requests over the line of \<open>Mx_DartLink\<close>: an acknowledged request is kept until its response comes or
  the response timer runs out.
\<close>

section \<open>A request that waits for its response\<close>

definition waiting :: "nat \<Rightarrow> nat \<Rightarrow> u8 list \<Rightarrow> clock \<Rightarrow> link dart \<Rightarrow> bool" where
  "waiting z r req clk s \<longleftrightarrow> on_line r (s\<lparr>pending_request := None\<rparr>) \<and> transfering s = None \<and>
     queue_repr (d_heap s) (d_queue s) (\<lambda>_. []) \<and>
     (\<exists>p. pending_request s = Some p \<and> cba_single z p (d_cba s) \<and>
        msg_length (d_heap s p) = length req \<and> msg_content (d_heap s p) = req \<and>
        msg_in_chunk (d_cba s) p (sizeof_msg_ptr - sizeof_msg + length req)) \<and>
     tx_response_timer s = timer_start clk TIMER_MS DART_RESPONSE_TIMER_VAL \<and> \<not> timer_running (closing_timer s)"

lemma waiting_mem: "waiting z r req clk s \<Longrightarrow> dart_mem s (\<lambda>_. [])"
  by (auto simp: waiting_def dart_mem_def cba_single_ok)

lemma request_acknowledged:
  assumes s: "sending z r k req s" and r: "0 < r" and m: "req \<noteq> []" "hd req AND MSG_TYPE_MASK = MSG_REQUEST"
  shows "\<exists>t. dart_do (link_env cfg) (OpReceive DART_ACK) s = Some t \<and> waiting z r req (d_clock s) t \<and>
    l_out (d_world t) = l_out (d_world s) \<and> l_heard (d_world t) = l_heard (d_world s) \<and> d_clock t = d_clock s"
proof -
  from s obtain l p where line: "on_line r s" and l: "l < MSG_PRIO_LENGTH" "transfering s = Some l"
    and p: "cba_single z p (d_cba s)" "queue_repr (d_heap s) (d_queue s) ((\<lambda>_. [])(prio_of l := [p]))"
      "msg_length (d_heap s p) = length req" "msg_content (d_heap s p) = req"
      "msg_in_chunk (d_cba s) p (sizeof_msg_ptr - sizeof_msg + length req)" by (auto simp: sending_def)
  have mem: "dart_mem s ((\<lambda>_. [])(prio_of l := [p]))" by (rule sending_mem [OF line _ l(1) p(1,2)]) (use l(2) p(3,5) in simp_all)
  note reads = dart_mem_reads [OF mem, unfolded pq_members_single, of p, simplified]
  have peek: "msg_list_peek (list_prio (d_queue s) l) = Some p" using dart_mem_peek [OF mem l(1)] by simp
  from dart_mem_pop [OF mem l(1), of p "[]"] obtain l' where
    pop: "dart_list_pop s l = Some (Some p, l')"
      "queue_repr (d_heap s) (set_list (d_queue s) l l') ((\<lambda>_. [])(prio_of l := []))" by auto
  then have rep: "queue_repr (d_heap s) (set_list (d_queue s) l l') (\<lambda>_. [])" by (simp add: fun_upd_def)
  define s1 where "s1 = s\<lparr>closing_timer := timer_stop, rx_byte_timer := timer_restart (d_clock s) (rx_byte_timer s),
       rx_buffer := (rx_buffer s)[0 := DART_ACK], rx_buffer_bytes := 1\<rparr>"
  define s2 where "s2 = s1\<lparr>tx_ack_timer := timer_stop, tx_response_timer := timer_start (d_clock s) TIMER_MS DART_RESPONSE_TIMER_VAL,
      d_queue := set_list (d_queue s) l l', pending_request := Some p, transfering := None\<rparr>"
  have "dart_mem s2 (\<lambda>_. [])" using rep p(1,3,5) by (simp add: dart_mem_def s2_def s1_def cba_single_ok)
  from dart_find_next_ok [OF this] have "dart_find_next_message_queue s2 = Some None" by (simp only: find_none)
  moreover have "s2\<lparr>transfering := None\<rparr> = s2" by (cases s) (simp add: s2_def s1_def)
  ultimately have "dart_trigger_transfer (link_env cfg) s2 = Some (DART_PENDING, s2)"
    using line by (simp add: dart_trigger_transfer_def dart_wake_up_def dart_start_transfer_def s2_def s1_def on_line_def)
  then have next_none: "dart_trigger_next_transfer (link_env cfg) s2 = Some s2"
    by (simp add: dart_trigger_next_transfer_def s2_def)
  moreover have "dart_finalize_transfer s2 = Some s2" by (simp add: dart_finalize_transfer_def s2_def)
  moreover have "dart_list_pop (s1\<lparr>tx_ack_timer := t, tx_response_timer := u\<rparr>) l = Some (Some p, l')" for t u
    using pop(1) by (simp add: dart_list_pop_def s1_def split: if_splits)
  ultimately have "dart_acknowledge_msg (link_env cfg) s1 = Some s2"
    using l peek m msg_type_hd [OF p(4) m(1)] reads(2)
    by (simp add: dart_acknowledge_msg_def s1_def s2_def Let_def)
  then have "dart_do (link_env cfg) (OpReceive DART_ACK) s = Some (dart_rx_drop s2)"
    using control_byte [OF line r _ s1_def, of cfg] by simp
  moreover have "waiting z r req (d_clock s) (dart_rx_drop s2)"
    using line rep p by (simp add: waiting_def on_line_def dart_rx_drop_def timer_running_def timer_stop_def s1_def s2_def)
  ultimately show ?thesis by (intro exI [of _ "dart_rx_drop s2"]) (simp add: dart_rx_drop_def s1_def s2_def)
qed

text \<open>The pending request is finished and nothing else is to be sent.\<close>

lemma finalize_request:
  assumes "d_callback s \<noteq> None" "l_wrk (d_world s)" "l_rdy (d_world s)" "transfering s = None"
    "queue_repr (d_heap s) (d_queue s) (\<lambda>_. [])" "pending_request s = Some p" "cba_single z p (d_cba s)"
  shows "\<exists>c. dart_finalize_request_msg (link_env cfg) s = Some (hear DART_CLBK_TRANSFER_COMPLETE []
      (s\<lparr>tx_response_timer := timer_stop, d_cba := c, pending_request := None\<rparr>)) \<and> cba_fresh z c"
proof -
  from cba_single_free [OF assms(7)] obtain c where c: "cba_free (d_cba s) (Some p) = Some c" "cba_fresh z c" by blast
  define t where "t = s\<lparr>tx_response_timer := timer_stop, d_cba := c, pending_request := None\<rparr>"
  have "dart_mem t (\<lambda>_. [])"
    using c(2) assms(4,5) by (auto simp: t_def dart_mem_def cba_pool.owns_def cba_fresh_def cba_ok_def)
  from dart_find_next_ok [OF this] have "dart_find_next_message_queue t = Some None" by (simp only: find_none)
  moreover have "t\<lparr>transfering := None\<rparr> = t" using assms(4) by (cases s) (simp add: t_def)
  ultimately have "dart_trigger_transfer (link_env cfg) t = Some (DART_IDLE, t)"
    using assms(2-4) by (simp add: dart_trigger_transfer_def dart_wake_up_def dart_start_transfer_def t_def)
  then have "dart_trigger_next_transfer (link_env cfg) t = Some (hear DART_CLBK_TRANSFER_COMPLETE [] t)"
    using assms(1) by (simp add: dart_trigger_next_transfer_def ref_bytes_def t_def)
  then show ?thesis using c assms(6) by (intro exI [of _ c]) (simp add: dart_finalize_request_msg_def t_def)
qed

definition answers :: "u8 list \<Rightarrow> u8 list \<Rightarrow> bool" where
  "answers resp req \<longleftrightarrow> hd resp AND MSG_TYPE_MASK = MSG_RESPONSE \<and> hd req AND MSG_ID_MASK = hd resp AND MSG_ID_MASK"

lemma waiting_received:
  assumes cfg: "dart_config_ok cfg" and s: "waiting z r req clk s" and req: "req \<noteq> []"
    and m: "length msg < 2 ^ (8 * DART_LEN_SIZE cfg)" "DART_FRAME_BYTES cfg (length msg) \<le> r" "msg \<noteq> []"
    and xs: "bytes_of xs = frame cfg msg" "in_time (tl xs)"
  shows "\<exists>t log. dart_run (link_env cfg) (paced xs) s = Some t \<and> l_out (d_world t) = l_out (d_world s) @ [DART_ACK] \<and>
    l_heard (d_world t) = l_heard (d_world s) @ (DART_CLBK_MESSAGE_RECEIVED, msg) # log \<and>
    (if answers msg req then at_rest z r t \<and> log = [(DART_CLBK_TRANSFER_DONE, ref_bytes cfg s (PoolMsg (the (pending_request s))) (length msg)), (DART_CLBK_TRANSFER_COMPLETE, [])]
     else waiting z r req clk t \<and> log = [] \<and> d_clock t = clock_after xs (d_clock s))"
proof -
  let ?crc = "crc_field cfg (crc_of cfg msg)"
  let ?w = "wrk_up (link_env cfg) (d_world s)"
  let ?u = "rx_state s (raw_frame cfg msg ?crc) (clock_after xs (d_clock s)) ?w"
  from s obtain p where p: "pending_request s = Some p" "cba_single z p (d_cba s)" "msg_content (d_heap s p) = req"
    by (auto simp: waiting_def)
  have line: "on_line r (s\<lparr>pending_request := None\<rparr>)" using s by (simp add: waiting_def)
  have w: "?w = d_world s" using line by (simp add: wrk_up_def link_env_def on_line_def)
  have crc: "length ?crc = DART_CRC_SIZE cfg" using cfg by simp
  have "dart_run (link_env cfg) (paced xs) s = do {
      self \<leftarrow> dart_handle_received_msg (link_env cfg) (dart_push_byte (link_env cfg) ?u DART_ACK) (length msg);
      Some (dart_rx_drop self) }"
    using frame_received [of "link_env cfg" msg ?crc s xs ?u, unfolded link_env_simps, OF cfg m(1) crc] line m(2) xs
    by (simp add: on_line_def raw_frame_frame)
  note run = this
  define u where "u = ?u\<lparr>d_world := (d_world s)\<lparr>l_out := l_out (d_world s) @ [DART_ACK]\<rparr>\<rparr>"
  have push: "dart_push_byte (link_env cfg) ?u DART_ACK = u"
    using w by (simp add: dart_push_byte_def u_def rx_state_def)
  have buf: "rx_buffer u = DART_SYNC # len_field cfg (length msg) @ msg @ ?crc @ drop (length (raw_frame cfg msg ?crc)) (rx_buffer s)"
    by (simp add: u_def rx_state_def) (simp add: raw_frame_def)
  have hd: "length (DART_SYNC # len_field cfg (length msg)) = DART_DATA_IDX cfg" using cfg by (simp add: DART_DATA_IDX_def)
  have data: "take (length msg) (drop (DART_DATA_IDX cfg) (rx_buffer u)) = msg" unfolding buf hd [symmetric] by simp
  have "rd (rx_buffer u) (DART_DATA_IDX cfg) = Some (hd msg)"
    unfolding buf hd [symmetric] using m(3) by (simp add: rd_def nth_append hd_conv_nth)
  define u1 where "u1 = hear DART_CLBK_MESSAGE_RECEIVED msg u"
  have clbk: "d_callback u \<noteq> None" using line by (auto simp: u_def rx_state_def on_line_def)
  have u1: "pending_request u1 = Some p" "d_heap u1 = d_heap s" "d_callback u1 \<noteq> None"
    using p clbk by (simp_all add: u1_def u_def hear_def rx_state_def)
  have "msg_get_type (d_cba s) (d_heap s) p = Some (msg_type (d_heap s p))"
    using dart_mem_reads(2) [OF waiting_mem [OF s]] p(1) by blast
  then have get: "msg_get_type (d_cba u1) (d_heap u1) p = Some (msg_type (d_heap s p))"
    by (simp add: u1_def u_def hear_def rx_state_def)
  have ty: "msg_type (d_heap s p) = hd req" using msg_type_hd [OF p(3) req] .
  have handle: "dart_handle_received_msg (link_env cfg) u (length msg) =
      (if answers msg req then dart_finalize_request_msg (link_env cfg) (hear DART_CLBK_TRANSFER_DONE (ref_bytes cfg s (PoolMsg p) (length msg)) u1)
       else Some u1)"
    using \<open>rd _ _ = _\<close> data clbk u1 ty get
    by (simp add: dart_handle_received_msg_def answers_def u1_def [symmetric] ref_bytes_def del: msg_ref.simps) (simp add: ref_bytes_def u1_def)
  show ?thesis
  proof (cases "answers msg req")
    case False
    with run push handle have "dart_run (link_env cfg) (paced xs) s = Some (dart_rx_drop u1)" by simp
    moreover have "waiting z r req clk (dart_rx_drop u1)"
      using s cfg m(2) by (simp add: waiting_def on_line_def dart_rx_drop_def timer_running_def timer_stop_def u1_def u_def
          hear_def rx_state_def length_raw_frame)
    ultimately show ?thesis using False
      by (intro exI [of _ "dart_rx_drop u1"] exI [of _ "[]"]) (simp add: dart_rx_drop_def u1_def u_def hear_def rx_state_def)
  next
    case True
    let ?u2 = "hear DART_CLBK_TRANSFER_DONE (ref_bytes cfg s (PoolMsg p) (length msg)) u1"
    have "\<exists>c. dart_finalize_request_msg (link_env cfg) ?u2 = Some (hear DART_CLBK_TRANSFER_COMPLETE []
      (?u2\<lparr>tx_response_timer := timer_stop, d_cba := c, pending_request := None\<rparr>)) \<and> cba_fresh z c"
      by (rule finalize_request [of _ p])
        (use s p line in \<open>simp_all add: waiting_def on_line_def u1_def u_def hear_def rx_state_def\<close>)
    then obtain c where c: "dart_finalize_request_msg (link_env cfg) ?u2 = Some (hear DART_CLBK_TRANSFER_COMPLETE []
      (?u2\<lparr>tx_response_timer := timer_stop, d_cba := c, pending_request := None\<rparr>))" "cba_fresh z c" by blast
    let ?t = "dart_rx_drop (hear DART_CLBK_TRANSFER_COMPLETE []
      (?u2\<lparr>tx_response_timer := timer_stop, d_cba := c, pending_request := None\<rparr>))"
    have "dart_run (link_env cfg) (paced xs) s = Some ?t" using run push handle True c(1) by simp
    moreover have "at_rest z r ?t"
      using s cfg m(2) c(2) by (simp add: waiting_def at_rest_def on_line_def dart_rx_drop_def timer_running_def timer_stop_def u1_def u_def
          hear_def rx_state_def length_raw_frame)
    ultimately show ?thesis using True p(1)
      by (intro exI [of _ ?t]) (simp add: dart_rx_drop_def u1_def u_def hear_def rx_state_def)
  qed
qed

text \<open>The request was given up.\<close>

lemma waiting_abandoned:
  assumes s: "waiting z r req clk s" and late: "d_clock s = clock_run clk us" "3000 \<le> elapsed us" "elapsed us < 2 ^ 32"
  shows "\<exists>t. dart_do (link_env cfg) OpTime s = Some t \<and> at_rest z r t \<and> l_out (d_world t) = l_out (d_world s) \<and>
    l_heard (d_world t) = l_heard (d_world s) @ [(DART_CLBK_MESSAGE_ABANDONED, req), (DART_CLBK_TRANSFER_COMPLETE, [])]"
proof -
  from s obtain p where p: "pending_request s = Some p" "cba_single z p (d_cba s)" "msg_content (d_heap s p) = req"
    "msg_length (d_heap s p) = length req" by (auto simp: waiting_def)
  have line: "on_line r (s\<lparr>pending_request := None\<rparr>)" and idle: "transfering s = None" using s by (simp_all add: waiting_def)
  have expired: "timer_expired (d_clock s) (tx_response_timer s)"
    using s late timer_ms_expired [OF late(3), of clk DART_RESPONSE_TIMER_VAL] by (simp add: waiting_def)
  define u where "u = hear DART_CLBK_MESSAGE_ABANDONED req s"
  have "\<exists>c. dart_finalize_request_msg (link_env cfg) u = Some (hear DART_CLBK_TRANSFER_COMPLETE []
      (u\<lparr>tx_response_timer := timer_stop, d_cba := c, pending_request := None\<rparr>)) \<and> cba_fresh z c"
    by (rule finalize_request [of _ p]) (use s p line in \<open>simp_all add: waiting_def on_line_def u_def hear_def\<close>)
  then obtain c where c: "dart_finalize_request_msg (link_env cfg) u = Some (hear DART_CLBK_TRANSFER_COMPLETE []
      (u\<lparr>tx_response_timer := timer_stop, d_cba := c, pending_request := None\<rparr>))" "cba_fresh z c" by blast
  let ?v = "hear DART_CLBK_TRANSFER_COMPLETE [] (u\<lparr>tx_response_timer := timer_stop, d_cba := c, pending_request := None\<rparr>)"
  have ab: "dart_abandon_request_msg (link_env cfg) s = Some ?v"
    using line p c(1) dart_mem_reads(1) [OF waiting_mem [OF s]] by (simp add: dart_abandon_request_msg_def on_line_def u_def ref_bytes_def msg_content_def)
  have rest: "at_rest z r ?v" using s c(2) by (simp add: waiting_def at_rest_def on_line_def u_def hear_def)
  from dart_find_next_ok [OF at_rest_mem [OF rest]] have none: "dart_find_next_message_queue ?v = Some None" by (simp only: find_none)
  let ?t = "?v\<lparr>closing_timer := timer_start (d_clock ?v) TIMER_MS DART_CLOSING_TIMER_VAL\<rparr>"
  have "dart_closing (link_env cfg) ?v = Some (DART_IDLE, ?t)"
    using s line by (simp add: dart_closing_def waiting_def on_line_def u_def hear_def)
  then have "dart_handle_time (link_env cfg) s = Some (DART_IDLE, ?t)"
    using expired p(1) ab none idle line by (simp add: dart_handle_time_def on_line_def u_def hear_def)
  moreover have "at_rest z r ?t" using rest by (simp add: at_rest_def on_line_def)
  ultimately show ?thesis by (intro exI [of _ ?t]) (simp add: u_def hear_def)
qed

text \<open>The request reaches the other station, and then the response comes back.\<close>

lemma request_phase:
  assumes cfg: "dart_config_ok cfg" and a: "quiet z r a" and b: "quiet z' r b"
    and req: "sendable cfg z r req" "hd req AND MSG_TYPE_MASK = MSG_REQUEST" "prio < MSG_PRIO_LENGTH" "clear cfg req there"
  shows "\<exists>a1 a2 b2. dart_send_msg_ex (link_env cfg) a prio req (length req) = Some (DART_SUCCESS, a1) \<and>
    attempt (link_env cfg) there (a1, b) = Some (a2, b2) \<and> waiting z r req (d_clock a1) a2 \<and> d_clock a2 = d_clock a1 \<and> l_out (d_world a2) = [] \<and>
    l_heard (d_world a2) = l_heard (d_world a) \<and> quiet z' r b2 \<and>
    l_heard (d_world b2) = l_heard (d_world b) @ [(DART_CLBK_MESSAGE_RECEIVED, req)]"
proof -
  from req(1) have ne: "req \<noteq> []" and lens: "length req < 2 ^ (8 * DART_LEN_SIZE cfg)" "DART_FRAME_BYTES cfg (length req) \<le> r"
    by (simp_all add: sendable_def)
  then have r: "0 < r" by (simp add: DART_FRAME_BYTES_def DART_LEN_BYTES_def)
  from a b have rest: "at_rest z r a" "l_out (d_world a) = []" "at_rest z' r b" "l_out (d_world b) = []" by (simp_all add: quiet_def)
  from line_send_ok [OF cfg rest(1) req(1,3)] rest(2) obtain a1 where
    a1: "dart_send_msg_ex (link_env cfg) a prio req (length req) = Some (DART_SUCCESS, a1)" "sending z r 0 req a1"
      "l_out (d_world a1) = frame cfg req" "l_heard (d_world a1) = l_heard (d_world a)" by auto
  let ?a1 = "a1\<lparr>d_world := (d_world a1)\<lparr>l_out := []\<rparr>\<rparr>"
  from req(4) have xs: "bytes_of (there (frame cfg req)) = raw_frame cfg req (crc_field cfg (crc_of cfg req))"
    "in_time (tl (there (frame cfg req)))" by (simp_all add: clear_def raw_frame_frame)
  from received [OF cfg rest(3) _ lens ne xs] cfg rest(4) obtain b1 where
    b1: "dart_run (link_env cfg) (paced (there (frame cfg req))) b = Some b1" "at_rest z' r b1" "l_out (d_world b1) = [DART_ACK]"
      "l_heard (d_world b1) = l_heard (d_world b) @ [(DART_CLBK_MESSAGE_RECEIVED, req)]" by auto
  let ?b2 = "b1\<lparr>d_world := (d_world b1)\<lparr>l_out := []\<rparr>\<rparr>"
  have "sending z r 0 req ?a1" using a1(2) by simp
  from request_acknowledged [OF this r ne req(2), of cfg] obtain a2 where
    a2: "dart_do (link_env cfg) (OpReceive DART_ACK) ?a1 = Some a2" "waiting z r req (d_clock ?a1) a2" "l_out (d_world a2) = []"
      "l_heard (d_world a2) = l_heard (d_world a)" "d_clock a2 = d_clock a1" using a1(4) by auto
  have "attempt (link_env cfg) there (a1, b) = Some (a2, ?b2)"
    using a1(3) b1 a2(1) by (simp add: attempt_def take_out_def del: dart_do.simps)
  moreover have "quiet z' r ?b2" using b1(2) by (simp add: quiet_def)
  ultimately show ?thesis using a1(1) a2 b1(4) by (intro exI [of _ a1] exI [of _ a2] exI [of _ ?b2]) simp
qed

lemma response_phase:
  assumes cfg: "dart_config_ok cfg" and a: "waiting z r req clk a" "l_out (d_world a) = []" "req \<noteq> []" and b: "quiet z' r b"
    and resp: "sendable cfg z' r resp" "answers resp req" "prio < MSG_PRIO_LENGTH" "clear cfg resp back"
  shows "\<exists>b1 a2 b2. dart_send_msg_ex (link_env cfg) b prio resp (length resp) = Some (DART_SUCCESS, b1) \<and>
    attempt (link_env cfg) back (b1, a) = Some (b2, a2) \<and> quiet z r a2 \<and> quiet z' r b2 \<and>
    l_heard (d_world b2) = l_heard (d_world b) @ [(DART_CLBK_TRANSFER_DONE, resp), (DART_CLBK_TRANSFER_COMPLETE, [])] \<and>
    l_heard (d_world a2) = l_heard (d_world a) @ [(DART_CLBK_MESSAGE_RECEIVED, resp),
      (DART_CLBK_TRANSFER_DONE, ref_bytes cfg a (PoolMsg (the (pending_request a))) (length resp)), (DART_CLBK_TRANSFER_COMPLETE, [])]"
proof -
  from resp(1) have ne: "resp \<noteq> []" and lens: "length resp < 2 ^ (8 * DART_LEN_SIZE cfg)" "DART_FRAME_BYTES cfg (length resp) \<le> r"
    by (simp_all add: sendable_def)
  then have r: "0 < r" by (simp add: DART_FRAME_BYTES_def DART_LEN_BYTES_def)
  have notreq: "hd resp AND MSG_TYPE_MASK \<noteq> MSG_REQUEST" using resp(2) by (simp add: answers_def)
  from b have rest: "at_rest z' r b" "l_out (d_world b) = []" by (simp_all add: quiet_def)
  from line_send_ok [OF cfg rest(1) resp(1,3)] rest(2) obtain b1 where
    b1: "dart_send_msg_ex (link_env cfg) b prio resp (length resp) = Some (DART_SUCCESS, b1)" "sending z' r 0 resp b1"
      "l_out (d_world b1) = frame cfg resp" "l_heard (d_world b1) = l_heard (d_world b)" by auto
  let ?b1 = "b1\<lparr>d_world := (d_world b1)\<lparr>l_out := []\<rparr>\<rparr>"
  let ?bs = "ref_bytes cfg a (PoolMsg (the (pending_request a))) (length resp)"
  from resp(4) have ys: "bytes_of (back (frame cfg resp)) = frame cfg resp" "in_time (tl (back (frame cfg resp)))"
    by (simp_all add: clear_def)
  from waiting_received [OF cfg a(1,3) lens ne ys, unfolded if_P [OF resp(2)]] obtain a1 where
    a1: "dart_run (link_env cfg) (paced (back (frame cfg resp))) a = Some a1" "l_out (d_world a1) = [DART_ACK]" "at_rest z r a1"
      "l_heard (d_world a1) = l_heard (d_world a) @ [(DART_CLBK_MESSAGE_RECEIVED, resp), (DART_CLBK_TRANSFER_DONE, ?bs),
        (DART_CLBK_TRANSFER_COMPLETE, [])]" unfolding a(2) by auto
  let ?a2 = "a1\<lparr>d_world := (d_world a1)\<lparr>l_out := []\<rparr>\<rparr>"
  have "sending z' r 0 resp ?b1" using b1(2) by simp
  from answered [OF this r ne notreq, of cfg] obtain b2 where
    b2: "dart_do (link_env cfg) (OpReceive DART_ACK) ?b1 = Some b2" "at_rest z' r b2" "l_out (d_world b2) = []"
      "l_heard (d_world b2) = l_heard (d_world b) @ [(DART_CLBK_TRANSFER_DONE, resp), (DART_CLBK_TRANSFER_COMPLETE, [])]"
    using b1(4) by auto
  have "attempt (link_env cfg) back (b1, a) = Some (b2, ?a2)"
    using b1(3) a1 b2(1) by (simp add: attempt_def take_out_def del: dart_do.simps)
  moreover have "quiet z r ?a2" "quiet z' r b2" using a1(3) b2(2,3) by (simp_all add: quiet_def)
  ultimately show ?thesis using b1(1) b2(4) a1(4) by (intro exI [of _ b1] exI [of _ ?a2] exI [of _ b2]) simp
qed

lemma request_bytes:
  assumes "waiting z r req clk a"
  shows "take (length req) (ref_bytes cfg a (PoolMsg (the (pending_request a))) n) = take n req"
proof -
  from assms obtain p where p: "pending_request a = Some p" "msg_content (d_heap a p) = req" "msg_length (d_heap a p) = length req"
    by (auto simp: waiting_def)
  let ?bs = "ref_bytes cfg a (PoolMsg (the (pending_request a))) n"
  show ?thesis
  proof (rule nth_equalityI)
    fix i assume i: "i < length (take (length req) ?bs)"
    then have "map (msg_bytes (d_heap a p)) [0..<length req] ! i = msg_bytes (d_heap a p) i" by (simp add: ref_bytes_def)
    then have "req ! i = msg_bytes (d_heap a p) i" using p(2,3) by (simp add: msg_content_def)
    then show "take (length req) ?bs ! i = take n req ! i" using i p(1) by (simp add: ref_bytes_def)
  qed (simp add: ref_bytes_def)
qed

text \<open>C38: A request is kept after its acknowledgement until its response comes: when two engines
  exchange a request and a response with the same message number, the requester is told of the
  response and then that the request is DONE, with a message that starts with the bytes of the
  request and has the length of the response; the responder is told of the request and of the
  acknowledgement of its response, and both have released all memory.\<close>

theorem dart_request_answered:
  assumes "dart_config_ok cfg" "quiet z r a" "quiet z' r b"
    "sendable cfg z r req" "hd req AND MSG_TYPE_MASK = MSG_REQUEST" "prio < MSG_PRIO_LENGTH" "clear cfg req there"
    "sendable cfg z' r resp" "answers resp req" "prio' < MSG_PRIO_LENGTH" "clear cfg resp back"
  shows "\<exists>a1 a2 b2 b3 a4 b4 bs. dart_send_msg_ex (link_env cfg) a prio req (length req) = Some (DART_SUCCESS, a1) \<and>
    attempt (link_env cfg) there (a1, b) = Some (a2, b2) \<and>
    dart_send_msg_ex (link_env cfg) b2 prio' resp (length resp) = Some (DART_SUCCESS, b3) \<and>
    attempt (link_env cfg) back (b3, a2) = Some (b4, a4) \<and> quiet z r a4 \<and> quiet z' r b4 \<and>
    pending_request a2 \<noteq> None \<and> take (length req) bs = take (length resp) req \<and> length bs = length resp \<and>
    l_heard (d_world b4) = l_heard (d_world b) @ [(DART_CLBK_MESSAGE_RECEIVED, req), (DART_CLBK_TRANSFER_DONE, resp),
      (DART_CLBK_TRANSFER_COMPLETE, [])] \<and>
    l_heard (d_world a4) = l_heard (d_world a) @ [(DART_CLBK_MESSAGE_RECEIVED, resp), (DART_CLBK_TRANSFER_DONE, bs),
      (DART_CLBK_TRANSFER_COMPLETE, [])]"
proof -
  from request_phase [OF assms(1-7)] obtain a1 a2 b2 where
    1: "dart_send_msg_ex (link_env cfg) a prio req (length req) = Some (DART_SUCCESS, a1)"
      "attempt (link_env cfg) there (a1, b) = Some (a2, b2)" and w: "waiting z r req (d_clock a1) a2" "l_out (d_world a2) = []"
      "l_heard (d_world a2) = l_heard (d_world a)" "quiet z' r b2"
      "l_heard (d_world b2) = l_heard (d_world b) @ [(DART_CLBK_MESSAGE_RECEIVED, req)]" by blast
  have "req \<noteq> []" using assms(4) by (simp add: sendable_def)
  from response_phase [OF assms(1) w(1,2) this w(4) assms(8-11)] obtain b3 a4 b4 where
    2: "dart_send_msg_ex (link_env cfg) b2 prio' resp (length resp) = Some (DART_SUCCESS, b3)"
      "attempt (link_env cfg) back (b3, a2) = Some (b4, a4)" "quiet z r a4" "quiet z' r b4"
      "l_heard (d_world b4) = l_heard (d_world b2) @ [(DART_CLBK_TRANSFER_DONE, resp), (DART_CLBK_TRANSFER_COMPLETE, [])]"
      "l_heard (d_world a4) = l_heard (d_world a2) @ [(DART_CLBK_MESSAGE_RECEIVED, resp),
        (DART_CLBK_TRANSFER_DONE, ref_bytes cfg a2 (PoolMsg (the (pending_request a2))) (length resp)), (DART_CLBK_TRANSFER_COMPLETE, [])]"
    by blast
  have "pending_request a2 \<noteq> None" "length (ref_bytes cfg a2 (PoolMsg (the (pending_request a2))) (length resp)) = length resp"
    using w(1) by (auto simp: waiting_def ref_bytes_def)
  with 1 2 request_bytes [OF w(1), of cfg "length resp"] w(3,5) show ?thesis by (intro exI conjI) simp_all
qed

theorem dart_request_answered_witness:
  "\<exists>a2 b2 a4 b4 b3 a1. dart_send_msg_ex (link_env cfg11) station 2 [0x51, 1] 2 = Some (DART_SUCCESS, a1) \<and>
    attempt (link_env cfg11) (line_of [0, 0, 0, 0, 0]) (a1, station) = Some (a2, b2) \<and>
    dart_send_msg_ex (link_env cfg11) b2 0 [0x91] 1 = Some (DART_SUCCESS, b3) \<and>
    attempt (link_env cfg11) (line_of [0, 0, 0, 0]) (b3, a2) = Some (b4, a4) \<and>
    l_heard (d_world a4) = [(DART_CLBK_MESSAGE_RECEIVED, [0x91]), (DART_CLBK_TRANSFER_DONE, [0x51]), (DART_CLBK_TRANSFER_COMPLETE, [])]"
proof -
  have clear: "clear cfg11 [0x51, 1] (line_of [0, 0, 0, 0, 0])" "clear cfg11 [0x91] (line_of [0, 0, 0, 0])"
    by (simp_all add: clear_def line_of_def frame_def cfg11_def len_field_def crc_field_def crc_of_def crc8_round_def)
  have send: "sendable cfg11 50 8 [0x51, 1]" "sendable cfg11 50 8 [0x91]"
    by (simp_all add: sendable_def cfg11_def DART_FRAME_BYTES_def DART_LEN_BYTES_def cba_chunk_len_def trunc16_def)
  have ans: "answers [0x91] [0x51, 1]" by (simp add: answers_def)
  have world: "l_heard (d_world station) = []"
    by (simp add: station_def dart_set_callback_def dart_init_def dart_reset_def)
  have bs: "bs = [0x51]" if "take (length [0x51, 1::u8]) bs = take (length [0x91::u8]) [0x51, 1]" "length bs = length [0x91::u8]"
    for bs :: "u8 list" using that by (cases bs) simp_all
  have prem: "hd [0x51, 1::u8] AND MSG_TYPE_MASK = MSG_REQUEST" "(2::nat) < MSG_PRIO_LENGTH" "(0::nat) < MSG_PRIO_LENGTH" by simp_all
  from dart_request_answered [OF cfgs_ok(1) station_quiet station_quiet send(1) prem(1,2) clear(1) send(2) ans prem(3) clear(2)]
  obtain a1 a2 b2 b3 a4 b4 bs where
    run: "dart_send_msg_ex (link_env cfg11) station 2 [0x51, 1] (length [0x51, 1::u8]) = Some (DART_SUCCESS, a1)"
    "attempt (link_env cfg11) (line_of [0, 0, 0, 0, 0]) (a1, station) = Some (a2, b2)"
    "dart_send_msg_ex (link_env cfg11) b2 0 [0x91] (length [0x91::u8]) = Some (DART_SUCCESS, b3)"
    "attempt (link_env cfg11) (line_of [0, 0, 0, 0]) (b3, a2) = Some (b4, a4)"
    and b: "take (length [0x51, 1::u8]) bs = take (length [0x91::u8]) [0x51, 1]" "length bs = length [0x91::u8]"
    and log: "l_heard (d_world a4) = l_heard (d_world station) @ [(DART_CLBK_MESSAGE_RECEIVED, [0x91]),
       (DART_CLBK_TRANSFER_DONE, bs), (DART_CLBK_TRANSFER_COMPLETE, [])]" by blast
  have len: "length [0x51, 1::u8] = 2" "length [0x91::u8] = 1" by simp_all
  have "l_heard (d_world a4) = [(DART_CLBK_MESSAGE_RECEIVED, [0x91]),
       (DART_CLBK_TRANSFER_DONE, [0x51]), (DART_CLBK_TRANSFER_COMPLETE, [])]" unfolding log bs [OF b] world by simp
  with run [unfolded len] show ?thesis
    by (intro exI [of _ a2] exI [of _ b2] exI [of _ a4] exI [of _ b4] exI [of _ b3] exI [of _ a1] conjI)
qed


text \<open>Time that passes without an answer.\<close>

definition ticking :: "(u32 \<times> u32) list \<Rightarrow> dart_op list" where
  "ticking us = map (\<lambda>(ms, chrono). OpClock ms chrono) us"

lemma run_ticking: "dart_run env (ticking us @ ops) s = dart_run env ops (s\<lparr>d_clock := clock_run (d_clock s) us\<rparr>)"
  by (induction us arbitrary: s) (auto simp: ticking_def)

lemma waiting_clock: "waiting z r req clk (s\<lparr>d_clock := c\<rparr>) = waiting z r req clk s"
  by (simp add: waiting_def on_line_def)

lemma waiting_early:
  assumes s: "waiting z r req clk s" and early: "d_clock s = clock_run clk us" "elapsed us < 3000"
  shows "dart_do (link_env cfg) OpTime s = Some s"
proof -
  have "\<not> timer_expired (d_clock s) (tx_response_timer s)"
    using s early timer_ms_expired [of us clk DART_RESPONSE_TIMER_VAL] by (simp add: waiting_def)
  moreover from dart_find_next_ok [OF waiting_mem [OF s]] have "dart_find_next_message_queue s = Some None" by (simp only: find_none)
  ultimately show ?thesis using s by (auto simp: dart_handle_time_def waiting_def)
qed

text \<open>C39: A request without a response does not wait for ever: however the time after its
  acknowledgement is split into clock updates, dart_handle_time does nothing before 3000 ms have
  passed, and from then on reports the request as ABANDONED, releases its memory and leaves the
  module ready for the next message.\<close>

theorem dart_request_abandoned:
  assumes "dart_config_ok cfg" "quiet z r a" "quiet z' r b"
    "sendable cfg z r req" "hd req AND MSG_TYPE_MASK = MSG_REQUEST" "prio < MSG_PRIO_LENGTH" "clear cfg req there"
    "elapsed us < 2 ^ 32"
  shows "\<exists>a1 a2 b2 a3. dart_send_msg_ex (link_env cfg) a prio req (length req) = Some (DART_SUCCESS, a1) \<and>
    attempt (link_env cfg) there (a1, b) = Some (a2, b2) \<and>
    dart_run (link_env cfg) (ticking us @ [OpTime]) a2 = Some a3 \<and>
    (if elapsed us < 3000 then pending_request a3 = pending_request a2 \<and> pending_request a3 \<noteq> None \<and>
       l_heard (d_world a3) = l_heard (d_world a)
     else quiet z r a3 \<and> l_heard (d_world a3) =
       l_heard (d_world a) @ [(DART_CLBK_MESSAGE_ABANDONED, req), (DART_CLBK_TRANSFER_COMPLETE, [])])"
proof -
  from request_phase [OF assms(1-7)] obtain a1 a2 b2 where
    1: "dart_send_msg_ex (link_env cfg) a prio req (length req) = Some (DART_SUCCESS, a1)"
      "attempt (link_env cfg) there (a1, b) = Some (a2, b2)" and w: "waiting z r req (d_clock a1) a2"
      "d_clock a2 = d_clock a1" "l_out (d_world a2) = []" "l_heard (d_world a2) = l_heard (d_world a)" by blast
  let ?s = "a2\<lparr>d_clock := clock_run (d_clock a2) us\<rparr>"
  have s: "waiting z r req (d_clock a1) ?s" "d_clock ?s = clock_run (d_clock a1) us" using w(1,2) by (simp_all add: waiting_clock)
  have run: "dart_run (link_env cfg) (ticking us @ [OpTime]) a2 = dart_do (link_env cfg) OpTime ?s"
    unfolding run_ticking by (cases "dart_do (link_env cfg) OpTime ?s") (simp_all del: dart_do.simps)
  show ?thesis
  proof (cases "elapsed us < 3000")
    case True
    have "pending_request a2 \<noteq> None" using w(1) by (auto simp: waiting_def)
    moreover have "dart_run (link_env cfg) (ticking us @ [OpTime]) a2 = Some ?s" unfolding run by (rule waiting_early [OF s True])
    ultimately show ?thesis using 1 True w(4)
      by (intro exI [of _ a1] exI [of _ a2] exI [of _ b2] exI [of _ ?s]) simp
  next
    case False
    then have "3000 \<le> elapsed us" by simp
    from waiting_abandoned [OF s this assms(8)] obtain a3 where
      "dart_do (link_env cfg) OpTime ?s = Some a3" "at_rest z r a3" "l_out (d_world a3) = l_out (d_world ?s)"
      "l_heard (d_world a3) = l_heard (d_world ?s) @ [(DART_CLBK_MESSAGE_ABANDONED, req), (DART_CLBK_TRANSFER_COMPLETE, [])]"
      by blast
    with 1 run False w(3,4) show ?thesis by (intro exI conjI) (simp_all add: quiet_def del: dart_do.simps)
  qed
qed

theorem dart_request_abandoned_witness:
  "\<exists>a1 a2 b2 a3. dart_send_msg_ex (link_env cfg11) station 2 [0x51] (length [0x51::u8]) = Some (DART_SUCCESS, a1) \<and>
    attempt (link_env cfg11) (line_of [0, 0, 0, 0]) (a1, station) = Some (a2, b2) \<and>
    dart_run (link_env cfg11) (ticking [(2999, 0), (1, 0)] @ [OpTime]) a2 = Some a3 \<and> quiet 50 8 a3 \<and>
    l_heard (d_world a3) = l_heard (d_world station) @ [(DART_CLBK_MESSAGE_ABANDONED, [0x51]), (DART_CLBK_TRANSFER_COMPLETE, [])]"
proof -
  have clear: "clear cfg11 [0x51] (line_of [0, 0, 0, 0])"
    by (simp add: clear_def line_of_def frame_def cfg11_def len_field_def crc_field_def crc_of_def crc8_round_def)
  have send: "sendable cfg11 50 8 [0x51]"
    by (simp add: sendable_def cfg11_def DART_FRAME_BYTES_def DART_LEN_BYTES_def cba_chunk_len_def trunc16_def)
  have prem: "hd [0x51::u8] AND MSG_TYPE_MASK = MSG_REQUEST" "(2::nat) < MSG_PRIO_LENGTH"
    "elapsed [(2999, 0), (1, 0)] < 2 ^ 32" "\<not> elapsed [(2999, 0), (1, 0)] < 3000" by simp_all
  from dart_request_abandoned [OF cfgs_ok(1) station_quiet station_quiet send prem(1,2) clear prem(3), unfolded if_not_P [OF prem(4)]]
  show ?thesis by blast
qed

end
