(* ===== verification/Mx_DartSilence.thy ===== *)
theory Mx_DartSilence
  imports Mx_DartRequest
begin

unbundle bit_operations_syntax

text \<open>
  A DART engine whose opponent keeps silent: the acknowledge timer drives it through its three
  transmissions and to the report of the failure, within a time that depends only on how often
  \<open>dart_handle_time\<close> is called.
\<close>

section \<open>One call of the timer handler\<close>

lemma on_line_drop: "on_line r (dart_rx_drop t) \<Longrightarrow> rx_buffer_bytes t = 0 \<Longrightarrow> \<not> timer_running (rx_byte_timer t) \<Longrightarrow> on_line r t"
  by (simp add: on_line_def dart_rx_drop_def)

lemma polled:
  assumes cfg: "dart_config_ok cfg" and s: "sending z r k msg s" "k < 3" and len: "length msg < 2 ^ (8 * DART_LEN_SIZE cfg)"
    and since: "tx_ack_timer s = timer_start clk TIMER_MS DART_ACK_TIMER_VAL" "d_clock s = clock_run clk us" "elapsed us < 2 ^ 32"
  shows "\<exists>t. dart_do (link_env cfg) OpTime s = Some t \<and> d_clock t = d_clock s \<and>
    (if elapsed us < 300 then t = s
     else if k < 2 then sending z r (Suc k) msg t \<and> l_out (d_world t) = l_out (d_world s) @ frame cfg msg \<and>
        l_heard (d_world t) = l_heard (d_world s) \<and> tx_ack_timer t = timer_start (d_clock s) TIMER_MS DART_ACK_TIMER_VAL
     else at_rest z r t \<and> l_out (d_world t) = l_out (d_world s) \<and>
        l_heard (d_world t) = l_heard (d_world s) @ [(DART_CLBK_TRANSFER_FAILURE, msg), (DART_CLBK_TRANSFER_COMPLETE, [])])"
proof -
  from s have line: "on_line r s" and busy: "transfering s \<noteq> None" by (auto simp: sending_def)
  have expired: "timer_expired (d_clock s) (tx_ack_timer s) \<longleftrightarrow> 300 \<le> elapsed us"
    using timer_ms_expired [OF since(3), of clk DART_ACK_TIMER_VAL] since(1,2) by simp
  show ?thesis
  proof (cases "elapsed us < 300")
    case True
    then have "dart_do (link_env cfg) OpTime s = Some s"
      using line busy expired by (simp add: dart_handle_time_def on_line_def)
    with True show ?thesis by simp
  next
    case False
    let ?u = "s\<lparr>tx_ack_timer := timer_stop\<rparr>"
    have u: "?u = s\<lparr>closing_timer := closing_timer s, rx_byte_timer := rx_byte_timer s, rx_buffer := rx_buffer s, rx_buffer_bytes := 0,
      tx_ack_timer := timer_stop, d_clock := d_clock s\<rparr>" using line by (cases s) (simp add: on_line_def)
    from sending_retried [OF cfg s len u] obtain t where t: "dart_retry_transfer (link_env cfg) ?u = Some t" "d_clock t = d_clock s"
      "if k < 2 then sending z r (Suc k) msg (dart_rx_drop t) \<and> l_out (d_world t) = l_out (d_world s) @ frame cfg msg \<and>
          l_heard (d_world t) = l_heard (d_world s) \<and> tx_ack_timer t = timer_start (d_clock s) TIMER_MS DART_ACK_TIMER_VAL
       else at_rest z r (dart_rx_drop t) \<and> l_out (d_world t) = l_out (d_world s) \<and>
          l_heard (d_world t) = l_heard (d_world s) @ [(DART_CLBK_TRANSFER_FAILURE, msg), (DART_CLBK_TRANSFER_COMPLETE, [])]"
      "rx_buffer_bytes t = 0" "rx_byte_timer t = rx_byte_timer s" by auto
    have drop: "on_line r t" if "on_line r (dart_rx_drop t)"
      using that by (rule on_line_drop) (use t(4,5) line in \<open>simp_all add: on_line_def\<close>)
    have "dart_do (link_env cfg) OpTime s = Some t"
      using line busy expired False t(1) by (simp add: dart_handle_time_def on_line_def)
    moreover have "sending z r (Suc k) msg t" if "sending z r (Suc k) msg (dart_rx_drop t)"
      using that drop by (simp add: sending_def) (simp add: dart_rx_drop_def)
    moreover have "at_rest z r t" if "at_rest z r (dart_rx_drop t)"
      using that drop by (simp add: at_rest_def) (simp add: dart_rx_drop_def)
    ultimately show ?thesis using t(2,3) False by (auto split: if_splits)
  qed
qed

section \<open>Polling\<close>

text \<open>The main loop calls the handler again and again; each call comes after the clock updates of the time
  since the one before.\<close>

definition polling :: "(u32 \<times> u32) list list \<Rightarrow> dart_op list" where
  "polling gs = concat (map (\<lambda>us. ticking us @ [OpTime]) gs)"

lemma polling_simps [simp]: "polling [] = []" "polling (us # gs) = ticking us @ OpTime # polling gs"
  by (simp_all add: polling_def)

lemma elapsed_replicate: "elapsed (concat (replicate n us)) = n * elapsed us"
  by (induction n) simp_all

lemma sending_clock: "sending z r k msg (s\<lparr>d_clock := c\<rparr>) = sending z r k msg s"
  by (simp add: sending_def on_line_def)

text \<open>The module has \<open>Suc j\<close> transmissions to go, the last one began \<open>elapsed vs\<close> ago.\<close>

lemma silence:
  assumes cfg: "dart_config_ok cfg" and len: "length msg < 2 ^ (8 * DART_LEN_SIZE cfg)" and d: "300 + d < 2 ^ 32"
  shows "j < 3 \<Longrightarrow> sending z r (2 - j) msg s \<Longrightarrow> tx_ack_timer s = timer_start clk TIMER_MS DART_ACK_TIMER_VAL \<Longrightarrow>
    d_clock s = clock_run clk vs \<Longrightarrow> elapsed vs < 300 \<Longrightarrow> list_all (\<lambda>us. elapsed us \<le> d) gs \<Longrightarrow>
    Suc j * (300 + d) \<le> elapsed vs + elapsed (concat gs) \<Longrightarrow>
    \<exists>n t. n \<le> length gs \<and> dart_run (link_env cfg) (polling (take n gs)) s = Some t \<and> at_rest z r t \<and>
      l_out (d_world t) = l_out (d_world s) @ concat (replicate j (frame cfg msg)) \<and>
      l_heard (d_world t) = l_heard (d_world s) @ [(DART_CLBK_TRANSFER_FAILURE, msg), (DART_CLBK_TRANSFER_COMPLETE, [])] \<and>
      Suc j * 300 \<le> elapsed vs + elapsed (concat (take n gs)) \<and> elapsed vs + elapsed (concat (take n gs)) \<le> Suc j * (300 + d) \<and>
      (\<forall>m<n. \<exists>u. dart_run (link_env cfg) (polling (take m gs)) s = Some u \<and> transfering u \<noteq> None \<and>
         l_heard (d_world u) = l_heard (d_world s))"
proof (induction gs arbitrary: j s clk vs)
  case Nil
  then show ?case by simp
next
  case (Cons us gs)
  let ?s = "s\<lparr>d_clock := clock_run clk (vs @ us)\<rparr>"
  have us: "elapsed us \<le> d" "list_all (\<lambda>us. elapsed us \<le> d) gs" using Cons.prems(6) by simp_all
  have run: "dart_run (link_env cfg) (polling (us # hs)) s = do { t \<leftarrow> dart_do (link_env cfg) OpTime ?s; dart_run (link_env cfg) (polling hs) t }" for hs
    using Cons.prems(4) by (simp add: run_ticking clock_run_append)
  have busy: "transfering s \<noteq> None" using Cons.prems(2) by (auto simp: sending_def)
  have s': "sending z r (2 - j) msg ?s" "2 - j < 3" "tx_ack_timer ?s = timer_start clk TIMER_MS DART_ACK_TIMER_VAL"
    "d_clock ?s = clock_run clk (vs @ us)" "elapsed (vs @ us) < 2 ^ 32"
    using Cons.prems(1,2,3,5) us(1) d by (simp_all add: sending_clock)
  from polled [OF cfg s'(1,2) len s'(3-5)] obtain t where t: "dart_do (link_env cfg) OpTime ?s = Some t" "d_clock t = clock_run clk (vs @ us)"
    "if elapsed (vs @ us) < 300 then t = ?s
     else if 2 - j < 2 then sending z r (Suc (2 - j)) msg t \<and> l_out (d_world t) = l_out (d_world s) @ frame cfg msg \<and>
        l_heard (d_world t) = l_heard (d_world s) \<and> tx_ack_timer t = timer_start (clock_run clk (vs @ us)) TIMER_MS DART_ACK_TIMER_VAL
     else at_rest z r t \<and> l_out (d_world t) = l_out (d_world s) \<and>
        l_heard (d_world t) = l_heard (d_world s) @ [(DART_CLBK_TRANSFER_FAILURE, msg), (DART_CLBK_TRANSFER_COMPLETE, [])]"
    by auto
  note run = run [unfolded t(1) bind.bind_lunit]
  have first: "\<exists>u. dart_run (link_env cfg) (polling (take m (us # gs))) s = Some u \<and> transfering u \<noteq> None \<and> l_heard (d_world u) = l_heard (d_world s)"
    if "m < Suc n" "l_heard (d_world t) = l_heard (d_world s)" "\<forall>m<n. \<exists>u. dart_run (link_env cfg) (polling (take m gs)) t = Some u \<and>
      transfering u \<noteq> None \<and> l_heard (d_world u) = l_heard (d_world t)" for m n
    using that busy run by (cases m) auto
  consider (wait) "elapsed (vs @ us) < 300" | (again) "\<not> elapsed (vs @ us) < 300" "2 - j < 2" | (last) "\<not> elapsed (vs @ us) < 300" "j = 0"
    by linarith
  then show ?case
  proof cases
    case wait
    with t(3) have ts: "t = ?s" by simp
    have "Suc j * (300 + d) \<le> elapsed (vs @ us) + elapsed (concat gs)" using Cons.prems(7) by simp
    from Cons.IH [OF Cons.prems(1) s'(1,3,4) wait us(2) this] obtain n u where
      u: "n \<le> length gs" "dart_run (link_env cfg) (polling (take n gs)) t = Some u" "at_rest z r u"
        "l_out (d_world u) = l_out (d_world s) @ concat (replicate j (frame cfg msg))"
        "l_heard (d_world u) = l_heard (d_world s) @ [(DART_CLBK_TRANSFER_FAILURE, msg), (DART_CLBK_TRANSFER_COMPLETE, [])]"
        "Suc j * 300 \<le> elapsed (vs @ us) + elapsed (concat (take n gs))" "elapsed (vs @ us) + elapsed (concat (take n gs)) \<le> Suc j * (300 + d)"
        "\<forall>m<n. \<exists>u. dart_run (link_env cfg) (polling (take m gs)) t = Some u \<and> transfering u \<noteq> None \<and> l_heard (d_world u) = l_heard (d_world t)"
      unfolding ts by auto
    have "\<forall>m<Suc n. \<exists>u. dart_run (link_env cfg) (polling (take m (us # gs))) s = Some u \<and> transfering u \<noteq> None \<and> l_heard (d_world u) = l_heard (d_world s)"
      using first [of _ n] u(8) ts by simp
    with u(1-7) run [of "take n gs"] show ?thesis
      by (intro exI [of _ "Suc n"] exI [of _ u]) simp
  next
    case again
    then obtain i where j: "j = Suc i" by (cases j) simp_all
    with Cons.prems(1) have "Suc (2 - j) = 2 - i" by simp
    with t(3) again have t': "sending z r (2 - i) msg t" "l_out (d_world t) = l_out (d_world s) @ frame cfg msg"
      "l_heard (d_world t) = l_heard (d_world s)" "tx_ack_timer t = timer_start (clock_run clk (vs @ us)) TIMER_MS DART_ACK_TIMER_VAL" by simp_all
    have "Suc i * (300 + d) \<le> elapsed [] + elapsed (concat gs)" using Cons.prems(5,7) us(1) by (simp add: j)
    moreover have "i < 3" using Cons.prems(1) j by simp
    ultimately obtain n u where
      u: "n \<le> length gs" "dart_run (link_env cfg) (polling (take n gs)) t = Some u" "at_rest z r u"
        "l_out (d_world u) = l_out (d_world t) @ concat (replicate i (frame cfg msg))"
        "l_heard (d_world u) = l_heard (d_world t) @ [(DART_CLBK_TRANSFER_FAILURE, msg), (DART_CLBK_TRANSFER_COMPLETE, [])]"
        "Suc i * 300 \<le> elapsed [] + elapsed (concat (take n gs))" "elapsed [] + elapsed (concat (take n gs)) \<le> Suc i * (300 + d)"
        "\<forall>m<n. \<exists>u. dart_run (link_env cfg) (polling (take m gs)) t = Some u \<and> transfering u \<noteq> None \<and> l_heard (d_world u) = l_heard (d_world t)"
      using Cons.IH [OF _ t'(1,4), of "[]"] t(2) us(2) by auto
    have "\<forall>m<Suc n. \<exists>u. dart_run (link_env cfg) (polling (take m (us # gs))) s = Some u \<and> transfering u \<noteq> None \<and> l_heard (d_world u) = l_heard (d_world s)"
      using first [of _ n] u(8) t'(3) by simp
    with u(1-7) t'(2,3) run [of "take n gs"] again(1) Cons.prems(5) us(1) show ?thesis
      by (intro exI [of _ "Suc n"] exI [of _ u]) (simp add: j)
  next
    case last
    with t(3) have t': "at_rest z r t" "l_out (d_world t) = l_out (d_world s)"
      "l_heard (d_world t) = l_heard (d_world s) @ [(DART_CLBK_TRANSFER_FAILURE, msg), (DART_CLBK_TRANSFER_COMPLETE, [])]" by simp_all
    with run [of "[]"] busy last Cons.prems(5) us(1) show ?thesis
      by (intro exI [of _ "Suc 0"] exI [of _ t]) simp
  qed
qed

text \<open>C10: Silence of the opponent ends a transfer in bounded time. A module at rest with both pins up
  accepts a message of any type; if no byte ever comes back and dart_handle_time is called at least
  every d ms, it transmits the frame exactly three times, then reports TRANSFER_FAILURE with the
  message and TRANSFER_COMPLETE, once each, between 900 and 900 + 3d ms after the request, and is
  then at rest again with the memory of the message released and ready for the next one; until then
  the transfer is pending and nothing is reported. The message fits the pool and a frame; the
  callback only takes notes.\<close>

theorem dart_silence_bounded:
  assumes "dart_config_ok cfg" "quiet z r a" "sendable cfg z r msg" "prio < MSG_PRIO_LENGTH"
    "list_all (\<lambda>us. elapsed us \<le> d) gs" "300 + d < 2 ^ 32" "900 + 3 * d \<le> elapsed (concat gs)"
  shows "\<exists>a1 n t. dart_send_msg_ex (link_env cfg) a prio msg (length msg) = Some (DART_SUCCESS, a1) \<and>
    n \<le> length gs \<and> dart_run (link_env cfg) (polling (take n gs)) a1 = Some t \<and> at_rest z r t \<and>
    l_out (d_world t) = frame cfg msg @ frame cfg msg @ frame cfg msg \<and>
    l_heard (d_world t) = l_heard (d_world a) @ [(DART_CLBK_TRANSFER_FAILURE, msg), (DART_CLBK_TRANSFER_COMPLETE, [])] \<and>
    900 \<le> elapsed (concat (take n gs)) \<and> elapsed (concat (take n gs)) \<le> 900 + 3 * d \<and>
    (\<forall>m<n. \<exists>u. dart_run (link_env cfg) (polling (take m gs)) a1 = Some u \<and> transfering u \<noteq> None \<and>
       l_heard (d_world u) = l_heard (d_world a))"
proof -
  from assms(2) have rest: "at_rest z r a" "l_out (d_world a) = []" by (simp_all add: quiet_def)
  from line_send_ok [OF assms(1) rest(1) assms(3,4)] rest(2) obtain a1 where
    a1: "dart_send_msg_ex (link_env cfg) a prio msg (length msg) = Some (DART_SUCCESS, a1)" "sending z r 0 msg a1"
      "l_out (d_world a1) = frame cfg msg" "l_heard (d_world a1) = l_heard (d_world a)"
      "tx_ack_timer a1 = timer_start (d_clock a) TIMER_MS DART_ACK_TIMER_VAL" "d_clock a1 = clock_run (d_clock a) []" by auto
  from assms(3) have len: "length msg < 2 ^ (8 * DART_LEN_SIZE cfg)" by (simp add: sendable_def)
  have start: "(2::nat) < 3" "sending z r (2 - 2) msg a1" "elapsed [] < 300"
    "Suc 2 * (300 + d) \<le> elapsed [] + elapsed (concat gs)" using a1(2) assms(7) by simp_all
  from silence [OF assms(1) len assms(6) start(1,2) a1(5,6) start(3) assms(5) start(4)] obtain n t where
    t: "n \<le> length gs" "dart_run (link_env cfg) (polling (take n gs)) a1 = Some t" "at_rest z r t"
      "l_out (d_world t) = l_out (d_world a1) @ concat (replicate 2 (frame cfg msg))"
      "l_heard (d_world t) = l_heard (d_world a1) @ [(DART_CLBK_TRANSFER_FAILURE, msg), (DART_CLBK_TRANSFER_COMPLETE, [])]"
      "Suc 2 * 300 \<le> elapsed [] + elapsed (concat (take n gs))" "elapsed [] + elapsed (concat (take n gs)) \<le> Suc 2 * (300 + d)"
      "\<forall>m<n. \<exists>u. dart_run (link_env cfg) (polling (take m gs)) a1 = Some u \<and> transfering u \<noteq> None \<and>
         l_heard (d_world u) = l_heard (d_world a1)" by blast
  have "concat (replicate 2 (frame cfg msg)) = frame cfg msg @ frame cfg msg" by (simp add: numeral_2_eq_2)
  with t(3-7) a1(3,4) show ?thesis
    by (intro exI [of _ a1] exI [of _ n] exI [of _ t] conjI a1(1) t(1,2) t(8) [unfolded a1(4)]) simp_all
qed

theorem dart_silence_bounded_witness:
  "\<exists>a n t. dart_send_msg_ex (link_env cfg11) station 1 [0x12, 0x34] (length [0x12, 0x34::u8]) = Some (DART_SUCCESS, a) \<and>
    dart_run (link_env cfg11) (polling (take n (replicate 12 [(50, 0), (50, 0)]))) a = Some t \<and> at_rest 50 8 t \<and>
    l_out (d_world t) = frame cfg11 [0x12, 0x34] @ frame cfg11 [0x12, 0x34] @ frame cfg11 [0x12, 0x34] \<and>
    l_heard (d_world t) = l_heard (d_world station) @ [(DART_CLBK_TRANSFER_FAILURE, [0x12, 0x34]), (DART_CLBK_TRANSFER_COMPLETE, [])]"
proof -
  have send: "sendable cfg11 50 8 [0x12, 0x34]"
    by (simp add: sendable_def cfg11_def DART_FRAME_BYTES_def DART_LEN_BYTES_def cba_chunk_len_def trunc16_def)
  have prem: "(1::nat) < MSG_PRIO_LENGTH" "list_all (\<lambda>us. elapsed us \<le> 100) (replicate 12 [(50, 0), (50, 0)])"
    "300 + 100 < (2::nat) ^ 32" "900 + 3 * 100 \<le> elapsed (concat (replicate 12 [(50, 0), (50, 0)]))"
    by (simp_all add: list_all_iff elapsed_replicate)
  from dart_silence_bounded [OF cfgs_ok(1) station_quiet send prem] show ?thesis by blast
qed

end
