(* ===== verification/Mx_Process.thy ===== *)
theory Mx_Process
  imports Mx_Message Mx_Timer
begin

unbundle bit_operations_syntax

text \<open>
  The cooperative scheduler: \<open>source/core/scheduler.c\<close>, \<open>source/core/process.c\<close>,
  \<open>source/core/process-timer.c\<close> and their headers, function by function.

  The program has one scheduler, \<open>default_scheduler\<close>, so the pointer \<open>sched\<close> of a process is either
  null or that one; the record \<open>sys\<close> is this scheduler together with the objects its pointers lead
  to: the processes, the process timers and the messages of the pool. Processes and timers are
  static objects of the application, named by numbers.

  The thread of a process is application code. It is a tree: it returns, it computes on the
  application's own variables, it calls a function of \<open>process.h\<close> or \<open>process-timer.h\<close> and goes
  on with the result, or it is stuck in a computation that is undefined or does not end. A call may start, exit or call other processes, whose threads then run before
  the call returns; what re-entrant calls do is the argument \<open>K\<close> of every operation that makes
  them, and \<open>nested\<close> closes the recursion, with a bound on the nesting depth.
\<close>

section \<open>State\<close>

abbreviation (input) PROCESS_STATE_NONE :: u8 where "PROCESS_STATE_NONE \<equiv> 0"
abbreviation (input) PROCESS_STATE_RUNNING :: u8 where "PROCESS_STATE_RUNNING \<equiv> 1"
abbreviation (input) PROCESS_STATE_CALLED :: u8 where "PROCESS_STATE_CALLED \<equiv> 2"

abbreviation (input) PROCESS_EV_INIT :: u8 where "PROCESS_EV_INIT \<equiv> 0"
abbreviation (input) PROCESS_EV_POLL :: u8 where "PROCESS_EV_POLL \<equiv> 1"
abbreviation (input) PROCESS_EV_EXIT :: u8 where "PROCESS_EV_EXIT \<equiv> 2"
abbreviation (input) PROCESS_EV_FINISHED :: u8 where "PROCESS_EV_FINISHED \<equiv> 3"
abbreviation (input) PROCESS_EV_CONTINUE :: u8 where "PROCESS_EV_CONTINUE \<equiv> 7"

datatype process_status = PROCESS_SUCCESS | PROCESS_ERR_NOT_POSSIBLE | PROCESS_ERR_NOT_SUPPORTED
  | PROCESS_ERR_BAD_LENGTH | PROCESS_ERR_NO_MEMORY | PROCESS_ERR_QUEUE_FULL
  | PROCESS_ERR_MSG_NOT_FOUND

text \<open>\<open>p_sched\<close> says whether the pointer to the scheduler is set; \<open>p_lc\<close> is the local continuation
  of the protothread.\<close>

record process =
  p_next :: "nat option"
  p_sched :: bool
  p_thread :: "nat option"
  p_lc :: u16
  p_state :: u8
  needspoll :: bool

record process_timer =
  pt_next :: "nat option"
  pt_process :: "nat option"
  pt_timer :: timer
  pt_event :: u8

record 'w sys =
  process_head :: "nat option"
  process_current :: "nat option"
  process_timer_head :: "nat option"
  messages :: msg_list
  s_cba :: cba
  poll_requested :: nat
  procs :: "nat \<Rightarrow> process"
  ptimers :: "nat \<Rightarrow> process_timer"
  s_heap :: msg_heap
  s_clock :: clock
  s_world :: 'w

text \<open>The message pointer a thread is given: null, a message of the pool, or one on the stack of the
  caller: its bytes, and the process it names when it is a \<open>struct mx_msg_process\<close>.\<close>

datatype msg_arg = NullMsg | Pooled nat | OnStack "u8 list" "nat option"

definition arg_type :: "'w sys \<Rightarrow> msg_arg \<Rightarrow> u8 option" where
  "arg_type s m = (case m of NullMsg \<Rightarrow> None | Pooled p \<Rightarrow> Some (msg_type (s_heap s p))
     | OnStack bs q \<Rightarrow> rd bs 0)"

section \<open>Threads\<close>

datatype api =
    ProcStart nat | ProcExit nat | ProcPoll "nat option" | ProcRunning nat | ProcCurrent | ProcEvents
  | MsgMalloc nat | MsgFree nat | MsgWrite nat "u8 list" | MsgRead nat
  | MsgPost "nat option" nat | MsgHandle "nat option" msg_arg | MsgHandle0 "nat option" u8
  | MsgSend "nat option" "u8 list" nat | MsgSend0 "nat option" u8 | MsgSend1 "nat option" u8 u8
  | MsgSend2 "nat option" u8 u8 u8 | MsgSend3 "nat option" u8 u8 u8 u8
  | MsgSend4 "nat option" u8 u8 u8 u8 u8 | MsgSendData "nat option" u8 "u8 list" nat
  | TimerStart nat "nat option" u32 u8 | TimerStop nat | TimerRunning nat
  | GetLc | SetLc u16

datatype resp = Void | Status process_status | Ptr "nat option" | Flag bool | Num nat | Bytes "u8 list"

datatype 'w thread = Return int | Act "'w \<Rightarrow> 'w \<times> 'w thread" | Call api "resp \<Rightarrow> 'w thread" | Stuck

text \<open>What the function at an address does when it is called with \<open>self\<close>, an event and a message.\<close>

type_synonym 'w program = "nat \<Rightarrow> nat \<Rightarrow> u8 \<Rightarrow> msg_arg \<Rightarrow> 'w thread"

primrec exec :: "(api \<Rightarrow> 'w sys \<Rightarrow> (resp \<times> 'w sys) option) \<Rightarrow> 'w thread \<Rightarrow> 'w sys \<Rightarrow> (int \<times> 'w sys) option" where
  "exec f (Return r) s = Some (r, s)"
| "exec f (Act g) s = (let (w, t) = map_prod id (exec f) (g (s_world s)) in t (s\<lparr>s_world := w\<rparr>))"
| "exec f (Call a k) s = do { (r, s) \<leftarrow> f a s; exec f (k r) s }"
| "exec f Stuck s = None"

text \<open>What re-entrant calls do: \<open>k_call\<close> is \<open>call_process\<close>, \<open>k_thread\<close> is \<open>proc->thread\<close>.\<close>

record 'w kernel =
  k_call :: "nat \<Rightarrow> u8 \<Rightarrow> msg_arg \<Rightarrow> 'w sys \<Rightarrow> 'w sys option"
  k_thread :: "nat \<Rightarrow> u8 \<Rightarrow> msg_arg \<Rightarrow> 'w sys \<Rightarrow> (int \<times> 'w sys) option"

definition upd_proc :: "nat \<Rightarrow> (process \<Rightarrow> process) \<Rightarrow> 'w sys \<Rightarrow> 'w sys" where
  "upd_proc p f s = s\<lparr>procs := (procs s)(p := f (procs s p))\<rparr>"

definition upd_ptimer :: "nat \<Rightarrow> (process_timer \<Rightarrow> process_timer) \<Rightarrow> 'w sys \<Rightarrow> 'w sys" where
  "upd_ptimer t f s = s\<lparr>ptimers := (ptimers s)(t := f (ptimers s t))\<rparr>"

text \<open>The loop \<open>for (tmp = p; tmp != NULL; tmp = tmp->next)\<close> over the processes: the successor is read
  after the body has run.\<close>

partial_function (option) for_procs ::
    "(nat \<Rightarrow> 'w sys \<Rightarrow> 'w sys option) \<Rightarrow> nat option \<Rightarrow> 'w sys \<Rightarrow> 'w sys option" where
  "for_procs body p s = (case p of None \<Rightarrow> Some s
     | Some q \<Rightarrow> (case body q s of None \<Rightarrow> None | Some s1 \<Rightarrow> for_procs body (p_next (procs s1 q)) s1))"

text \<open>Whether the search from \<open>p\<close> along \<open>next\<close> ends at \<open>x\<close> and not at null.\<close>

partial_function (option) find_from :: "(nat \<Rightarrow> nat option) \<Rightarrow> nat option \<Rightarrow> nat \<Rightarrow> bool option" where
  "find_from nx p x = (case p of None \<Rightarrow> Some False
     | Some q \<Rightarrow> if q = x then Some True else find_from nx (nx q) x)"

text \<open>The member of the list from \<open>p\<close> whose successor is \<open>x\<close>.\<close>

partial_function (option) find_prev :: "(nat \<Rightarrow> nat option) \<Rightarrow> nat option \<Rightarrow> nat \<Rightarrow> nat option option" where
  "find_prev nx p x = (case p of None \<Rightarrow> Some None
     | Some q \<Rightarrow> if nx q = Some x then Some (Some q) else find_prev nx (nx q) x)"

abbreviation (input) proc_next :: "'w sys \<Rightarrow> nat \<Rightarrow> nat option" where
  "proc_next s q \<equiv> p_next (procs s q)"

abbreviation (input) ptimer_next :: "'w sys \<Rightarrow> nat \<Rightarrow> nat option" where
  "ptimer_next s q \<equiv> pt_next (ptimers s q)"

section \<open>Starting, calling and exiting processes\<close>

definition process_is_running :: "'w sys \<Rightarrow> nat \<Rightarrow> bool" where
  "process_is_running s p \<longleftrightarrow> p_state (procs s p) \<noteq> PROCESS_STATE_NONE"

text \<open>The last part of \<open>exit_process\<close>.\<close>

definition unlink_process :: "nat \<Rightarrow> 'w sys \<Rightarrow> 'w sys option" where
  "unlink_process proc s =
     (if process_head s = Some proc then Some (s\<lparr>process_head := proc_next s proc\<rparr>)
      else do {
        prev \<leftarrow> find_prev (proc_next s) (process_head s) proc;
        Some (case prev of None \<Rightarrow> s
          | Some t \<Rightarrow> upd_proc t (\<lambda>p. p\<lparr>p_next := proc_next s proc\<rparr>) s) })"

text \<open>The loop that tells the other processes, and the whole part about a running process.\<close>

definition tell_finished :: "'w kernel \<Rightarrow> nat \<Rightarrow> 'w sys \<Rightarrow> 'w sys option" where
  "tell_finished K proc s = for_procs (\<lambda>tmp s. if proc \<noteq> tmp
     then k_call K tmp PROCESS_EV_FINISHED (OnStack [PROCESS_EV_FINISHED] (Some proc)) s else Some s)
     (process_head s) s"

definition announce_exit :: "'w kernel \<Rightarrow> nat \<Rightarrow> nat option \<Rightarrow> 'w sys \<Rightarrow> 'w sys option" where
  "announce_exit K proc fromprocess s =
     (if process_is_running s proc then do {
        s \<leftarrow> tell_finished K proc (upd_proc proc (\<lambda>p. p\<lparr>p_state := PROCESS_STATE_NONE\<rparr>) s);
        if p_thread (procs s proc) \<noteq> None \<and> Some proc \<noteq> fromprocess
        then map_option snd (k_thread K proc PROCESS_EV_EXIT NullMsg (s\<lparr>process_current := Some proc\<rparr>))
        else Some s }
      else Some s)"

definition exit_process :: "'w kernel \<Rightarrow> nat \<Rightarrow> nat option \<Rightarrow> 'w sys \<Rightarrow> 'w sys option" where
  "exit_process K proc fromprocess s =
     (if \<not> p_sched (procs s proc) then None
      else do {
        let old_current = process_current s;
        found \<leftarrow> find_from (proc_next s) (process_head s) proc;
        if \<not> found then Some s
        else do {
          s \<leftarrow> announce_exit K proc fromprocess s;
          s \<leftarrow> unlink_process proc s;
          Some (s\<lparr>process_current := old_current\<rparr>) } })"

definition call_process :: "'w kernel \<Rightarrow> nat \<Rightarrow> u8 \<Rightarrow> msg_arg \<Rightarrow> 'w sys \<Rightarrow> 'w sys option" where
  "call_process K proc ev msg s =
     (if p_state (procs s proc) AND PROCESS_STATE_RUNNING \<noteq> 0 \<and> p_thread (procs s proc) \<noteq> None then
        if \<not> p_sched (procs s proc) then None
        else do {
          let caller = process_current s;
          (ret, s) \<leftarrow> k_thread K proc ev msg
            (upd_proc proc (\<lambda>p. p\<lparr>p_state := PROCESS_STATE_CALLED\<rparr>) (s\<lparr>process_current := Some proc\<rparr>));
          let s = s\<lparr>process_current := caller\<rparr>;
          if ret = PT_EXITED \<or> ret = PT_ENDED \<or> ev = PROCESS_EV_EXIT
          then exit_process K proc (Some proc) s
          else Some (upd_proc proc (\<lambda>p. p\<lparr>p_state := PROCESS_STATE_RUNNING\<rparr>) s) }
      else Some s)"

definition scheduler_init :: "(nat \<Rightarrow> cba_header option) \<Rightarrow> nat \<Rightarrow> 'w sys \<Rightarrow> 'w sys" where
  "scheduler_init pool len s = s\<lparr>s_cba := cba_init pool len, messages := msg_list_init,
     process_head := None, process_current := None, poll_requested := 0, process_timer_head := None\<rparr>"

definition scheduler_start_process :: "'w kernel \<Rightarrow> nat \<Rightarrow> 'w sys \<Rightarrow> 'w sys option" where
  "scheduler_start_process K proc s = do {
     found \<leftarrow> find_from (proc_next s) (process_head s) proc;
     if found then Some s
     else do {
       let s = upd_proc proc (\<lambda>p. p\<lparr>p_lc := 0, p_state := PROCESS_STATE_RUNNING, p_sched := True,
         p_next := process_head s\<rparr>) s;
       call_process K proc PROCESS_EV_INIT NullMsg (s\<lparr>process_head := Some proc\<rparr>) } }"

definition scheduler_get_current_process :: "'w sys \<Rightarrow> nat option" where
  "scheduler_get_current_process s = process_current s"

definition scheduler_exit_process :: "'w kernel \<Rightarrow> nat \<Rightarrow> 'w sys \<Rightarrow> 'w sys option" where
  "scheduler_exit_process K proc s = exit_process K proc (scheduler_get_current_process s) s"

section \<open>Messages\<close>

definition scheduler_events :: "'w sys \<Rightarrow> nat" where
  "scheduler_events s = (msg_list_length (messages s) + poll_requested s) mod 2 ^ 32"

definition scheduler_malloc :: "nat \<Rightarrow> 'w sys \<Rightarrow> (nat option \<times> 'w sys) option" where
  "scheduler_malloc msg_size s = do {
     (p, c, h) \<leftarrow> msg_ptr_malloc (s_cba s) (s_heap s) msg_size;
     Some (p, s\<lparr>s_cba := c, s_heap := h\<rparr>) }"

definition scheduler_free :: "nat \<Rightarrow> 'w sys \<Rightarrow> 'w sys option" where
  "scheduler_free m s = do { c \<leftarrow> msg_ptr_free (s_cba s) (Some m); Some (s\<lparr>s_cba := c\<rparr>) }"

definition scheduler_post_msg :: "nat option \<Rightarrow> nat \<Rightarrow> 'w sys \<Rightarrow> 'w sys" where
  "scheduler_post_msg proc m s =
     (let h = (s_heap s)(m := (s_heap s m)\<lparr>msg_private := proc\<rparr>);
          (r, h, l) = msg_list_push h (messages s) m
      in s\<lparr>s_heap := h, messages := l\<rparr>)"

definition scheduler_handle_msg :: "'w kernel \<Rightarrow> nat option \<Rightarrow> msg_arg \<Rightarrow> 'w sys \<Rightarrow> 'w sys option" where
  "scheduler_handle_msg K proc msg s = (case proc of
     None \<Rightarrow> for_procs (\<lambda>p s. do { t \<leftarrow> arg_type s msg; call_process K p t msg s }) (process_head s) s
   | Some p \<Rightarrow> do { t \<leftarrow> arg_type s msg; call_process K p t msg s })"

definition scheduler_utilize_poll :: "'w kernel \<Rightarrow> 'w sys \<Rightarrow> 'w sys option" where
  "scheduler_utilize_poll K s = for_procs (\<lambda>tmp s. if needspoll (procs s tmp)
     then call_process K tmp PROCESS_EV_POLL NullMsg
       (upd_proc tmp (\<lambda>p. p\<lparr>p_state := PROCESS_STATE_RUNNING, needspoll := False\<rparr>) s)
     else Some s) (process_head s) (s\<lparr>poll_requested := 0\<rparr>)"

text \<open>The part of \<open>scheduler_utilize_message\<close> that calls the receivers of the message \<open>m\<close>.\<close>

definition deliver_message :: "'w kernel \<Rightarrow> nat \<Rightarrow> 'w sys \<Rightarrow> 'w sys option" where
  "deliver_message K m s = (case msg_private (s_heap s m) of
     None \<Rightarrow> for_procs (\<lambda>p s. do {
         s \<leftarrow> (if poll_requested s \<noteq> 0 then scheduler_utilize_poll K s else Some s);
         call_process K p (msg_type (s_heap s m)) (Pooled m) s }) (process_head s) s
   | Some receiver \<Rightarrow> call_process K receiver (msg_type (s_heap s m)) (Pooled m)
       (if msg_type (s_heap s m) = PROCESS_EV_INIT
        then upd_proc receiver (\<lambda>p. p\<lparr>p_state := PROCESS_STATE_RUNNING\<rparr>) s else s))"

definition scheduler_utilize_message :: "'w kernel \<Rightarrow> 'w sys \<Rightarrow> 'w sys option" where
  "scheduler_utilize_message K s = (case msg_list_pop (s_heap s) (messages s) of
     (None, l) \<Rightarrow> Some (s\<lparr>messages := l\<rparr>)
   | (Some m, l) \<Rightarrow> do {
       s \<leftarrow> deliver_message K m (s\<lparr>messages := l\<rparr>);
       c \<leftarrow> msg_ptr_free (s_cba s) (Some m);
       Some (s\<lparr>s_cba := c\<rparr>) })"

definition scheduler_run :: "'w kernel \<Rightarrow> 'w sys \<Rightarrow> (nat \<times> 'w sys) option" where
  "scheduler_run K s = do {
     s \<leftarrow> (if poll_requested s \<noteq> 0 then scheduler_utilize_poll K s else Some s);
     s \<leftarrow> scheduler_utilize_message K s;
     Some (scheduler_events s, s) }"

section \<open>Process timers\<close>

definition scheduler_timer_start :: "nat \<Rightarrow> u32 \<Rightarrow> 'w sys \<Rightarrow> 'w sys option" where
  "scheduler_timer_start t time_ms s = do {
     let s = upd_ptimer t (\<lambda>p. p\<lparr>pt_timer := timer_start (s_clock s) TIMER_MS time_ms\<rparr>) s;
     found \<leftarrow> find_from (ptimer_next s) (process_timer_head s) t;
     if found then Some s
     else Some ((upd_ptimer t (\<lambda>p. p\<lparr>pt_next := process_timer_head s\<rparr>) s)\<lparr>process_timer_head := Some t\<rparr>) }"

definition scheduler_timer_stop :: "nat \<Rightarrow> 'w sys \<Rightarrow> 'w sys option" where
  "scheduler_timer_stop t s = do {
     let s = upd_ptimer t (\<lambda>p. p\<lparr>pt_timer := timer_stop\<rparr>) s;
     if process_timer_head s = Some t then Some (s\<lparr>process_timer_head := ptimer_next s t\<rparr>)
     else do {
       prev \<leftarrow> find_prev (ptimer_next s) (process_timer_head s) t;
       Some (case prev of None \<Rightarrow> s
         | Some q \<Rightarrow> upd_ptimer q (\<lambda>p. p\<lparr>pt_next := ptimer_next s t\<rparr>) s) } }"

text \<open>The search loop of \<open>scheduler_timer_find_expired\<close>: the timer found and the one before it.\<close>

partial_function (option) find_expired_loop ::
    "(nat \<Rightarrow> process_timer) \<Rightarrow> clock \<Rightarrow> nat option \<Rightarrow> nat option \<Rightarrow> (nat option \<times> nat option) option" where
  "find_expired_loop pts clk prev tmp = (case tmp of None \<Rightarrow> Some (prev, None)
     | Some t \<Rightarrow> if timer_expired clk (pt_timer (pts t)) then Some (prev, tmp)
         else find_expired_loop pts clk tmp (pt_next (pts t)))"

definition scheduler_timer_find_expired :: "'w sys \<Rightarrow> (nat option \<times> 'w sys) option" where
  "scheduler_timer_find_expired s = do {
     (prev, tmp) \<leftarrow> find_expired_loop (ptimers s) (s_clock s) (process_timer_head s) (process_timer_head s);
     case tmp of None \<Rightarrow> Some (None, s)
     | Some t \<Rightarrow> do {
         let s = upd_ptimer t (\<lambda>p. p\<lparr>pt_timer := timer_stop\<rparr>) s;
         if process_timer_head s = Some t then Some (Some t, s\<lparr>process_timer_head := ptimer_next s t\<rparr>)
         else do { q \<leftarrow> prev; Some (Some t, upd_ptimer q (\<lambda>p. p\<lparr>pt_next := ptimer_next s t\<rparr>) s) } } }"

partial_function (option) scheduler_timer_handler :: "'w kernel \<Rightarrow> 'w sys \<Rightarrow> 'w sys option" where
  "scheduler_timer_handler K s = (case scheduler_timer_find_expired s of
     None \<Rightarrow> None
   | Some (None, s) \<Rightarrow> Some s
   | Some (Some t, s) \<Rightarrow>
       (case scheduler_handle_msg K (pt_process (ptimers s t)) (OnStack [pt_event (ptimers s t)] None) s of
          None \<Rightarrow> None
        | Some s \<Rightarrow> scheduler_timer_handler K s))"

section \<open>The functions of \<open>process.c\<close> and \<open>process-timer.c\<close>\<close>

definition process_init :: "(nat \<Rightarrow> cba_header option) \<Rightarrow> nat \<Rightarrow> 'w sys \<Rightarrow> 'w sys" where
  "process_init pool len s = scheduler_init pool len s"

definition process_start :: "'w kernel \<Rightarrow> nat \<Rightarrow> 'w sys \<Rightarrow> 'w sys option" where
  "process_start K p s = scheduler_start_process K p s"

definition process_exit :: "'w kernel \<Rightarrow> nat \<Rightarrow> 'w sys \<Rightarrow> 'w sys option" where
  "process_exit K p s = scheduler_exit_process K p s"

definition process_poll :: "nat option \<Rightarrow> 'w sys \<Rightarrow> 'w sys option" where
  "process_poll p s = (case p of None \<Rightarrow> Some s
     | Some q \<Rightarrow>
         if p_state (procs s q) = PROCESS_STATE_RUNNING \<or> p_state (procs s q) = PROCESS_STATE_CALLED
         then if p_sched (procs s q)
           then Some ((upd_proc q (\<lambda>p. p\<lparr>needspoll := True\<rparr>) s)\<lparr>poll_requested := 1\<rparr>) else None
         else Some s)"

definition process_run :: "'w kernel \<Rightarrow> 'w sys \<Rightarrow> (nat \<times> 'w sys) option" where
  "process_run K s = scheduler_run K s"

definition process_events :: "'w sys \<Rightarrow> nat" where
  "process_events s = scheduler_events s"

definition process_get_current :: "'w sys \<Rightarrow> nat option" where
  "process_get_current s = scheduler_get_current_process s"

definition process_malloc :: "nat \<Rightarrow> 'w sys \<Rightarrow> (nat option \<times> 'w sys) option" where
  "process_malloc msg_size s = scheduler_malloc msg_size s"

definition process_free :: "nat \<Rightarrow> 'w sys \<Rightarrow> 'w sys option" where
  "process_free m s = scheduler_free m s"

definition process_post_msg :: "nat option \<Rightarrow> nat \<Rightarrow> 'w sys \<Rightarrow> process_status \<times> 'w sys" where
  "process_post_msg p m s = (PROCESS_SUCCESS, scheduler_post_msg p m s)"

definition process_handle_msg :: "'w kernel \<Rightarrow> nat option \<Rightarrow> msg_arg \<Rightarrow> 'w sys \<Rightarrow> 'w sys option" where
  "process_handle_msg K p msg s = scheduler_handle_msg K p msg s"

definition process_handle_msg_p0 :: "'w kernel \<Rightarrow> nat option \<Rightarrow> u8 \<Rightarrow> 'w sys \<Rightarrow> 'w sys option" where
  "process_handle_msg_p0 K p type s = scheduler_handle_msg K p (OnStack [type] None) s"

text \<open>Storing the fields or the bytes of a message that was just allocated.\<close>

definition fill_msg :: "nat \<Rightarrow> u8 list \<Rightarrow> 'w sys \<Rightarrow> 'w sys option" where
  "fill_msg m bs s = do { h \<leftarrow> msg_write (s_cba s) (s_heap s) m bs; Some (s\<lparr>s_heap := h\<rparr>) }"

definition process_send_msg :: "nat option \<Rightarrow> u8 list \<Rightarrow> nat \<Rightarrow> 'w sys \<Rightarrow> (process_status \<times> 'w sys) option" where
  "process_send_msg p msg msg_len s = do {
     (m, s) \<leftarrow> process_malloc msg_len s;
     case m of None \<Rightarrow> Some (PROCESS_ERR_NO_MEMORY, s)
     | Some m \<Rightarrow> if length msg < msg_len then None
         else do { s \<leftarrow> fill_msg m (take msg_len msg) s; Some (process_post_msg p m s) } }"

definition process_send_msg_p0 :: "nat option \<Rightarrow> u8 \<Rightarrow> 'w sys \<Rightarrow> (process_status \<times> 'w sys) option" where
  "process_send_msg_p0 p type s = do {
     (m, s) \<leftarrow> process_malloc 1 s;
     case m of None \<Rightarrow> Some (PROCESS_ERR_NO_MEMORY, s)
     | Some m \<Rightarrow> do { s \<leftarrow> fill_msg m [type] s; Some (process_post_msg p m s) } }"

definition process_send_msg_p1 :: "nat option \<Rightarrow> u8 \<Rightarrow> u8 \<Rightarrow> 'w sys \<Rightarrow> (process_status \<times> 'w sys) option" where
  "process_send_msg_p1 p type param1 s = do {
     (m, s) \<leftarrow> process_malloc 2 s;
     case m of None \<Rightarrow> Some (PROCESS_ERR_NO_MEMORY, s)
     | Some m \<Rightarrow> do { s \<leftarrow> fill_msg m [type, param1] s; Some (process_post_msg p m s) } }"

definition process_send_msg_p2 :: "nat option \<Rightarrow> u8 \<Rightarrow> u8 \<Rightarrow> u8 \<Rightarrow> 'w sys \<Rightarrow> (process_status \<times> 'w sys) option" where
  "process_send_msg_p2 p type param1 param2 s = do {
     (m, s) \<leftarrow> process_malloc 3 s;
     case m of None \<Rightarrow> Some (PROCESS_ERR_NO_MEMORY, s)
     | Some m \<Rightarrow> do { s \<leftarrow> fill_msg m [type, param1, param2] s; Some (process_post_msg p m s) } }"

definition process_send_msg_p3 :: "nat option \<Rightarrow> u8 \<Rightarrow> u8 \<Rightarrow> u8 \<Rightarrow> u8 \<Rightarrow> 'w sys \<Rightarrow> (process_status \<times> 'w sys) option" where
  "process_send_msg_p3 p type param1 param2 param3 s = do {
     (m, s) \<leftarrow> process_malloc 4 s;
     case m of None \<Rightarrow> Some (PROCESS_ERR_NO_MEMORY, s)
     | Some m \<Rightarrow> do { s \<leftarrow> fill_msg m [type, param1, param2, param3] s; Some (process_post_msg p m s) } }"

definition process_send_msg_p4 :: "nat option \<Rightarrow> u8 \<Rightarrow> u8 \<Rightarrow> u8 \<Rightarrow> u8 \<Rightarrow> u8 \<Rightarrow> 'w sys \<Rightarrow> (process_status \<times> 'w sys) option" where
  "process_send_msg_p4 p type param1 param2 param3 param4 s = do {
     (m, s) \<leftarrow> process_malloc 5 s;
     case m of None \<Rightarrow> Some (PROCESS_ERR_NO_MEMORY, s)
     | Some m \<Rightarrow> do { s \<leftarrow> fill_msg m [type, param1, param2, param3, param4] s; Some (process_post_msg p m s) } }"

text \<open>The size is computed in \<open>size_t\<close> and passed as \<open>uint32_t\<close>.\<close>

definition process_send_msg_data :: "nat option \<Rightarrow> u8 \<Rightarrow> u8 list \<Rightarrow> nat \<Rightarrow> 'w sys \<Rightarrow> (process_status \<times> 'w sys) option" where
  "process_send_msg_data p type data data_len s = do {
     (m, s) \<leftarrow> process_malloc ((1 + data_len) mod 2 ^ 32) s;
     case m of None \<Rightarrow> Some (PROCESS_ERR_NO_MEMORY, s)
     | Some m \<Rightarrow> if length data < data_len then None
         else do { s \<leftarrow> fill_msg m (type # take data_len data) s; Some (process_post_msg p m s) } }"

definition process_timer_start :: "nat \<Rightarrow> nat option \<Rightarrow> u32 \<Rightarrow> u8 \<Rightarrow> 'w sys \<Rightarrow> 'w sys option" where
  "process_timer_start t proc time_ms ev s =
     scheduler_timer_start t time_ms (upd_ptimer t (\<lambda>p. p\<lparr>pt_process := proc, pt_event := ev\<rparr>) s)"

definition process_timer_stop :: "nat \<Rightarrow> 'w sys \<Rightarrow> 'w sys option" where
  "process_timer_stop t s = scheduler_timer_stop t s"

definition process_timer_running :: "'w sys \<Rightarrow> nat \<Rightarrow> bool" where
  "process_timer_running s t = timer_running (pt_timer (ptimers s t))"

definition process_timer_handler :: "'w kernel \<Rightarrow> 'w sys \<Rightarrow> 'w sys option" where
  "process_timer_handler K s = scheduler_timer_handler K s"

section \<open>The calls of a thread\<close>

fun api_do :: "'w kernel \<Rightarrow> nat \<Rightarrow> api \<Rightarrow> 'w sys \<Rightarrow> (resp \<times> 'w sys) option" where
  "api_do K self (ProcStart p) s = map_option (Pair Void) (process_start K p s)"
| "api_do K self (ProcExit p) s = map_option (Pair Void) (process_exit K p s)"
| "api_do K self (ProcPoll p) s = map_option (Pair Void) (process_poll p s)"
| "api_do K self (ProcRunning p) s = Some (Flag (process_is_running s p), s)"
| "api_do K self ProcCurrent s = Some (Ptr (process_get_current s), s)"
| "api_do K self ProcEvents s = Some (Num (process_events s), s)"
| "api_do K self (MsgMalloc n) s = map_option (map_prod Ptr id) (process_malloc n s)"
| "api_do K self (MsgFree m) s = map_option (Pair Void) (process_free m s)"
| "api_do K self (MsgWrite m bs) s = map_option (Pair Void) (fill_msg m bs s)"
| "api_do K self (MsgRead m) s = Some (Bytes (msg_content (s_heap s m)), s)"
| "api_do K self (MsgPost p m) s = Some (map_prod Status id (process_post_msg p m s))"
| "api_do K self (MsgHandle p msg) s = map_option (Pair Void) (process_handle_msg K p msg s)"
| "api_do K self (MsgHandle0 p t) s = map_option (Pair Void) (process_handle_msg_p0 K p t s)"
| "api_do K self (MsgSend p msg n) s = map_option (map_prod Status id) (process_send_msg p msg n s)"
| "api_do K self (MsgSend0 p t) s = map_option (map_prod Status id) (process_send_msg_p0 p t s)"
| "api_do K self (MsgSend1 p t a) s = map_option (map_prod Status id) (process_send_msg_p1 p t a s)"
| "api_do K self (MsgSend2 p t a b) s = map_option (map_prod Status id) (process_send_msg_p2 p t a b s)"
| "api_do K self (MsgSend3 p t a b c) s = map_option (map_prod Status id) (process_send_msg_p3 p t a b c s)"
| "api_do K self (MsgSend4 p t a b c d) s = map_option (map_prod Status id) (process_send_msg_p4 p t a b c d s)"
| "api_do K self (MsgSendData p t data n) s = map_option (map_prod Status id) (process_send_msg_data p t data n s)"
| "api_do K self (TimerStart t p ms ev) s = map_option (Pair Void) (process_timer_start t p ms ev s)"
| "api_do K self (TimerStop t) s = map_option (Pair Void) (process_timer_stop t s)"
| "api_do K self (TimerRunning t) s = Some (Flag (process_timer_running s t), s)"
| "api_do K self GetLc s = Some (Num (unat (p_lc (procs s self))), s)"
| "api_do K self (SetLc n) s = Some (Void, upd_proc self (\<lambda>p. p\<lparr>p_lc := n\<rparr>) s)"

text \<open>\<open>proc->thread(proc, ev, msg)\<close>.\<close>

definition thread_call :: "'w program \<Rightarrow> 'w kernel \<Rightarrow> nat \<Rightarrow> u8 \<Rightarrow> msg_arg \<Rightarrow> 'w sys \<Rightarrow> (int \<times> 'w sys) option" where
  "thread_call prog K proc ev msg s = (case p_thread (procs s proc) of None \<Rightarrow> None
     | Some t \<Rightarrow> exec (api_do K proc) (prog t proc ev msg) s)"

text \<open>Re-entrant calls to a nesting depth of \<open>n\<close>; deeper ones have no result.\<close>

primrec nested :: "'w program \<Rightarrow> nat \<Rightarrow> 'w kernel" where
  "nested prog 0 = \<lparr>k_call = (\<lambda>_ _ _ _. None), k_thread = (\<lambda>_ _ _ _. None)\<rparr>"
| "nested prog (Suc n) = \<lparr>k_call = call_process (nested prog n), k_thread = thread_call prog (nested prog n)\<rparr>"

section \<open>The main loop\<close>

text \<open>What the application's \<open>main\<close> does: iterations of the scheduler, of the timers, clock interrupts,
  and calls from outside of any process.\<close>

datatype main_op = MainRun | MainTimers | MainClock u32 u32 | MainCall api

fun main_do :: "'w kernel \<Rightarrow> main_op \<Rightarrow> 'w sys \<Rightarrow> 'w sys option" where
  "main_do K MainRun s = map_option snd (process_run K s)"
| "main_do K MainTimers s = process_timer_handler K s"
| "main_do K (MainClock ms chrono) s = Some (s\<lparr>s_clock := clock_update (s_clock s) ms chrono\<rparr>)"
| "main_do K (MainCall a) s = map_option snd (api_do K 0 a s)"

fun main_run :: "'w kernel \<Rightarrow> main_op list \<Rightarrow> 'w sys \<Rightarrow> 'w sys option" where
  "main_run K [] s = Some s"
| "main_run K (x # xs) s = do { s \<leftarrow> main_do K x s; main_run K xs s }"

end
