(* ===== verification/Mx_Sched.thy ===== *)
theory Mx_Sched
  imports Mx_Process
begin

unbundle bit_operations_syntax

text \<open>
  The library of the scheduler proofs: lists linked through \<open>next\<close>, the branches of the operations,
  and the interface \<open>sched_step\<close>, by which a relation that every elementary change of the state
  respects holds across all operations, for every program and nesting depth. Its interpretations
  are the invariant of the process list and the timer list, and the frame of what the scheduler
  never changes.
\<close>

section \<open>Lists linked through \<open>next\<close>\<close>

fun nlist :: "(nat \<Rightarrow> nat option) \<Rightarrow> nat option \<Rightarrow> nat list \<Rightarrow> bool" where
  "nlist nx p [] \<longleftrightarrow> p = None"
| "nlist nx p (x # xs) \<longleftrightarrow> p = Some x \<and> nlist nx (nx x) xs"

lemma nlist_unique: "nlist nx p xs \<Longrightarrow> nlist nx p ys \<Longrightarrow> xs = ys"
  by (induction xs arbitrary: p ys) (case_tac ys; auto)+


lemma nlist_suffix: "nlist nx p (xs @ x # ys) \<Longrightarrow> nlist nx (nx x) ys"
  by (induction xs arbitrary: p) auto

lemma nlist_distinct: "nlist nx p xs \<Longrightarrow> distinct xs"
proof (induction xs arbitrary: p)
  case (Cons x xs)
  have "x \<notin> set xs"
  proof
    assume "x \<in> set xs"
    then obtain ys zs where "xs = ys @ x # zs" by (auto simp: in_set_conv_decomp)
    with Cons.prems nlist_suffix [of nx "nx x" ys x zs] have "nlist nx (nx x) xs" "nlist nx (nx x) zs" by auto
    with nlist_unique \<open>xs = ys @ x # zs\<close> have "zs = ys @ x # zs" by blast
    then have "length zs = length (ys @ x # zs)" by (rule arg_cong)
    then show False by simp
  qed
  with Cons show ?case by auto
qed simp

lemma nlist_cong: "(\<And>x. x \<in> set xs \<Longrightarrow> nx' x = nx x) \<Longrightarrow> nlist nx' p xs = nlist nx p xs"
  by (induction xs arbitrary: p) auto

lemma nlist_upd_other [simp]: "x \<notin> set xs \<Longrightarrow> nlist (nx(x := v)) p xs = nlist nx p xs"
  by (rule nlist_cong) auto

lemma nlist_upd_other' [simp]: "x \<notin> set xs \<Longrightarrow> nlist (\<lambda>a. if a = x then v else nx a) p xs = nlist nx p xs"
  by (rule nlist_cong) auto

lemma find_from_nlist: "nlist nx p xs \<Longrightarrow> find_from nx p x = Some (x \<in> set xs)"
  by (induction xs arbitrary: p) (auto simp: find_from.simps)

lemma find_prev_nlist:
  assumes "nlist nx p xs" "p \<noteq> Some x"
  shows "if x \<in> set xs then \<exists>ys t zs. xs = ys @ t # x # zs \<and> find_prev nx p x = Some (Some t)
    else find_prev nx p x = Some None"
  using assms
proof (induction xs arbitrary: p)
  case Nil
  then show ?case by (simp add: find_prev.simps)
next
  case (Cons y xs)
  show ?case
  proof (cases "nx y = Some x")
    case True
    with Cons.prems obtain zs where "xs = x # zs" by (cases xs) auto
    moreover have "find_prev nx p x = Some (Some y)"
      using True Cons.prems by (simp add: find_prev.simps)
    ultimately show ?thesis by auto
  next
    case False
    with Cons.IH [of "nx y"] Cons.prems
    have "if x \<in> set xs then \<exists>ys t zs. xs = ys @ t # x # zs \<and> find_prev nx (nx y) x = Some (Some t)
      else find_prev nx (nx y) x = Some None" by simp
    moreover have "find_prev nx p x = find_prev nx (nx y) x"
      using False Cons.prems by (simp add: find_prev.simps)
    moreover have "x \<noteq> y" using Cons.prems by auto
    ultimately show ?thesis by auto (metis append_Cons)
  qed
qed

text \<open>Taking an element out: the pointer to it, that of the head or that of its predecessor, is
  redirected to its successor.\<close>

definition unlinked :: "(nat \<Rightarrow> nat option) \<Rightarrow> nat option \<Rightarrow> nat \<Rightarrow> nat option \<Rightarrow> (nat \<Rightarrow> nat option) \<times> nat option" where
  "unlinked nx p x prev = (if p = Some x then (nx, nx x)
     else case prev of None \<Rightarrow> (nx, p) | Some t \<Rightarrow> (nx(t := nx x), p))"

lemma nlist_redirect:
  "nlist nx p (ys @ t # x # zs) \<Longrightarrow> nlist (nx(t := nx x)) p (ys @ t # zs)"
proof (induction ys arbitrary: p)
  case Nil
  with nlist_distinct [OF Nil] show ?case by auto
next
  case (Cons y ys)
  with nlist_distinct [OF Cons.prems] show ?case by auto
qed

lemma unlinked_nlist:
  assumes "nlist nx p xs" "p = Some x \<or> find_prev nx p x = Some prev"
  shows "nlist (fst (unlinked nx p x prev)) (snd (unlinked nx p x prev)) (remove1 x xs)"
proof (cases "p = Some x")
  case True
  with assms show ?thesis by (cases xs) (auto simp: unlinked_def)
next
  case ne: False
  show ?thesis
  proof (cases "x \<in> set xs")
    case True
    with find_prev_nlist [OF assms(1) ne] obtain ys t zs where
      xs: "xs = ys @ t # x # zs" and t: "find_prev nx p x = Some (Some t)" by auto
    from nlist_distinct [OF assms(1)] xs have "remove1 x xs = ys @ t # zs"
      by (auto simp: remove1_append)
    with nlist_redirect assms xs t ne show ?thesis by (auto simp: unlinked_def)
  next
    case False
    with find_prev_nlist [OF assms(1) ne] assms ne show ?thesis by (auto simp: unlinked_def remove1_idem)
  qed
qed

section \<open>The branches of the operations\<close>

lemma unlink_processE:
  assumes "unlink_process p s = Some t"
  obtains prev where "process_head s = Some p \<or> find_prev (proc_next s) (process_head s) p = Some prev"
    "process_head t = snd (unlinked (proc_next s) (process_head s) p prev)"
    "proc_next t = fst (unlinked (proc_next s) (process_head s) p prev)"
    "\<And>q. procs t q = (procs s q)\<lparr>p_next := proc_next t q\<rparr>"
    "t = s\<lparr>process_head := process_head t, procs := procs t\<rparr>"
proof (cases "process_head s = Some p")
  case True
  with assms show ?thesis by (intro that [of None]) (auto simp: unlink_process_def unlinked_def)
next
  case False
  with assms obtain prev where "find_prev (proc_next s) (process_head s) p = Some prev"
    and "t = (case prev of None \<Rightarrow> s | Some q \<Rightarrow> upd_proc q (\<lambda>x. x\<lparr>p_next := proc_next s p\<rparr>) s)"
    by (auto simp: unlink_process_def bind_eq_Some_conv)
  with False show ?thesis
    by (intro that [of prev]) (auto simp: unlinked_def upd_proc_def fun_eq_iff split: option.splits)
qed

lemma announce_exitE:
  assumes "announce_exit K p from s = Some t"
  obtains (idle) "\<not> process_is_running s p" "t = s"
    | (quiet) "process_is_running s p" "p_thread (procs t p) = None \<or> Some p = from"
        "tell_finished K p (upd_proc p (\<lambda>p. p\<lparr>p_state := PROCESS_STATE_NONE\<rparr>) s) = Some t"
    | (thread) u r where "process_is_running s p" "Some p \<noteq> from"
        "tell_finished K p (upd_proc p (\<lambda>p. p\<lparr>p_state := PROCESS_STATE_NONE\<rparr>) s) = Some u"
        "k_thread K p PROCESS_EV_EXIT NullMsg (u\<lparr>process_current := Some p\<rparr>) = Some (r, t)"
  using assms by (auto simp: announce_exit_def bind_eq_Some_conv split: if_splits)

lemma exit_processE:
  assumes "exit_process K p from s = Some t"
  obtains (absent) "find_from (proc_next s) (process_head s) p = Some False" "t = s"
    | (found) u v where "p_sched (procs s p)" "find_from (proc_next s) (process_head s) p = Some True"
        "announce_exit K p from s = Some u" "unlink_process p u = Some v"
        "t = v\<lparr>process_current := process_current s\<rparr>"
  using assms by (auto simp: exit_process_def bind_eq_Some_conv Let_def split: if_splits)

lemma call_processE:
  assumes "call_process K p ev m s = Some t"
  obtains (ignored) "p_state (procs s p) AND PROCESS_STATE_RUNNING = 0 \<or> p_thread (procs s p) = None" "t = s"
    | (called) r u where "p_state (procs s p) AND PROCESS_STATE_RUNNING \<noteq> 0" "p_thread (procs s p) \<noteq> None"
        "p_sched (procs s p)"
        "k_thread K p ev m (upd_proc p (\<lambda>p. p\<lparr>p_state := PROCESS_STATE_CALLED\<rparr>)
           (s\<lparr>process_current := Some p\<rparr>)) = Some (r, u)"
        "if r = PT_EXITED \<or> r = PT_ENDED \<or> ev = PROCESS_EV_EXIT
         then exit_process K p (Some p) (u\<lparr>process_current := process_current s\<rparr>) = Some t
         else t = upd_proc p (\<lambda>p. p\<lparr>p_state := PROCESS_STATE_RUNNING\<rparr>) (u\<lparr>process_current := process_current s\<rparr>)"
proof (cases "p_state (procs s p) AND PROCESS_STATE_RUNNING = 0 \<or> p_thread (procs s p) = None")
  case True
  with assms show ?thesis by (auto simp: call_process_def intro: ignored)
next
  case False
  with assms obtain r u where "p_sched (procs s p)"
    "k_thread K p ev m (upd_proc p (\<lambda>p. p\<lparr>p_state := PROCESS_STATE_CALLED\<rparr>)
       (s\<lparr>process_current := Some p\<rparr>)) = Some (r, u)"
    "(let s = u\<lparr>process_current := process_current s\<rparr> in
      if r = PT_EXITED \<or> r = PT_ENDED \<or> ev = PROCESS_EV_EXIT then exit_process K p (Some p) s
      else Some (upd_proc p (\<lambda>p. p\<lparr>p_state := PROCESS_STATE_RUNNING\<rparr>) s)) = Some t"
    by (auto simp: call_process_def bind_eq_Some_conv split: if_splits)
  with False show ?thesis by (intro called [of r u]) (auto simp: Let_def split: if_splits)
qed

lemma utilize_messageE:
  assumes "scheduler_utilize_message K s = Some t"
  obtains (empty) l where "msg_list_pop (s_heap s) (messages s) = (None, l)" "t = s\<lparr>messages := l\<rparr>"
    | (message) m l u c where "msg_list_pop (s_heap s) (messages s) = (Some m, l)"
        "deliver_message K m (s\<lparr>messages := l\<rparr>) = Some u" "msg_ptr_free (s_cba u) (Some m) = Some c"
        "t = u\<lparr>s_cba := c\<rparr>"
  using assms by (auto simp: scheduler_utilize_message_def bind_eq_Some_conv split: prod.splits option.splits)

fun quiet_call :: "api \<Rightarrow> bool" where
  "quiet_call (ProcStart p) \<longleftrightarrow> False"
| "quiet_call (ProcExit p) \<longleftrightarrow> False"
| "quiet_call (MsgHandle p m) \<longleftrightarrow> False"
| "quiet_call (MsgHandle0 p ty) \<longleftrightarrow> False"
| "quiet_call _ \<longleftrightarrow> True"

section \<open>What a step of the scheduler can change\<close>

text \<open>
  A relation between states that every elementary change respects holds across every operation, at
  any nesting depth and for any program. The interfaces below say what is asked of the relation;
  the operations of the scheduler are its provider, the invariants its clients.
\<close>

locale step_rel =
  fixes R :: "'w sys \<Rightarrow> 'w sys \<Rightarrow> bool"
  assumes refl: "R s s"
    and trans: "R s t \<Longrightarrow> R t u \<Longrightarrow> R s u"
begin

definition keeps :: "'w kernel \<Rightarrow> bool" where
  "keeps K \<longleftrightarrow> (\<forall>p ev m s t. k_call K p ev m s = Some t \<longrightarrow> R s t) \<and>
     (\<forall>p ev m s r t. k_thread K p ev m s = Some (r, t) \<longrightarrow> R s t)"

lemma keepsD: "keeps K \<Longrightarrow> k_call K p ev m s = Some t \<Longrightarrow> R s t"
  "keeps K \<Longrightarrow> k_thread K p ev m s = Some (r, t) \<Longrightarrow> R s t"
  by (auto simp: keeps_def)

lemma for_procs:
  assumes "for_procs body p s = Some t" "\<And>q s t. body q s = Some t \<Longrightarrow> R s t"
  shows "R s t"
  using assms
proof (induction body p s t rule: for_procs.raw_induct [rotated, consumes 1])
  case (1 f body p s t)
  then show ?case by (auto split: option.splits intro: refl) (blast intro: trans)
qed

lemma tell_finished: "keeps K \<Longrightarrow> tell_finished K p s = Some t \<Longrightarrow> R s t"
  unfolding tell_finished_def by (erule for_procs) (auto split: if_splits intro: refl keepsD)

end

text \<open>The changes of the operations that call nobody.\<close>

locale mem_rel = step_rel +
  assumes polled: "R s (s\<lparr>poll_requested := n\<rparr>)"
    and queue: "R s (s\<lparr>messages := l\<rparr>)"
    and pool: "R s (s\<lparr>s_cba := cb\<rparr>)"
    and heap: "R s (s\<lparr>s_heap := h\<rparr>)"
    and light: "p_next p' = p_next (procs s q) \<Longrightarrow> p_sched p' = p_sched (procs s q) \<Longrightarrow>
      p_thread p' = p_thread (procs s q) \<Longrightarrow> p_state p' = p_state (procs s q) \<Longrightarrow>
      R s (s\<lparr>procs := (procs s)(q := p')\<rparr>)"
    and ptimer: "pt_next tm' = pt_next (ptimers s q) \<Longrightarrow> R s (s\<lparr>ptimers := (ptimers s)(q := tm')\<rparr>)"
    and timer_start: "scheduler_timer_start q ms s = Some t \<Longrightarrow> R s t"
    and timer_stop: "scheduler_timer_stop q s = Some t \<Longrightarrow> R s t"
begin

lemma messages_ops:
  "scheduler_malloc n s = Some (p, t) \<Longrightarrow> R s t" "scheduler_free m s = Some t \<Longrightarrow> R s t"
  "R s (scheduler_post_msg q m s)" "fill_msg m bs s = Some t \<Longrightarrow> R s t"
  by (auto simp: scheduler_malloc_def scheduler_free_def scheduler_post_msg_def fill_msg_def
      bind_eq_Some_conv Let_def split: prod.splits intro: trans [OF pool heap] trans [OF heap queue] pool heap)

lemmas send_defs = process_send_msg_def process_send_msg_p0_def process_send_msg_p1_def process_send_msg_p2_def
  process_send_msg_p3_def process_send_msg_p4_def process_send_msg_data_def process_malloc_def process_post_msg_def

lemma send_template:
  assumes "do { (m, s1) \<leftarrow> scheduler_malloc n s;
      case m of None \<Rightarrow> Some (PROCESS_ERR_NO_MEMORY, s1)
      | Some m \<Rightarrow> if b then None else do { s2 \<leftarrow> fill_msg m bs s1; Some (PROCESS_SUCCESS, scheduler_post_msg q m s2) } } = Some (x, t)"
  shows "R s t"
proof -
  from assms obtain m s1 where m: "scheduler_malloc n s = Some (m, s1)"
    and c: "(case m of None \<Rightarrow> Some (PROCESS_ERR_NO_MEMORY, s1)
      | Some m \<Rightarrow> if b then None else do { s2 \<leftarrow> fill_msg m bs s1; Some (PROCESS_SUCCESS, scheduler_post_msg q m s2) }) = Some (x, t)"
    by (auto simp: bind_eq_Some_conv)
  show ?thesis
  proof (cases m)
    case None
    with c messages_ops(1) [OF m] show ?thesis by simp
  next
    case (Some k)
    with c obtain s2 where "fill_msg k bs s1 = Some s2" "t = scheduler_post_msg q k s2"
      by (auto simp: bind_eq_Some_conv split: if_splits)
    with trans [OF messages_ops(1) [OF m] trans [OF messages_ops(4) messages_ops(3)]] show ?thesis by blast
  qed
qed

lemma send_ops:
  "process_send_msg q bs n s = Some (x, t) \<Longrightarrow> R s t" "process_send_msg_p0 q ty s = Some (x, t) \<Longrightarrow> R s t"
  "process_send_msg_p1 q ty a s = Some (x, t) \<Longrightarrow> R s t" "process_send_msg_p2 q ty a b s = Some (x, t) \<Longrightarrow> R s t"
  "process_send_msg_p3 q ty a b c s = Some (x, t) \<Longrightarrow> R s t" "process_send_msg_p4 q ty a b c d s = Some (x, t) \<Longrightarrow> R s t"
  "process_send_msg_data q ty bs n s = Some (x, t) \<Longrightarrow> R s t"
  using send_template [of _ s False] send_template [of n s "length bs < n"]
    send_template [of "(1 + n) mod 2 ^ 32" s "length bs < n"]
  unfolding send_defs by (simp_all only: if_False)

lemma light_upd: "R s (upd_proc q (\<lambda>p. p\<lparr>p_lc := n\<rparr>) s)" "R s (upd_proc q (\<lambda>p. p\<lparr>needspoll := b\<rparr>) s)"
  by (simp_all add: upd_proc_def light)

lemma process_poll: "process_poll p s = Some t \<Longrightarrow> R s t"
  by (auto simp: process_poll_def split: option.splits if_splits intro: refl trans [OF light_upd(2) polled])

lemma process_timer_start:
  assumes "process_timer_start q pr ms ev s = Some t"
  shows "R s t"
proof -
  let ?s = "upd_ptimer q (\<lambda>p. p\<lparr>pt_process := pr, pt_event := ev\<rparr>) s"
  have "R s ?s" by (simp add: upd_ptimer_def ptimer)
  moreover from assms have "R ?s t" by (intro timer_start) (simp add: process_timer_start_def)
  ultimately show ?thesis by (rule trans)
qed

text \<open>The calls of a thread during which no other thread runs.\<close>

lemma quiet_api:
  assumes "api_do K self a s = Some (x, t)" "quiet_call a"
  shows "R s t"
  using assms
  by (cases a) (auto simp: process_malloc_def process_free_def process_post_msg_def process_timer_stop_def
    intro: refl send_ops messages_ops process_poll process_timer_start timer_stop light_upd)

end

text \<open>The changes that no operation brackets.\<close>

locale sched_mem = mem_rel +
  assumes proc: "p_next p' = p_next (procs s q) \<Longrightarrow> p_sched p' = p_sched (procs s q) \<Longrightarrow>
      p_thread p' = p_thread (procs s q) \<Longrightarrow> R s (s\<lparr>procs := (procs s)(q := p')\<rparr>)"
    and link: "find_from (proc_next s) (process_head s) q = Some False \<Longrightarrow>
      R s ((upd_proc q (\<lambda>p. p\<lparr>p_lc := 0, p_state := PROCESS_STATE_RUNNING, p_sched := True,
         p_next := process_head s\<rparr>) s)\<lparr>process_head := Some q\<rparr>)"
    and expired: "scheduler_timer_find_expired s = Some (x, t) \<Longrightarrow> R s t"
begin

lemma state: "R s (upd_proc q (\<lambda>p. p\<lparr>p_state := v\<rparr>) s)"
  "R s (upd_proc q (\<lambda>p. p\<lparr>p_state := v, needspoll := b\<rparr>) s)"
  by (simp_all add: upd_proc_def proc)

end

text \<open>A relation that calling and exiting a process respect, with re-entrant calls of a given kind.\<close>

locale sched_ops = sched_mem R for R :: "'w sys \<Rightarrow> 'w sys \<Rightarrow> bool" +
  fixes good :: "'w kernel \<Rightarrow> bool"
  assumes exit_process: "good K \<Longrightarrow> exit_process K p from s = Some t \<Longrightarrow> R s t"
    and call_process: "good K \<Longrightarrow> call_process K p ev m s = Some t \<Longrightarrow> R s t"
begin

lemma start_process:
  assumes K: "good K" and st: "scheduler_start_process K p s = Some t"
  shows "R s t"
proof (cases "find_from (proc_next s) (process_head s) p")
  case (Some b)
  show ?thesis
  proof (cases b)
    case True
    with Some st show ?thesis by (simp add: scheduler_start_process_def refl)
  next
    case False
    with Some have "find_from (proc_next s) (process_head s) p = Some False" by simp
    from trans [OF link [OF this] call_process [OF K]] Some False st show ?thesis
      by (simp add: scheduler_start_process_def Let_def)
  qed
qed (use st in \<open>simp add: scheduler_start_process_def\<close>)

lemma handle_msg:
  assumes K: "good K" and h: "scheduler_handle_msg K q m s = Some t"
  shows "R s t"
proof (cases q)
  case None
  with h have "for_procs (\<lambda>p s. do { ty \<leftarrow> arg_type s m; call_process K p ty m s }) (process_head s) s = Some t"
    by (simp add: scheduler_handle_msg_def)
  then show ?thesis by (rule for_procs) (auto simp: bind_eq_Some_conv intro: call_process [OF K])
next
  case (Some p)
  with h show ?thesis
    by (auto simp: scheduler_handle_msg_def bind_eq_Some_conv intro: call_process [OF K])
qed

lemma api_do:
  assumes K: "good K" and a: "api_do K self a s = Some (x, t)"
  shows "R s t"
proof (cases a)
  case (ProcStart p)
  with a show ?thesis by (auto simp: process_start_def intro: start_process [OF K])
next
  case (ProcExit p)
  with a show ?thesis by (auto simp: process_exit_def scheduler_exit_process_def intro: exit_process [OF K])
next
  case (MsgHandle p m)
  with a show ?thesis by (auto simp: process_handle_msg_def intro: handle_msg [OF K])
next
  case (MsgHandle0 p ty)
  with a show ?thesis by (auto simp: process_handle_msg_p0_def intro: handle_msg [OF K])
qed (use quiet_api [OF a] in simp_all)

lemma utilize_poll:
  assumes K: "good K" and u: "scheduler_utilize_poll K s = Some t"
  shows "R s t"
proof -
  have "R (s\<lparr>poll_requested := 0\<rparr>) t"
    using u unfolding scheduler_utilize_poll_def
  proof (rule for_procs)
    fix q a b
    assume "(if needspoll (procs a q) then call_process K q PROCESS_EV_POLL NullMsg
       (upd_proc q (\<lambda>p. p\<lparr>p_state := PROCESS_STATE_RUNNING, needspoll := False\<rparr>) a) else Some a) = Some b"
    then show "R a b" by (auto split: if_splits intro: refl trans [OF state(2) call_process [OF K]])
  qed
  with polled show ?thesis by (rule trans)
qed

lemma deliver_message:
  assumes K: "good K" and d: "deliver_message K m s = Some t"
  shows "R s t"
proof (cases "msg_private (s_heap s m)")
  case None
  have poll: "R a b" if "(if poll_requested a \<noteq> 0 then scheduler_utilize_poll K a else Some a) = Some b" for a b
    using that by (auto split: if_splits intro: refl utilize_poll [OF K])
  from None d have "for_procs (\<lambda>p s. do {
      s \<leftarrow> (if poll_requested s \<noteq> 0 then scheduler_utilize_poll K s else Some s);
      call_process K p (msg_type (s_heap s m)) (Pooled m) s }) (process_head s) s = Some t"
    by (simp add: deliver_message_def)
  then show ?thesis
    by (rule for_procs) (auto simp: bind_eq_Some_conv intro: trans [OF poll call_process [OF K]])
next
  case (Some r)
  with d show ?thesis
    by (auto simp: deliver_message_def split: if_splits
        intro: call_process [OF K] trans [OF state(1) call_process [OF K]])
qed

lemma utilize_message:
  assumes K: "good K" and u: "scheduler_utilize_message K s = Some t"
  shows "R s t"
  using u
proof (cases rule: utilize_messageE)
  case (empty l)
  then show ?thesis by (simp only: queue)
next
  case (message m l u c)
  from trans [OF trans [OF queue deliver_message [OF K message(2)]] pool] message(4) show ?thesis by simp
qed

lemma timer_handler:
  assumes "scheduler_timer_handler K s = Some t" "good K"
  shows "R s t"
  using assms
proof (induction K s t rule: scheduler_timer_handler.raw_induct [rotated, consumes 1])
  case (1 f K s t)
  from 1(2) obtain x u where x: "scheduler_timer_find_expired s = Some (x, u)"
    by (auto split: option.splits)
  show ?case
  proof (cases x)
    case None
    with x 1(2) expired [OF x] show ?thesis by simp
  next
    case (Some q)
    with x 1(2) obtain v where "scheduler_handle_msg K (pt_process (ptimers u q)) (OnStack [pt_event (ptimers u q)] None) u = Some v"
      "f K v = Some t" by (auto split: option.splits)
    with 1(1) [OF this(2) 1(3)] trans [OF expired [OF x] trans [OF handle_msg [OF 1(3)]]] show ?thesis by blast
  qed
qed

lemma main_do:
  assumes good: "good (nested prog n)" and "main_do (nested prog n) op s = Some t" "\<And>ms ch. op \<noteq> MainClock ms ch"
  shows "R s t"
proof (cases op)
  case MainRun
  with assms show ?thesis
    by (auto simp: process_run_def scheduler_run_def bind_eq_Some_conv split: if_splits
        intro: utilize_message [OF good] trans [OF utilize_poll [OF good] utilize_message [OF good]])
next
  case MainTimers
  with assms show ?thesis by (auto simp: process_timer_handler_def intro: timer_handler good)
next
  case (MainCall a)
  with assms show ?thesis by (auto intro: api_do [OF good])
qed (use assms in auto)

end

text \<open>A relation that every elementary change respects: the application's own ones, the current process,
  and taking a process out of the list.\<close>

locale sched_step = sched_mem +
  assumes world: "R s (s\<lparr>s_world := w\<rparr>)"
    and current: "R s (s\<lparr>process_current := c\<rparr>)"
    and unlink: "unlink_process q s = Some t \<Longrightarrow> R s t"
begin

lemma exec:
  assumes "exec f th s = Some (r, t)" "\<And>a x s t. f a s = Some (x, t) \<Longrightarrow> R s t"
  shows "R s t"
  using assms(1)
proof (induction th arbitrary: s)
  case (Return x)
  then show ?case by (simp add: refl)
next
  case (Act g)
  obtain w u where g: "g (s_world s) = (w, u)" by (cases "g (s_world s)")
  with Act.prems have "exec f u (s\<lparr>s_world := w\<rparr>) = Some (r, t)" by simp
  from Act.IH [OF _ _ this, of "(w, u)"] g have "R (s\<lparr>s_world := w\<rparr>) t"
    by (metis rangeI snds.intros snd_conv)
  with world trans show ?case by blast
next
  case (Call a k)
  then obtain x u where "f a s = Some (x, u)" "exec f (k x) u = Some (r, t)"
    by (auto simp: bind_eq_Some_conv)
  with assms(2) Call.IH trans show ?case by (metis rangeI)
qed simp

lemma step_exit:
  assumes K: "keeps K" and e: "exit_process K p from s = Some t"
  shows "R s t"
  using e
proof (cases rule: exit_processE)
  case absent
  then show ?thesis by (simp add: refl)
next
  case (found u v)
  have "R s u" using found(3)
  proof (cases rule: announce_exitE)
    case idle
    then show ?thesis by (simp add: refl)
  next
    case quiet
    from trans [OF state(1) tell_finished [OF K quiet(3)]] show ?thesis .
  next
    case (thread w r)
    from trans [OF state(1) tell_finished [OF K thread(3)]] trans [OF current keepsD(2) [OF K thread(4)]]
    show ?thesis by (rule trans)
  qed
  from trans [OF this trans [OF unlink [OF found(4)] current]] found(5) show ?thesis by simp
qed

lemma step_call:
  assumes K: "keeps K" and c: "call_process K p ev m s = Some t"
  shows "R s t"
  using c
proof (cases rule: call_processE)
  case ignored
  then show ?thesis by (simp add: refl)
next
  case (called r u)
  from trans [OF trans [OF trans [OF current state(1)] keepsD(2) [OF K called(4)]] current]
  have u: "R s (u\<lparr>process_current := process_current s\<rparr>)" .
  show ?thesis
  proof (cases "r = PT_EXITED \<or> r = PT_ENDED \<or> ev = PROCESS_EV_EXIT")
    case True
    with called(5) trans [OF u step_exit [OF K]] show ?thesis by simp
  next
    case False
    with called(5) trans [OF u state(1)] show ?thesis by simp
  qed
qed

end

sublocale sched_step \<subseteq> sched_ops R keeps
  by unfold_locales (rule step_exit step_call, assumption+)+

context sched_step begin

lemma keeps_nested: "keeps (nested prog n)"
proof (induction n)
  case 0
  then show ?case by (simp add: keeps_def)
next
  case (Suc n)
  have "R s t" if "thread_call prog (nested prog n) p ev m s = Some (r, t)" for p ev m s r t
    using that by (auto simp: thread_call_def split: option.splits elim!: exec intro: api_do [OF Suc])
  with call_process [OF Suc] show ?case by (simp add: keeps_def)
qed

lemmas main_step = main_do [OF keeps_nested]

end

end
