(* ===== verification/Mx_SchedInv.thy ===== *)
theory Mx_SchedInv
  imports Mx_Sched
begin

unbundle bit_operations_syntax

text \<open>
  The invariant of the scheduler's two linked lists, what the scheduler never changes, and the
  nesting of the current process, for every program: the interpretations of the interfaces of
  \<open>Mx_Sched\<close> on the model's operations.
\<close>

section \<open>The process list and the timer list\<close>

definition lists_ok :: "'w sys \<Rightarrow> bool" where
  "lists_ok s \<longleftrightarrow> (\<exists>xs. nlist (proc_next s) (process_head s) xs \<and> (\<forall>x\<in>set xs. p_sched (procs s x))) \<and>
     (\<exists>ts. nlist (ptimer_next s) (process_timer_head s) ts)"

lemma lists_okE:
  assumes "lists_ok s"
  obtains xs ts where "nlist (proc_next s) (process_head s) xs" "\<forall>x\<in>set xs. p_sched (procs s x)"
    "nlist (ptimer_next s) (process_timer_head s) ts"
  using assms by (auto simp: lists_ok_def)

lemma lists_okI:
  "nlist (proc_next s) (process_head s) xs \<Longrightarrow> (\<And>x. x \<in> set xs \<Longrightarrow> p_sched (procs s x)) \<Longrightarrow>
   nlist (ptimer_next s) (process_timer_head s) ts \<Longrightarrow> lists_ok s"
  by (auto simp: lists_ok_def)

lemma lists_ok_frame:
  "process_head t = process_head s \<Longrightarrow> process_timer_head t = process_timer_head s \<Longrightarrow>
   proc_next t = proc_next s \<Longrightarrow> (\<And>q. p_sched (procs t q) = p_sched (procs s q)) \<Longrightarrow>
   ptimer_next t = ptimer_next s \<Longrightarrow> lists_ok s \<Longrightarrow> lists_ok t"
  unfolding lists_ok_def by simp

lemma upd_proc_next: "proc_next (upd_proc q f s) = (proc_next s)(q := p_next (f (procs s q)))"
  by (auto simp: upd_proc_def)

lemma upd_ptimer_next: "ptimer_next (upd_ptimer q f s) = (ptimer_next s)(q := pt_next (f (ptimers s q)))"
  by (auto simp: upd_ptimer_def)

lemma lists_ok_timers:
  "t = s\<lparr>ptimers := p, process_timer_head := h\<rparr> \<Longrightarrow> nlist (ptimer_next t) (process_timer_head t) ts \<Longrightarrow>
   lists_ok s \<Longrightarrow> lists_ok t"
  unfolding lists_ok_def by auto

text \<open>The timer the search finds is the first expired one.\<close>

lemma find_expired_loop_nlist:
  assumes "nlist (\<lambda>q. pt_next (pts q)) p xs"
  shows "(\<exists>prev'. find_expired_loop pts clk prev p = Some (prev', None) \<and>
      (\<forall>x\<in>set xs. \<not> timer_expired clk (pt_timer (pts x)))) \<or>
    (\<exists>ys x zs. xs = ys @ x # zs \<and> timer_expired clk (pt_timer (pts x)) \<and>
      (\<forall>y\<in>set ys. \<not> timer_expired clk (pt_timer (pts y))) \<and>
      find_expired_loop pts clk prev p = Some (if ys = [] then prev else Some (last ys), Some x))"
  using assms
proof (induction xs arbitrary: p prev)
  case Nil
  then show ?case by (simp add: find_expired_loop.simps)
next
  case (Cons y xs)
  show ?case
  proof (cases "timer_expired clk (pt_timer (pts y))")
    case True
    with Cons.prems have "find_expired_loop pts clk prev p = Some (prev, Some y)"
      by (simp add: find_expired_loop.simps)
    with True have "y # xs = [] @ y # xs \<and> timer_expired clk (pt_timer (pts y)) \<and>
      (\<forall>z\<in>set []. \<not> timer_expired clk (pt_timer (pts z))) \<and>
      find_expired_loop pts clk prev p = Some (if [] = [] then prev else Some (last []), Some y)" by simp
    then show ?thesis by blast
  next
    case False
    with Cons.prems have step: "find_expired_loop pts clk prev p = find_expired_loop pts clk (Some y) (pt_next (pts y))"
      by (simp add: find_expired_loop.simps)
    from Cons.prems have "nlist (\<lambda>q. pt_next (pts q)) (pt_next (pts y)) xs" by simp
    from Cons.IH [OF this, of "Some y"] show ?thesis
    proof (elim disjE exE conjE)
      fix prev' assume "find_expired_loop pts clk (Some y) (pt_next (pts y)) = Some (prev', None)"
        "\<forall>x\<in>set xs. \<not> timer_expired clk (pt_timer (pts x))"
      with step False show ?thesis by auto
    next
      fix ys x zs assume "xs = ys @ x # zs" "timer_expired clk (pt_timer (pts x))"
        "\<forall>y\<in>set ys. \<not> timer_expired clk (pt_timer (pts y))"
        "find_expired_loop pts clk (Some y) (pt_next (pts y)) = Some (if ys = [] then Some y else Some (last ys), Some x)"
      with step False have "y # xs = (y # ys) @ x # zs \<and> timer_expired clk (pt_timer (pts x)) \<and>
        (\<forall>z\<in>set (y # ys). \<not> timer_expired clk (pt_timer (pts z))) \<and>
        find_expired_loop pts clk prev p = Some (if y # ys = [] then prev else Some (last (y # ys)), Some x)" by simp
      then show ?thesis by blast
    qed
  qed
qed

lemma find_expired_ok:
  assumes ts: "nlist (ptimer_next s) (process_timer_head s) ts"
  shows "(\<forall>x\<in>set ts. \<not> timer_expired (s_clock s) (pt_timer (ptimers s x))) \<and>
      scheduler_timer_find_expired s = Some (None, s) \<or>
    (\<exists>ys x zs t. ts = ys @ x # zs \<and> timer_expired (s_clock s) (pt_timer (ptimers s x)) \<and>
      (\<forall>y\<in>set ys. \<not> timer_expired (s_clock s) (pt_timer (ptimers s y))) \<and>
      scheduler_timer_find_expired s = Some (Some x, t) \<and>
      nlist (ptimer_next t) (process_timer_head t) (ys @ zs) \<and>
      t = s\<lparr>ptimers := ptimers t, process_timer_head := process_timer_head t\<rparr> \<and>
      (\<forall>q. ptimers t q = (ptimers s q)\<lparr>pt_next := ptimer_next t q,
         pt_timer := if q = x then timer_stop else pt_timer (ptimers s q)\<rparr>))"
proof -
  from find_expired_loop_nlist [OF ts, of "s_clock s" "process_timer_head s"] show ?thesis
  proof (elim disjE exE conjE)
    fix prev assume "find_expired_loop (ptimers s) (s_clock s) (process_timer_head s) (process_timer_head s) = Some (prev, None)"
      "\<forall>x\<in>set ts. \<not> timer_expired (s_clock s) (pt_timer (ptimers s x))"
    then show ?thesis by (simp add: scheduler_timer_find_expired_def)
  next
    fix ys x zs
    assume split: "ts = ys @ x # zs" and x: "timer_expired (s_clock s) (pt_timer (ptimers s x))"
      "\<forall>y\<in>set ys. \<not> timer_expired (s_clock s) (pt_timer (ptimers s y))"
      and f: "find_expired_loop (ptimers s) (s_clock s) (process_timer_head s) (process_timer_head s) =
        Some (if ys = [] then process_timer_head s else Some (last ys), Some x)"
    let ?s = "upd_ptimer x (\<lambda>p. p\<lparr>pt_timer := timer_stop\<rparr>) s"
    have nx: "ptimer_next ?s = ptimer_next s" by (auto simp: upd_ptimer_def)
    have hd: "process_timer_head ?s = process_timer_head s" by (simp add: upd_ptimer_def)
    from nlist_distinct [OF ts] split have dist: "x \<notin> set ys" "x \<notin> set zs" "distinct ys" by auto
    show ?thesis
    proof (cases ys rule: rev_cases)
      case Nil
      with ts split have "process_timer_head s = Some x" "nlist (ptimer_next s) (ptimer_next s x) zs" by auto
      let ?t = "?s\<lparr>process_timer_head := ptimer_next s x\<rparr>"
      have "scheduler_timer_find_expired s = Some (Some x, ?t)"
        using f Nil \<open>process_timer_head s = Some x\<close>
        by (simp add: scheduler_timer_find_expired_def Let_def hd fun_cong [OF nx])
      moreover have "ptimer_next ?t = ptimer_next s" using nx by simp
      with \<open>nlist (ptimer_next s) (ptimer_next s x) zs\<close> Nil
      have "nlist (ptimer_next ?t) (process_timer_head ?t) (ys @ zs)" by simp
      moreover have "?t = s\<lparr>ptimers := ptimers ?t, process_timer_head := process_timer_head ?t\<rparr>"
        by (simp add: upd_ptimer_def)
      moreover have "\<forall>r. ptimers ?t r = (ptimers s r)\<lparr>pt_next := ptimer_next ?t r,
         pt_timer := if r = x then timer_stop else pt_timer (ptimers s r)\<rparr>"
        by (simp add: upd_ptimer_def)
      ultimately show ?thesis using split x by blast
    next
      case (snoc ws q)
      with ts split have ne: "process_timer_head s \<noteq> Some x" by (cases ws) (use dist in auto)
      let ?t = "upd_ptimer q (\<lambda>p. p\<lparr>pt_next := ptimer_next s x\<rparr>) ?s"
      have "scheduler_timer_find_expired s = Some (Some x, ?t)"
        using f snoc ne by (simp add: scheduler_timer_find_expired_def Let_def hd fun_cong [OF nx])
      moreover have "ptimer_next ?t = (ptimer_next s)(q := ptimer_next s x)" "process_timer_head ?t = process_timer_head s"
        using upd_ptimer_next [of q "\<lambda>p. p\<lparr>pt_next := ptimer_next s x\<rparr>" ?s] nx by (simp_all add: upd_ptimer_def)
      with nlist_redirect [of "ptimer_next s" "process_timer_head s" ws q x zs] ts split snoc
      have "nlist (ptimer_next ?t) (process_timer_head ?t) (ys @ zs)" by simp
      moreover have "?t = s\<lparr>ptimers := ptimers ?t, process_timer_head := process_timer_head ?t\<rparr>"
        by (simp add: upd_ptimer_def)
      moreover have "\<forall>r. ptimers ?t r = (ptimers s r)\<lparr>pt_next := ptimer_next ?t r,
         pt_timer := if r = x then timer_stop else pt_timer (ptimers s r)\<rparr>"
        by (simp add: upd_ptimer_def)
      ultimately show ?thesis using split x by blast
    qed
  qed
qed

lemma timer_start_ok:
  assumes ts: "nlist (ptimer_next s) (process_timer_head s) ts"
  shows "\<exists>t. scheduler_timer_start q ms s = Some t \<and>
    nlist (ptimer_next t) (process_timer_head t) (if q \<in> set ts then ts else q # ts) \<and>
    t = s\<lparr>ptimers := ptimers t, process_timer_head := process_timer_head t\<rparr> \<and>
    (\<forall>r. ptimers t r = (ptimers s r)\<lparr>pt_next := ptimer_next t r,
         pt_timer := if r = q then timer_start (s_clock s) TIMER_MS ms else pt_timer (ptimers s r)\<rparr>)"
proof -
  let ?s = "upd_ptimer q (\<lambda>p. p\<lparr>pt_timer := timer_start (s_clock s) TIMER_MS ms\<rparr>) s"
  have nx: "ptimer_next ?s = ptimer_next s" by (auto simp: upd_ptimer_def)
  have hd: "process_timer_head ?s = process_timer_head s" by (simp add: upd_ptimer_def)
  have f: "find_from (ptimer_next ?s) (process_timer_head ?s) q = Some (q \<in> set ts)"
    unfolding nx hd by (rule find_from_nlist [OF ts])
  show ?thesis
  proof (cases "q \<in> set ts")
    case True
    with f have "scheduler_timer_start q ms s = Some ?s" by (simp add: scheduler_timer_start_def Let_def)
    moreover have "nlist (ptimer_next ?s) (process_timer_head ?s) ts" unfolding nx hd by (rule ts)
    ultimately show ?thesis using True by (intro exI [of _ ?s]) (simp add: upd_ptimer_def)
  next
    case False
    let ?t = "(upd_ptimer q (\<lambda>p. p\<lparr>pt_next := process_timer_head s\<rparr>) ?s)\<lparr>process_timer_head := Some q\<rparr>"
    from False f have "scheduler_timer_start q ms s = Some ?t"
      by (simp add: scheduler_timer_start_def Let_def hd)
    moreover have "ptimer_next ?t = (ptimer_next s)(q := process_timer_head s)"
      using upd_ptimer_next [of q _ ?s] nx by simp
    with ts False have "nlist (ptimer_next ?t) (process_timer_head ?t) (q # ts)" by simp
    ultimately show ?thesis using False by (intro exI [of _ ?t]) (simp add: upd_ptimer_def)
  qed
qed

lemma timer_stop_ok:
  assumes ts: "nlist (ptimer_next s) (process_timer_head s) ts"
  shows "\<exists>t. scheduler_timer_stop q s = Some t \<and>
    nlist (ptimer_next t) (process_timer_head t) (remove1 q ts) \<and>
    t = s\<lparr>ptimers := ptimers t, process_timer_head := process_timer_head t\<rparr> \<and>
    (\<forall>r. ptimers t r = (ptimers s r)\<lparr>pt_next := ptimer_next t r,
         pt_timer := if r = q then timer_stop else pt_timer (ptimers s r)\<rparr>)"
proof -
  let ?s = "upd_ptimer q (\<lambda>p. p\<lparr>pt_timer := timer_stop\<rparr>) s"
  have nx: "ptimer_next ?s = ptimer_next s" by (auto simp: upd_ptimer_def)
  have hd: "process_timer_head ?s = process_timer_head s" by (simp add: upd_ptimer_def)
  show ?thesis
  proof (cases "process_timer_head s = Some q")
    case True
    let ?t = "?s\<lparr>process_timer_head := ptimer_next s q\<rparr>"
    have "scheduler_timer_stop q s = Some ?t"
      using True by (simp add: scheduler_timer_stop_def Let_def hd fun_cong [OF nx])
    moreover have "ptimer_next ?t = ptimer_next s" using nx by simp
    with unlinked_nlist [OF ts, of q None] True have "nlist (ptimer_next ?t) (process_timer_head ?t) (remove1 q ts)"
      by (simp add: unlinked_def)
    ultimately show ?thesis by (intro exI [of _ ?t]) (simp add: upd_ptimer_def)
  next
    case False
    from find_prev_nlist [OF ts False] obtain prev where prev: "find_prev (ptimer_next s) (process_timer_head s) q = Some prev"
      by (auto split: if_splits)
    let ?t = "case prev of None \<Rightarrow> ?s | Some w \<Rightarrow> upd_ptimer w (\<lambda>p. p\<lparr>pt_next := ptimer_next s q\<rparr>) ?s"
    have "scheduler_timer_stop q s = Some ?t"
      using False prev by (simp add: scheduler_timer_stop_def Let_def hd nx fun_cong [OF nx] split: option.splits)
    moreover have "ptimer_next ?t = fst (unlinked (ptimer_next s) (process_timer_head s) q prev)"
      "process_timer_head ?t = snd (unlinked (ptimer_next s) (process_timer_head s) q prev)"
      using False by (auto simp: unlinked_def upd_ptimer_def split: option.splits)
    with unlinked_nlist [OF ts, of q prev] prev have "nlist (ptimer_next ?t) (process_timer_head ?t) (remove1 q ts)"
      by simp
    ultimately show ?thesis by (intro exI [of _ ?t]) (auto simp: upd_ptimer_def split: option.splits)
  qed
qed

interpretation lists: sched_step "\<lambda>s t. lists_ok s \<longrightarrow> lists_ok t"
proof (unfold_locales, goal_cases)
  case (7 p' s q)
  then show ?case by (auto intro!: lists_ok_frame [of _ s] split: if_splits)
next
  case (11 p' s q)
  then show ?case by (auto intro!: lists_ok_frame [of _ s] split: if_splits)
next
  case (12 s q)
  show ?case
  proof
    assume "lists_ok s"
    then obtain xs ts where xs: "nlist (proc_next s) (process_head s) xs" "\<forall>x\<in>set xs. p_sched (procs s x)"
      and ts: "nlist (ptimer_next s) (process_timer_head s) ts" by (rule lists_okE)
    with 12 have "q \<notin> set xs" by (simp add: find_from_nlist)
    let ?t = "(upd_proc q (\<lambda>p. p\<lparr>p_lc := 0, p_state := PROCESS_STATE_RUNNING, p_sched := True,
         p_next := process_head s\<rparr>) s)\<lparr>process_head := Some q\<rparr>"
    have "proc_next ?t = (proc_next s)(q := process_head s)" by (auto simp: upd_proc_def)
    with xs(1) \<open>q \<notin> set xs\<close> have "nlist (proc_next ?t) (process_head ?t) (q # xs)" by simp
    moreover have "\<And>x. x \<in> set (q # xs) \<Longrightarrow> p_sched (procs ?t x)" using xs(2) by (auto simp: upd_proc_def)
    moreover have "nlist (ptimer_next ?t) (process_timer_head ?t) ts" using ts by (simp add: upd_proc_def)
    ultimately show "lists_ok ?t" by (rule lists_okI)
  qed
next
  case (16 q s t)
  show ?case
  proof
    assume "lists_ok s"
    then obtain xs ts where xs: "nlist (proc_next s) (process_head s) xs" "\<forall>x\<in>set xs. p_sched (procs s x)"
      and ts: "nlist (ptimer_next s) (process_timer_head s) ts" by (rule lists_okE)
    from 16 show "lists_ok t"
    proof (cases rule: unlink_processE)
      case (1 prev)
      have "nlist (proc_next t) (process_head t) (remove1 q xs)"
        unfolding 1(2,3) by (rule unlinked_nlist [OF xs(1) 1(1)])
      moreover have "p_sched (procs t x)" if "x \<in> set (remove1 q xs)" for x
        using xs(2) that set_remove1_subset [of q xs] by (subst 1(4)) auto
      moreover have "ptimer_next t = ptimer_next s" "process_timer_head t = process_timer_head s"
        by (subst 1(5), simp)+
      with ts have "nlist (ptimer_next t) (process_timer_head t) ts" by simp
      ultimately show ?thesis by (rule lists_okI)
    qed
  qed
next
  case (8 tm' s q)
  then show ?case by (auto intro!: lists_ok_frame [of _ s])
next
  case (9 q ms s t)
  show ?case
  proof
    assume "lists_ok s"
    then obtain ts where ts: "nlist (ptimer_next s) (process_timer_head s) ts" by (rule lists_okE)
    from timer_start_ok [OF ts, of q ms] 9 \<open>lists_ok s\<close> show "lists_ok t"
      by (auto intro: lists_ok_timers)
  qed
next
  case (10 q s t)
  show ?case
  proof
    assume "lists_ok s"
    then obtain ts where ts: "nlist (ptimer_next s) (process_timer_head s) ts" by (rule lists_okE)
    from timer_stop_ok [OF ts, of q] 10 \<open>lists_ok s\<close> show "lists_ok t"
      by (auto intro: lists_ok_timers)
  qed
next
  case (13 s x t)
  show ?case
  proof
    assume "lists_ok s"
    then obtain ts where ts: "nlist (ptimer_next s) (process_timer_head s) ts" by (rule lists_okE)
    from find_expired_ok [OF ts] 13 \<open>lists_ok s\<close> show "lists_ok t"
      by (auto intro: lists_ok_timers)
  qed
qed (auto intro: lists_ok_frame)

text \<open>What no operation changes.\<close>

interpretation frame: sched_step "\<lambda>s t. s_clock t = s_clock s \<and> (\<forall>p. p_thread (procs t p) = p_thread (procs s p))"
proof (unfold_locales, goal_cases)
  case (16 q s t)
  then show ?case
  proof (cases rule: unlink_processE)
    case (1 prev)
    have "p_thread (procs t x) = p_thread (procs s x)" for x by (subst 1(4)) simp
    moreover have "s_clock t = s_clock s" by (subst 1(5)) simp
    ultimately show ?thesis by blast
  qed
next
  case (9 q ms s t)
  then show ?case
    by (auto simp: scheduler_timer_start_def upd_ptimer_def bind_eq_Some_conv Let_def split: if_splits)
next
  case (10 q s t)
  then show ?case
    by (auto simp: scheduler_timer_stop_def upd_ptimer_def bind_eq_Some_conv Let_def split: if_splits option.splits)
next
  case (13 s x t)
  then obtain prev tmp where "find_expired_loop (ptimers s) (s_clock s) (process_timer_head s) (process_timer_head s) = Some (prev, tmp)"
    by (auto simp: scheduler_timer_find_expired_def bind_eq_Some_conv)
  with 13 show ?case
    by (cases tmp; cases prev) (auto simp: scheduler_timer_find_expired_def upd_ptimer_def Let_def split: if_splits)
qed (auto simp: upd_proc_def split: if_splits)

text \<open>Calls and exits nest: whatever runs in between, the current process is the same afterwards.\<close>

interpretation current: sched_ops "\<lambda>s t. process_current t = process_current s" "\<lambda>_. True"
proof (unfold_locales, goal_cases)
  case (9 q ms s t)
  then show ?case
    by (auto simp: scheduler_timer_start_def upd_ptimer_def bind_eq_Some_conv Let_def split: if_splits)
next
  case (10 q s t)
  then show ?case
    by (auto simp: scheduler_timer_stop_def upd_ptimer_def bind_eq_Some_conv Let_def split: if_splits option.splits)
next
  case (13 s x t)
  then obtain prev tmp where "find_expired_loop (ptimers s) (s_clock s) (process_timer_head s) (process_timer_head s) = Some (prev, tmp)"
    by (auto simp: scheduler_timer_find_expired_def bind_eq_Some_conv)
  with 13 show ?case
    by (cases tmp; cases prev) (auto simp: scheduler_timer_find_expired_def upd_ptimer_def Let_def split: if_splits)
next
  case (14 K p fp s t)
  from 14(2) show ?case by (cases rule: exit_processE) simp_all
next
  case (15 K p ev m s t)
  from 15(2) show ?case
  proof (cases rule: call_processE)
    case (called r u)
    show ?thesis
    proof (cases "r = PT_EXITED \<or> r = PT_ENDED \<or> ev = PROCESS_EV_EXIT")
      case True
      with called(5) have "exit_process K p (Some p) (u\<lparr>process_current := process_current s\<rparr>) = Some t" by simp
      then show ?thesis by (cases rule: exit_processE) simp_all
    next
      case False
      with called(5) show ?thesis by (simp add: upd_proc_def)
    qed
  qed simp
qed (auto simp: upd_proc_def)

text \<open>C7: Whatever the threads do, starting, exiting and calling each other to any depth, the process
  list and the timer list stay acyclic linked lists without duplicates that end in null, every
  listed process belongs to the scheduler, the current process is back at its old value after every
  main loop operation, and no thread pointer changes.\<close>

theorem process_lists_intact:
  assumes "main_run (nested prog n) ops s = Some t" "lists_ok s"
  shows "lists_ok t \<and> process_current t = process_current s \<and>
    (\<forall>p. p_thread (procs t p) = p_thread (procs s p))"
  using assms
proof (induction ops arbitrary: s)
  case (Cons op ops)
  then obtain u where u: "main_do (nested prog n) op s = Some u" "main_run (nested prog n) ops u = Some t"
    by (auto simp: bind_eq_Some_conv)
  have "lists_ok u \<and> process_current u = process_current s \<and> (\<forall>p. p_thread (procs u p) = p_thread (procs s p))"
  proof (cases "\<exists>ms ch. op = MainClock ms ch")
    case True
    then obtain ms ch where "op = MainClock ms ch" by blast
    with u(1) have "u = s\<lparr>s_clock := clock_update (s_clock s) ms ch\<rparr>" by simp
    with Cons.prems(2) show ?thesis by (simp add: lists_ok_def)
  next
    case False
    with lists.main_step [OF u(1)] frame.main_step [OF u(1)] current.main_do [OF TrueI u(1)] Cons.prems(2)
    show ?thesis by blast
  qed
  with Cons.IH [OF u(2)] show ?case by simp
qed simp

lemma scheduler_init_lists: "lists_ok (scheduler_init pool len s)"
  by (rule lists_okI [of _ "[]" "[]"]) (simp_all add: scheduler_init_def)

section \<open>A small application\<close>

text \<open>Process 1 sends a message to process 2 when it starts; process 2 ends when it gets it. Both
  write what they are called with into a log.\<close>

definition demo_prog :: "(nat \<times> u8) list program" where
  "demo_prog th self ev m = Act (\<lambda>w. (w @ [(self, ev)],
     if th = 1 \<and> ev = PROCESS_EV_INIT then Call (MsgSend0 (Some 2) 0x20) (\<lambda>_. Return PT_YIELDED)
     else if th = 2 \<and> ev = 0x20 then Return PT_ENDED else Return PT_YIELDED))"

definition pool_of :: "nat \<Rightarrow> nat \<Rightarrow> cba_header option" where
  "pool_of n i = (if i + CBA_HEADER_LEN \<le> n then Some \<lparr>marker = 0, bound = 0, chunk_len = 0\<rparr> else None)"

definition idle_sys :: "'w \<Rightarrow> 'w sys" where
  "idle_sys w = process_init (pool_of 200) 200
     \<lparr>process_head = None, process_current = None, process_timer_head = None, messages = msg_list_init,
      s_cba = cba_init (pool_of 200) 200, poll_requested = 0,
      procs = (\<lambda>p. \<lparr>p_next = None, p_sched = False, p_thread = Some p, p_lc = 0, p_state = 0, needspoll = False\<rparr>),
      ptimers = (\<lambda>p. \<lparr>pt_next = None, pt_process = None, pt_timer = timer_stop, pt_event = 0\<rparr>),
      s_heap = heap0, s_clock = clock_zero, s_world = w\<rparr>"

lemma nested_numeral [simp]: "nested prog (numeral k) =
  \<lparr>k_call = call_process (nested prog (pred_numeral k)), k_thread = thread_call prog (nested prog (pred_numeral k))\<rparr>"
  by (simp add: numeral_eq_Suc)

lemmas sched_run = process_run_def scheduler_run_def scheduler_utilize_message_def deliver_message_def
  scheduler_utilize_poll_def process_start_def scheduler_start_process_def process_exit_def
  scheduler_exit_process_def exit_process_def call_process_def tell_finished_def announce_exit_def
  unlink_process_def thread_call_def process_is_running_def scheduler_get_current_process_def
  scheduler_events_def scheduler_malloc_def scheduler_free_def scheduler_post_msg_def
  scheduler_handle_msg_def process_handle_msg_def process_handle_msg_p0_def arg_type_def
  process_send_msg_p0_def process_malloc_def process_post_msg_def fill_msg_def msg_write_def
  msg_ptr_malloc_def msg_ptr_free_def msg_list_push_def msg_list_pop_def msg_list_length_def
  chunk_holds_def cba_eval msg_type_def rd_def upd_proc_def upd_ptimer_def
  process_poll_def process_timer_start_def scheduler_timer_start_def process_timer_handler_def
  for_procs.simps find_from.simps find_prev.simps find_expired_loop.simps scheduler_timer_handler.simps
  scheduler_timer_find_expired_def timer_expired_def timer_value_def timer_start_def timer_stop_def
  timer_tstamp_def clock_get_milis_def clock_update_def

lemmas idle_start = idle_sys_def process_init_def scheduler_init_def pool_of_def msg_list_init_def heap0_def clock_zero_def

lemma demo_run: "map_option (\<lambda>s. (s_world s, process_head s, scheduler_events s)) (main_run (nested demo_prog 4)
   [MainCall (ProcStart 1), MainCall (ProcStart 2), MainRun] (idle_sys [])) =
  Some ([(1, 0), (2, 0), (2, 0x20), (1, 3)], Some 1, 0)"
  by (simp add: sched_run idle_start demo_prog_def)

theorem process_lists_intact_witness:
  "\<exists>t. main_run (nested demo_prog 4) [MainCall (ProcStart 1), MainCall (ProcStart 2), MainRun] (idle_sys []) = Some t \<and>
     lists_ok t \<and> process_head t = Some 1"
proof -
  from demo_run obtain t where t: "main_run (nested demo_prog 4)
      [MainCall (ProcStart 1), MainCall (ProcStart 2), MainRun] (idle_sys []) = Some t" "process_head t = Some 1"
    by auto
  moreover have "lists_ok (idle_sys [])" by (simp add: idle_sys_def process_init_def scheduler_init_lists)
  ultimately show ?thesis using process_lists_intact [OF t(1)] by blast
qed

end
