(* ===== verification/Mx_Reentry.thy ===== *)
theory Mx_Reentry
  imports Mx_SchedInv
begin

unbundle bit_operations_syntax

text \<open>
  A protothread keeps its place in one variable of the process, so its function must not be entered
  while it is running. The scheduler's threads are instrumented to leave a trace of their entries
  and returns, and the trace shows that no thread is entered before it has returned, however deep
  synchronous messages nest, unless a thread exits another process.
\<close>

section \<open>The trace of thread calls\<close>

datatype mark = Enter nat | Leave nat

primrec logged :: "nat \<Rightarrow> 'w thread \<Rightarrow> ('w \<times> mark list) thread" where
  "logged p (Return r) = Act (\<lambda>w. ((fst w, snd w @ [Leave p]), Return r))"
| "logged p (Act g) = Act (\<lambda>w. map_prod (\<lambda>v. (v, snd w)) (logged p) (g (fst w)))"
| "logged p (Call a k) = Call a (\<lambda>r. logged p (k r))"
| "logged p Stuck = Stuck"

definition traced :: "'w program \<Rightarrow> ('w \<times> mark list) program" where
  "traced prog th self ev m = Act (\<lambda>w. ((fst w, snd w @ [Enter self]), logged self (prog th self ev m)))"

text \<open>Reading a trace: the processes that are inside of their threads, the innermost first; no result
  when one is entered that already is, or left out of order.\<close>

fun inside :: "mark list \<Rightarrow> nat list \<Rightarrow> nat list option" where
  "inside [] st = Some st"
| "inside (Enter p # l) st = (if p \<in> set st then None else inside l (p # st))"
| "inside (Leave p # l) st = (case st of [] \<Rightarrow> None | q # st' \<Rightarrow> if q = p then inside l st' else None)"

lemma inside_append: "inside (l @ l') st = Option.bind (inside l st) (inside l')"
  by (induction l st rule: inside.induct) (auto split: list.splits)

text \<open>The calls a thread may make: it starts no process and exits none but its own.\<close>

fun tame_call :: "nat \<Rightarrow> api \<Rightarrow> bool" where
  "tame_call self (ProcStart p) \<longleftrightarrow> False"
| "tame_call self (ProcExit p) \<longleftrightarrow> p = self"
| "tame_call self _ \<longleftrightarrow> True"

primrec tame :: "nat \<Rightarrow> 'w thread \<Rightarrow> bool" where
  "tame self (Return r) \<longleftrightarrow> True"
| "tame self (Act g) \<longleftrightarrow> (\<forall>w. snd (map_prod id (tame self) (g w)))"
| "tame self (Call a k) \<longleftrightarrow> tame_call self a \<and> (\<forall>r. tame self (k r))"
| "tame self Stuck \<longleftrightarrow> True"

section \<open>The invariant\<close>

text \<open>The processes \<open>st\<close> are inside, and the processes \<open>L\<close>, these among them, cannot be called.\<close>

definition shut :: "nat list \<Rightarrow> nat set \<Rightarrow> ('w \<times> mark list) sys \<Rightarrow> bool" where
  "shut st L s \<longleftrightarrow> inside (snd (s_world s)) [] = Some st \<and> set st \<subseteq> L \<and>
     (\<forall>p\<in>L. p_state (procs s p) AND PROCESS_STATE_RUNNING = 0)"

definition shuts :: "('w \<times> mark list) sys \<Rightarrow> ('w \<times> mark list) sys \<Rightarrow> bool" where
  "shuts s t \<longleftrightarrow> (\<forall>st L. shut st L s \<longrightarrow> shut st L t)"

definition shut_kernel :: "('w \<times> mark list) kernel \<Rightarrow> bool" where
  "shut_kernel K \<longleftrightarrow> (\<forall>p ev m s t. k_call K p ev m s = Some t \<longrightarrow> shuts s t) \<and>
     (\<forall>p ev m s r t st L. k_thread K p ev m s = Some (r, t) \<longrightarrow> shut st L s \<longrightarrow> p \<in> L \<longrightarrow> p \<notin> set st \<longrightarrow>
        process_current s = Some p \<longrightarrow> shut st L t)"

lemma shut_kernelD:
  "shut_kernel K \<Longrightarrow> k_call K p ev m s = Some t \<Longrightarrow> shuts s t"
  "shut_kernel K \<Longrightarrow> k_thread K p ev m s = Some (r, t) \<Longrightarrow> shut st L s \<Longrightarrow> p \<in> L \<Longrightarrow> p \<notin> set st \<Longrightarrow>
     process_current s = Some p \<Longrightarrow> shut st L t"
  unfolding shut_kernel_def by blast+

lemma shut_frame:
  "s_world t = s_world s \<Longrightarrow> (\<And>q. p_state (procs t q) = p_state (procs s q)) \<Longrightarrow> shut st L t = shut st L s"
  by (simp add: shut_def)

lemma shuts_frame: "s_world t = s_world s \<Longrightarrow> (\<And>q. p_state (procs t q) = p_state (procs s q)) \<Longrightarrow> shuts s t"
  by (simp add: shuts_def shut_def)

interpretation light: mem_rel "\<lambda>s t. s_world t = s_world s \<and> (\<forall>q. p_state (procs t q) = p_state (procs s q))"
proof (unfold_locales, goal_cases)
  case (9 q ms s t)
  then show ?case
    by (auto simp: scheduler_timer_start_def upd_ptimer_def bind_eq_Some_conv Let_def split: if_splits)
next
  case (10 q s t)
  then show ?case
    by (auto simp: scheduler_timer_stop_def upd_ptimer_def bind_eq_Some_conv Let_def split: if_splits option.splits)
qed auto

interpretation shuts: step_rel shuts
  by unfold_locales (auto simp: shuts_def)

lemma shut_state: "shut st L s \<Longrightarrow> v AND PROCESS_STATE_RUNNING = 0 \<Longrightarrow>
  shut st (insert p L) (upd_proc p (\<lambda>q. q\<lparr>p_state := v\<rparr>) s)"
  by (auto simp: shut_def upd_proc_def)

lemma shut_reopen: "shut st (insert p L) s \<Longrightarrow> p \<notin> L \<Longrightarrow> set st \<subseteq> L \<Longrightarrow>
  shut st L (upd_proc p (\<lambda>q. q\<lparr>p_state := v\<rparr>) s)"
  by (auto simp: shut_def upd_proc_def)

lemma shut_mono: "shut st L s \<Longrightarrow> set st \<subseteq> M \<Longrightarrow> M \<subseteq> L \<Longrightarrow> shut st M s"
  by (auto simp: shut_def)

lemma shut_tell:
  assumes K: "shut_kernel K" and t: "tell_finished K p s = Some t"
  shows "shuts s t"
  using t unfolding tell_finished_def
  by (rule shuts.for_procs) (auto split: if_splits intro: shuts.refl shut_kernelD(1) [OF K])

lemma shut_exit:
  assumes K: "shut_kernel K" and e: "exit_process K p fp s = Some t" and s: "shut st L s"
    and p: "fp = Some p \<or> p \<notin> set st"
  shows "shut st L t"
  using e
proof (cases rule: exit_processE)
  case absent
  with s show ?thesis by simp
next
  case (found u v)
  let ?s0 = "upd_proc p (\<lambda>p. p\<lparr>p_state := PROCESS_STATE_NONE\<rparr>) s"
  have s0: "shut st (insert p L) ?s0" by (rule shut_state [OF s]) simp
  from s have L: "set st \<subseteq> L" by (simp add: shut_def)
  have "shut st L u" using found(3)
  proof (cases rule: announce_exitE)
    case idle
    with s show ?thesis by simp
  next
    case quiet
    with shut_tell [OF K quiet(3)] s0 have "shut st (insert p L) u" by (simp add: shuts_def)
    from this L show ?thesis by (rule shut_mono) auto
  next
    case (thread w r)
    with shut_tell [OF K thread(3)] s0 have "shut st (insert p L) w" by (simp add: shuts_def)
    then have "shut st (insert p L) (w\<lparr>process_current := Some p\<rparr>)" by (simp add: shut_def)
    from shut_kernelD(2) [OF K thread(4) this] p thread(2) have "shut st (insert p L) u" by simp
    from this L show ?thesis by (rule shut_mono) auto
  qed
  moreover from found(4) have "shut st L v = shut st L u"
  proof (cases rule: unlink_processE)
    case (1 prev)
    show ?thesis by (rule shut_frame) (subst 1(5), simp, subst 1(4), simp)
  qed
  ultimately show ?thesis using found(5) by (simp add: shut_def)
qed

lemma shut_call:
  assumes K: "shut_kernel K" and c: "call_process K p ev m s = Some t"
  shows "shuts s t"
  unfolding shuts_def
proof (intro allI impI)
  fix st L assume s: "shut st L s"
  then have L: "set st \<subseteq> L" by (simp add: shut_def)
  show "shut st L t" using c
  proof (cases rule: call_processE)
    case ignored
    with s show ?thesis by simp
  next
    case (called r u)
    from called(1) s have p: "p \<notin> L" by (auto simp: shut_def)
    have "shut st (insert p L) (upd_proc p (\<lambda>p. p\<lparr>p_state := PROCESS_STATE_CALLED\<rparr>) (s\<lparr>process_current := Some p\<rparr>))"
      by (rule shut_state) (use s in \<open>simp_all add: shut_def\<close>)
    from shut_kernelD(2) [OF K called(4) this] p L have "shut st (insert p L) u"
      by (auto simp: upd_proc_def)
    then have u: "shut st (insert p L) (u\<lparr>process_current := process_current s\<rparr>)" by (simp add: shut_def)
    show ?thesis
    proof (cases "r = PT_EXITED \<or> r = PT_ENDED \<or> ev = PROCESS_EV_EXIT")
      case True
      with called(5) shut_exit [OF K _ u] have "shut st (insert p L) t" by simp
      from this L show ?thesis by (rule shut_mono) auto
    next
      case False
      with called(5) shut_reopen [OF u p L] show ?thesis by simp
    qed
  qed
qed

lemma shut_handle:
  assumes K: "shut_kernel K" and h: "scheduler_handle_msg K q m s = Some t"
  shows "shuts s t"
proof (cases q)
  case None
  with h have "for_procs (\<lambda>p s. do { ty \<leftarrow> arg_type s m; call_process K p ty m s }) (process_head s) s = Some t"
    by (simp add: scheduler_handle_msg_def)
  then show ?thesis by (rule shuts.for_procs) (auto simp: bind_eq_Some_conv intro: shut_call [OF K])
next
  case (Some p)
  with h show ?thesis by (auto simp: scheduler_handle_msg_def bind_eq_Some_conv intro: shut_call [OF K])
qed

lemma shut_api:
  assumes K: "shut_kernel K" and a: "api_do K p a s = Some (x, t)" and tame: "tame_call p a"
    and cur: "process_current s = Some p" and s: "shut st L s"
  shows "shut st L t"
proof (cases a)
  case (ProcStart q)
  with tame show ?thesis by simp
next
  case (ProcExit q)
  with a tame cur have "exit_process K p (Some p) s = Some t"
    by (simp add: process_exit_def scheduler_exit_process_def scheduler_get_current_process_def)
  with s shut_exit [OF K] show ?thesis by blast
next
  case (MsgHandle q m)
  with a s shut_handle [OF K] show ?thesis by (auto simp: process_handle_msg_def shuts_def)
next
  case (MsgHandle0 q ty)
  with a s shut_handle [OF K] show ?thesis by (auto simp: process_handle_msg_p0_def shuts_def)
qed (use light.quiet_api [OF a] s shut_frame [of t s st L] in auto)

lemma shut_exec:
  assumes K: "shut_kernel K"
  shows "exec (api_do K p) (logged p th) s = Some (r, t) \<Longrightarrow> tame p th \<Longrightarrow> shut (p # st) L s \<Longrightarrow>
    process_current s = Some p \<Longrightarrow> shut st L t"
proof (induction th arbitrary: s)
  case (Return x)
  then show ?case by (auto simp: shut_def inside_append)
next
  case (Act g)
  obtain w th where g: "g (fst (s_world s)) = (w, th)" by (cases "g (fst (s_world s))")
  let ?s = "s\<lparr>s_world := (w, snd (s_world s))\<rparr>"
  from Act.prems(1) g have "exec (api_do K p) (logged p th) ?s = Some (r, t)" by simp
  moreover have "tame p th" using Act.prems(2) g by (auto dest: spec [of _ "fst (s_world s)"])
  moreover have "shut (p # st) L ?s" using Act.prems(3) by (simp add: shut_def)
  moreover have "process_current ?s = Some p" using Act.prems(4) by simp
  moreover have "th \<in> Basic_BNFs.snds (g (fst (s_world s)))" using g by simp
  ultimately show ?case using Act.IH [OF rangeI] by blast
next
  case (Call a k)
  then obtain x u where u: "api_do K p a s = Some (x, u)" "exec (api_do K p) (logged p (k x)) u = Some (r, t)"
    by (auto simp: bind_eq_Some_conv)
  from Call.prems have "tame_call p a" "tame p (k x)" by auto
  with shut_api [OF K u(1) _ Call.prems(4,3)] current.api_do [OF TrueI u(1)] Call.prems(4) Call.IH [OF rangeI u(2)]
  show ?case by simp
qed simp

lemma shut_nested:
  assumes tame: "\<And>th p ev m. tame p (prog th p ev m)"
  shows "shut_kernel (nested (traced prog) n)"
proof (induction n)
  case 0
  then show ?case by (simp add: shut_kernel_def)
next
  case (Suc n)
  have "shut st L t" if c: "thread_call (traced prog) (nested (traced prog) n) p ev m s = Some (r, t)"
    and s: "shut st L s" and p: "p \<in> L" "p \<notin> set st" and cur: "process_current s = Some p"
    for p ev m s r t st L
  proof -
    from c obtain th where th: "exec (api_do (nested (traced prog) n) p) (traced prog th p ev m) s = Some (r, t)"
      by (auto simp: thread_call_def split: option.splits)
    let ?s = "s\<lparr>s_world := (fst (s_world s), snd (s_world s) @ [Enter p])\<rparr>"
    have "exec (api_do (nested (traced prog) n) p) (logged p (prog th p ev m)) ?s = Some (r, t)"
      using th by (simp add: traced_def)
    moreover have "shut (p # st) L ?s" using s p by (simp add: shut_def inside_append)
    ultimately show ?thesis using shut_exec [OF Suc] tame cur by simp
  qed
  with shut_call [OF Suc] show ?case by (simp add: shut_kernel_def)
qed

text \<open>Between the operations of the main loop no thread is running.\<close>

interpretation idle: sched_ops "\<lambda>s t. inside (snd (s_world s)) [] = Some [] \<longrightarrow> inside (snd (s_world t)) [] = Some []"
  shut_kernel
proof (unfold_locales, goal_cases)
  case (9 q ms s t)
  then show ?case
    by (auto simp: scheduler_timer_start_def upd_ptimer_def bind_eq_Some_conv Let_def split: if_splits)
next
  case (10 q s t)
  then show ?case
    by (auto simp: scheduler_timer_stop_def upd_ptimer_def bind_eq_Some_conv Let_def split: if_splits option.splits)
next
  case (13 s x t)
  then obtain prev tmp where "find_expired_loop (ptimers s) (s_clock s) (process_timer_head s) (process_timer_head s) = Some (prev, tmp)"
    by (auto simp: scheduler_timer_find_expired_def bind_eq_Some_conv)
  with 13 show ?case
    by (cases tmp; cases prev) (auto simp: scheduler_timer_find_expired_def upd_ptimer_def Let_def split: if_splits)
next
  case (14 K p fp s t)
  with shut_exit [OF 14, of "[]" "{}"] show ?case by (simp add: shut_def)
next
  case (15 K p ev m s t)
  with shut_call [OF 15] show ?case by (auto simp: shuts_def shut_def)
qed (auto simp: upd_proc_def)

text \<open>C6: No protothread is entered while it is running: in every run of the main loop, however deep
  threads call each other by synchronous messages, the entries and returns of the threads nest and
  no process is entered again before it has returned. Threads may do anything but start a process or
  exit another process.\<close>

theorem protothread_never_reentered:
  assumes "\<And>th p ev m. tame p (prog th p ev m)"
    and "main_run (nested (traced prog) n) ops s = Some t" "snd (s_world s) = []"
  shows "inside (snd (s_world t)) [] = Some []"
proof -
  note nested = shut_nested [OF assms(1), where n = n]
  have "inside (snd (s_world s)) [] = Some [] \<Longrightarrow> main_run (nested (traced prog) n) ops s = Some t \<Longrightarrow>
    inside (snd (s_world t)) [] = Some []" for s
  proof (induction ops arbitrary: s)
    case (Cons op ops)
    then obtain u where u: "main_do (nested (traced prog) n) op s = Some u" "main_run (nested (traced prog) n) ops u = Some t"
      by (auto simp: bind_eq_Some_conv)
    have "inside (snd (s_world u)) [] = Some []"
    proof (cases "\<exists>ms ch. op = MainClock ms ch")
      case True
      with u(1) Cons.prems(1) show ?thesis by auto
    next
      case False
      with idle.main_do [OF nested u(1)] Cons.prems(1) show ?thesis by blast
    qed
    with Cons.IH u(2) show ?case by blast
  qed simp
  from this [OF _ assms(2)] assms(3) show ?thesis by simp
qed

theorem protothread_never_reentered_witness:
  "\<exists>t. main_run (nested (traced demo_prog) 4) [MainCall (ProcStart 1), MainCall (ProcStart 2), MainRun] (idle_sys ([], [])) = Some t \<and>
     snd (s_world t) = [Enter 1, Leave 1, Enter 2, Leave 2, Enter 2, Leave 2, Enter 1, Leave 1] \<and>
     inside (snd (s_world t)) [] = Some []"
proof -
  obtain t where t: "main_run (nested (traced demo_prog) 4)
      [MainCall (ProcStart 1), MainCall (ProcStart 2), MainRun] (idle_sys ([], [])) = Some t"
    "snd (s_world t) = [Enter 1, Leave 1, Enter 2, Leave 2, Enter 2, Leave 2, Enter 1, Leave 1]"
    by (simp add: sched_run idle_start demo_prog_def traced_def)
  have "tame p (demo_prog th p ev m)" for th p ev m by (simp add: demo_prog_def)
  from protothread_never_reentered [OF this t(1)] t show ?thesis by (auto simp: idle_start)
qed

section \<open>Where the hypothesis is needed, and an exit that is undone\<close>

text \<open>
  Process 1 calls process 2, which exits process 1: \<open>exit_process\<close> calls the thread of process 1,
  which has not returned from its call, without the test that \<open>call_process\<close> makes.
\<close>

definition exit_prog :: "(nat \<times> u8) list program" where
  "exit_prog th self ev m = Act (\<lambda>w. (w @ [(self, ev)],
     if th = 1 \<and> ev = 0x22 then Call (MsgHandle0 (Some 2) 0x23) (\<lambda>_. Return PT_YIELDED)
     else if th = 2 \<and> ev = 0x23 then Call (ProcExit 1) (\<lambda>_. Return PT_YIELDED)
     else if th = 1 \<and> ev = 0x21 then Call (ProcExit 1) (\<lambda>_. Return PT_YIELDED)
     else Return PT_YIELDED))"

theorem exit_process_reenters:
  "\<exists>t. main_run (nested (traced exit_prog) 5)
      [MainCall (ProcStart 1), MainCall (ProcStart 2), MainCall (MsgHandle0 (Some 1) 0x22)] (idle_sys ([], [])) = Some t \<and>
     inside (snd (s_world t)) [] = None"
  by (simp add: sched_run idle_start exit_prog_def traced_def)

text \<open>
  A process that exits itself and then yields is marked as running again when its thread returns:
  it is off the process list, and still gets the messages that are sent to it.
\<close>

theorem self_exit_stays_running:
  "\<exists>t. main_run (nested exit_prog 5) [MainCall (ProcStart 1), MainCall (MsgHandle0 (Some 1) 0x21),
       MainCall (MsgSend0 (Some 1) 0x30), MainRun] (idle_sys []) = Some t \<and>
     process_head t = None \<and> process_is_running t 1 \<and> s_world t = [(1, 0), (1, 0x21), (1, 0x30)]"
  by (simp add: sched_run idle_start exit_prog_def)

end
