(* ===== verification/Mx_Mail.thy ===== *)
theory Mx_Mail
  imports Mx_SchedInv
begin

unbundle bit_operations_syntax

text \<open>
  The scheduler as a post office. Threads that only compute and send messages are written against an
  interface, the locale \<open>players\<close>: what a thread does with its message, as a function of what it kept
  from the calls before. For all such threads the scheduler with its linked lists and its messages in
  chunks of a pool implements an abstract machine, a function on a pool, a first-in first-out list of
  letters and the variables of the application: an iteration takes the oldest letter, runs its
  receivers in the order of the process list, appends each letter they send exactly if the pool has a
  chunk for it, and gives the chunk of the letter back.
\<close>

section \<open>Letters\<close>

text \<open>
  A letter is a message with its receiver, nobody for a broadcast. A behaviour takes a message and the
  variables of the application and yields the letters a process sends.
\<close>

type_synonym letter = "nat option \<times> u8 list"
type_synonym 'w behaviour = "nat \<Rightarrow> u8 list \<Rightarrow> 'w \<Rightarrow> 'w \<times> letter list"

primrec send_all :: "int \<Rightarrow> letter list \<Rightarrow> 'w thread" where
  "send_all r [] = Return r"
| "send_all r (x # xs) = Call (MsgSend (fst x) (snd x) (length (snd x))) (\<lambda>_. send_all r xs)"

section \<open>The mailbox\<close>

definition letter_of :: "msg_heap \<Rightarrow> nat \<Rightarrow> letter" where
  "letter_of h m = (msg_private (h m), msg_content (h m))"

text \<open>The queue holds the messages \<open>ms\<close>; these and the ones in \<open>H\<close> are chunks in use.\<close>

definition mailbox :: "nat set \<Rightarrow> 'w sys \<Rightarrow> nat list \<Rightarrow> bool" where
  "mailbox H s ms \<longleftrightarrow> list_repr (s_heap s) (messages s) ms \<and>
     cba_pool.owns (s_cba s) (H \<union> set ms) \<and> H \<inter> set ms = {}"

definition letters :: "'w sys \<Rightarrow> nat list \<Rightarrow> letter list" where
  "letters s ms = map (letter_of (s_heap s)) ms"

text \<open>The pool, and the letters with the chunks they lie in.\<close>

type_synonym post_box = "cba \<times> (nat \<times> letter) list"

definition box_of :: "'w sys \<Rightarrow> nat list \<Rightarrow> post_box" where
  "box_of s ms = (s_cba s, zip ms (letters s ms))"

text \<open>Posting a letter: it is appended if the pool has a chunk for the object with its bytes, and else
  refused, which leaves everything as it is.\<close>

definition post :: "letter \<Rightarrow> post_box \<Rightarrow> post_box option" where
  "post x b = do {
     (m, c) \<leftarrow> cba_malloc (fst b) (sizeof_msg_ptr - sizeof_msg + length (snd x));
     Some (case m of None \<Rightarrow> b | Some m \<Rightarrow> (c, snd b @ [(m, x)])) }"

primrec post_all :: "letter list \<Rightarrow> post_box \<Rightarrow> post_box option" where
  "post_all [] b = Some b"
| "post_all (x # xs) b = do { b \<leftarrow> post x b; post_all xs b }"

lemma length_letters [simp]: "length (letters s ms) = length ms"
  by (simp add: letters_def)

text \<open>Only the mailbox and the application's variables differ.\<close>

definition mail_only :: "'w sys \<Rightarrow> 'w sys \<Rightarrow> bool" where
  "mail_only s t \<longleftrightarrow> t = s\<lparr>s_cba := s_cba t, s_heap := s_heap t, messages := messages t, s_world := s_world t\<rparr>"

lemma mail_only_refl [simp]: "mail_only s s"
  by (simp add: mail_only_def)

lemma mail_only_trans: "mail_only s t \<Longrightarrow> mail_only t u \<Longrightarrow> mail_only s u"
  unfolding mail_only_def by (cases s; cases t; cases u) simp

lemma mail_onlyD:
  assumes "mail_only s t"
  shows "procs t = procs s" "process_head t = process_head s" "process_current t = process_current s"
    "poll_requested t = poll_requested s" "s_clock t = s_clock s" "ptimers t = ptimers s"
    "process_timer_head t = process_timer_head s"
  using assms unfolding mail_only_def by (cases s; cases t; simp)+

lemma mail_send_cases:
  assumes box: "mailbox H s ms" and len: "length bs \<le> 65501"
  shows "process_send_msg r bs (length bs) s = Some (PROCESS_ERR_NO_MEMORY, s) \<and> post (r, bs) (box_of s ms) = Some (box_of s ms) \<or>
    (\<exists>t m. process_send_msg r bs (length bs) s = Some (PROCESS_SUCCESS, t) \<and> mailbox H t (ms @ [m]) \<and>
       letters t (ms @ [m]) = letters s ms @ [(r, bs)] \<and> post (r, bs) (box_of s ms) = Some (box_of t (ms @ [m])) \<and>
       s_world t = s_world s \<and> mail_only s t \<and> (\<forall>q\<in>H. letter_of (s_heap t) q = letter_of (s_heap s) q))"
proof -
  from box have rep: "list_repr (s_heap s) (messages s) ms" and owns: "cba_pool.owns (s_cba s) (H \<union> set ms)"
    and disj: "H \<inter> set ms = {}" by (auto simp: mailbox_def)
  show ?thesis
  proof (cases rule: msg_ptr_malloc_owns [OF owns len, of "s_heap s"])
    case 1
    then have "process_send_msg r bs (length bs) s = Some (PROCESS_ERR_NO_MEMORY, s)"
      by (simp add: process_send_msg_def process_malloc_def scheduler_malloc_def)
    moreover have "post (r, bs) (box_of s ms) = Some (box_of s ms)" using 1(2) by (simp add: post_def box_of_def)
    ultimately show ?thesis by blast
  next
    case (2 m c)
    define h1 where "h1 = (s_heap s)(m := (s_heap s m)\<lparr>msg_next := None, msg_private := None, msg_length := length bs\<rparr>)"
    define h2 where "h2 = h1(m := (h1 m)\<lparr>msg_bytes := (\<lambda>i. if i < length bs then bs ! i else msg_bytes (h1 m) i)\<rparr>)"
    define h3 where "h3 = h2(m := (h2 m)\<lparr>msg_private := r\<rparr>)"
    obtain h' l' where push: "msg_list_push h3 (messages s) m = (m, h', l')"
      by (simp add: msg_list_push_def Let_def)
    from 2(2) have m: "m \<notin> set ms" "m \<notin> H" by auto
    have upd: "h3 q = s_heap s q" if "q \<noteq> m" for q using that by (simp add: h3_def h2_def h1_def)
    with m(1) have "list_repr h3 (messages s) ms = list_repr (s_heap s) (messages s) ms"
      by (intro list_repr_cong) metis
    with rep have "list_repr h3 (messages s) ms" by simp
    from list_repr_push [OF this m(1) push] have rep': "list_repr h' l' (ms @ [m])" by simp
    have lt: "letter_of h' q = letter_of h3 q" for q
      using push by (auto simp: msg_list_push_def Let_def letter_of_def msg_content_def split: option.splits)
    have new: "letter_of h3 m = (r, bs)"
      by (auto simp: letter_of_def msg_content_def h3_def h2_def h1_def intro: nth_equalityI)
    have old: "letter_of h3 q = letter_of (s_heap s) q" if "q \<noteq> m" for q
      using upd [OF that] by (simp add: letter_of_def)
    let ?t = "s\<lparr>s_cba := c, s_heap := h', messages := l'\<rparr>"
    have "process_malloc (length bs) s = Some (Some m, s\<lparr>s_cba := c, s_heap := h1\<rparr>)"
      using 2(1) by (simp add: process_malloc_def scheduler_malloc_def h1_def)
    moreover have "fill_msg m bs (s\<lparr>s_cba := c, s_heap := h1\<rparr>) = Some (s\<lparr>s_cba := c, s_heap := h2\<rparr>)"
      using 2(4) by (simp add: fill_msg_def msg_write_def h2_def)
    moreover have "process_post_msg r m (s\<lparr>s_cba := c, s_heap := h2\<rparr>) = (PROCESS_SUCCESS, ?t)"
      using push by (simp add: process_post_msg_def scheduler_post_msg_def h3_def [symmetric])
    ultimately have "process_send_msg r bs (length bs) s = Some (PROCESS_SUCCESS, ?t)"
      by (simp add: process_send_msg_def)
    moreover have "mailbox H ?t (ms @ [m])"
      using rep' 2(3) disj m by (simp add: mailbox_def insert_commute Un_commute)
    moreover have same: "letter_of h3 q = letter_of (s_heap s) q" if "q \<in> set ms \<union> H" for q
      using that m by (intro old) auto
    then have lts: "letters ?t (ms @ [m]) = letters s ms @ [(r, bs)]" "\<forall>q\<in>H. letter_of (s_heap ?t) q = letter_of (s_heap s) q"
      by (simp_all add: letters_def lt new)
    moreover have "post (r, bs) (box_of s ms) = Some (box_of ?t (ms @ [m]))"
      using 2(7) by (simp add: post_def box_of_def lts(1))
    moreover have "mail_only s ?t" "s_world ?t = s_world s" by (simp_all add: mail_only_def)
    ultimately show ?thesis by blast
  qed
qed

lemma mail_send_ok:
  assumes "mailbox H s ms" "length bs \<le> 65501"
  shows "\<exists>st t ms'. process_send_msg r bs (length bs) s = Some (st, t) \<and> mailbox H t (ms @ ms') \<and>
    post (r, bs) (box_of s ms) = Some (box_of t (ms @ ms')) \<and> set (letters t (ms @ ms')) \<subseteq> set (letters s ms) \<union> {(r, bs)} \<and>
    s_world t = s_world s \<and> mail_only s t \<and> (\<forall>q\<in>H. letter_of (s_heap t) q = letter_of (s_heap s) q)"
  using mail_send_cases [OF assms, of r]
proof (elim disjE exE conjE)
  assume "process_send_msg r bs (length bs) s = Some (PROCESS_ERR_NO_MEMORY, s)" "post (r, bs) (box_of s ms) = Some (box_of s ms)"
  with assms(1) show ?thesis
    by (intro exI [of _ PROCESS_ERR_NO_MEMORY] exI [of _ s] exI [of _ "[]"]) (simp add: subset_insertI)
next
  fix t m
  assume "process_send_msg r bs (length bs) s = Some (PROCESS_SUCCESS, t)" "mailbox H t (ms @ [m])"
    "post (r, bs) (box_of s ms) = Some (box_of t (ms @ [m]))" "s_world t = s_world s" "mail_only s t"
    "\<forall>q\<in>H. letter_of (s_heap t) q = letter_of (s_heap s) q"
  moreover assume "letters t (ms @ [m]) = letters s ms @ [(r, bs)]"
  then have "set (letters t (ms @ [m])) \<subseteq> set (letters s ms) \<union> {(r, bs)}" by simp
  ultimately show ?thesis by blast
qed

lemma send_all_ok:
  assumes "mailbox H s ms" "\<forall>x\<in>set out. length (snd x) \<le> 65501"
  shows "\<exists>t ms'. exec (api_do K p) (send_all r out) s = Some (r, t) \<and> post_all out (box_of s ms) = Some (box_of t (ms @ ms')) \<and>
    mailbox H t (ms @ ms') \<and> set (letters t (ms @ ms')) \<subseteq> set (letters s ms) \<union> set out \<and> s_world t = s_world s \<and>
    mail_only s t \<and> (\<forall>q\<in>H. letter_of (s_heap t) q = letter_of (s_heap s) q)"
  using assms
proof (induction out arbitrary: s ms)
  case Nil
  then show ?case by (intro exI [of _ s] exI [of _ "[]"]) simp
next
  case (Cons x out)
  obtain q bs where x: "x = (q, bs)" by (cases x)
  from Cons.prems x have len: "length bs \<le> 65501" and out: "\<forall>x\<in>set out. length (snd x) \<le> 65501" by auto
  from mail_send_ok [OF Cons.prems(1) len, of q] obtain st t ms1 where
    t: "process_send_msg q bs (length bs) s = Some (st, t)" "mailbox H t (ms @ ms1)"
      "post (q, bs) (box_of s ms) = Some (box_of t (ms @ ms1))" "set (letters t (ms @ ms1)) \<subseteq> set (letters s ms) \<union> {(q, bs)}"
      "s_world t = s_world s" "mail_only s t" "\<forall>q\<in>H. letter_of (s_heap t) q = letter_of (s_heap s) q" by blast
  from Cons.IH [OF t(2) out] obtain u ms2 where
    u: "exec (api_do K p) (send_all r out) t = Some (r, u)" "post_all out (box_of t (ms @ ms1)) = Some (box_of u ((ms @ ms1) @ ms2))"
      "mailbox H u ((ms @ ms1) @ ms2)" "set (letters u ((ms @ ms1) @ ms2)) \<subseteq> set (letters t (ms @ ms1)) \<union> set out"
      "s_world u = s_world t" "mail_only t u" "\<forall>q\<in>H. letter_of (s_heap u) q = letter_of (s_heap t) q" by blast
  have "exec (api_do K p) (send_all r (x # out)) s = Some (r, u)" using t(1) u(1) x by simp
  moreover have "set (letters u (ms @ ms1 @ ms2)) \<subseteq> set (letters s ms) \<union> set (x # out)"
    using t(4) u(4) x by auto
  moreover have "post_all (x # out) (box_of s ms) = Some (box_of u (ms @ ms1 @ ms2))" using t(3) u(2) x by simp
  ultimately show ?case
    using t(5,7) u(3,5,7) mail_only_trans [OF t(6) u(6)] by (intro exI [of _ u] exI [of _ "ms1 @ ms2"]) simp
qed

section \<open>Calling a process\<close>

definition ready :: "'w sys \<Rightarrow> nat \<Rightarrow> bool" where
  "ready s p \<longleftrightarrow> p_state (procs s p) = PROCESS_STATE_RUNNING \<and> p_thread (procs s p) \<noteq> None \<and> p_sched (procs s p)"

lemma ready_mail: "mail_only s t \<Longrightarrow> ready t p = ready s p"
  by (simp add: ready_def mail_onlyD)

text \<open>A call that changes nothing but the mailbox, the application's variables and the local
  continuation of the process.\<close>

definition after_call :: "nat \<Rightarrow> u16 \<Rightarrow> 'w sys \<Rightarrow> 'w sys \<Rightarrow> 'w sys" where
  "after_call p lc s u = s\<lparr>s_cba := s_cba u, s_heap := s_heap u, messages := messages u, s_world := s_world u,
     procs := (procs s)(p := (procs s p)\<lparr>p_lc := lc\<rparr>)\<rparr>"

lemma after_call_simps [simp]:
  "s_cba (after_call p lc s u) = s_cba u" "s_heap (after_call p lc s u) = s_heap u"
  "messages (after_call p lc s u) = messages u" "s_world (after_call p lc s u) = s_world u"
  "process_head (after_call p lc s u) = process_head s" "poll_requested (after_call p lc s u) = poll_requested s"
  "p_next (procs (after_call p lc s u) q) = p_next (procs s q)" "ready (after_call p lc s u) q = ready s q"
  "p_lc (procs (after_call p lc s u) q) = (if q = p then lc else p_lc (procs s q))"
  by (simp_all add: after_call_def ready_def)

text \<open>A thread that waits or yields.\<close>

lemma call_returns:
  assumes p: "ready s p" and ev: "ev \<noteq> PROCESS_EV_EXIT" and r: "r < PT_EXITED"
    and s1: "s1 = upd_proc p (\<lambda>p. p\<lparr>p_state := PROCESS_STATE_CALLED\<rparr>) (s\<lparr>process_current := Some p\<rparr>)"
    and k: "k_thread K p ev m s1 = Some (r, u)"
    and u: "mail_only (upd_proc p (\<lambda>p. p\<lparr>p_lc := lc\<rparr>) (s1\<lparr>s_world := w\<rparr>)) u"
  shows "call_process K p ev m s = Some (after_call p lc s u)"
proof -
  have "upd_proc p (\<lambda>p. p\<lparr>p_state := PROCESS_STATE_RUNNING\<rparr>) (u\<lparr>process_current := process_current s\<rparr>) = after_call p lc s u"
    using p u unfolding mail_only_def s1 after_call_def
    by (cases s; cases u) (auto simp: upd_proc_def ready_def fun_eq_iff)
  with p k ev r s1 show ?thesis
    by (simp add: call_process_def ready_def)
qed

lemma msg_type_content: "msg_content h \<noteq> [] \<Longrightarrow> msg_type h = msg_content h ! 0"
  by (simp add: msg_type_def msg_content_def)

lemma mailbox_cong: "s_heap t = s_heap s \<Longrightarrow> s_cba t = s_cba s \<Longrightarrow> messages t = messages s \<Longrightarrow> mailbox H t ms = mailbox H s ms"
  by (simp add: mailbox_def)

lemma letters_cong: "s_heap t = s_heap s \<Longrightarrow> letters t ms = letters s ms"
  by (simp add: letters_def)

lemma box_of_cong: "s_heap t = s_heap s \<Longrightarrow> s_cba t = s_cba s \<Longrightarrow> box_of t ms = box_of s ms"
  by (simp add: box_of_def letters_def)

section \<open>The abstract machine\<close>

text \<open>
  A pool with the letters in it, and the application's variables. Taking a letter runs its receivers
  one after the other; what each of them sends is posted in order; then its chunk is released.
\<close>

primrec visits :: "'w behaviour \<Rightarrow> u8 list \<Rightarrow> nat list \<Rightarrow> post_box \<times> 'w \<Rightarrow> (post_box \<times> 'w) option" where
  "visits f bs [] x = Some x"
| "visits f bs (p # ps) x = (case f p bs (snd x) of
     (w, out) \<Rightarrow> do { b \<leftarrow> post_all out (fst x); visits f bs ps (b, w) })"

fun mail_do :: "'w behaviour \<Rightarrow> nat list \<Rightarrow> main_op \<Rightarrow> post_box \<times> 'w \<Rightarrow> (post_box \<times> 'w) option" where
  "mail_do f ps MainRun ((c, []), w) = Some ((c, []), w)"
| "mail_do f ps MainRun ((c, (m, r, bs) # q), w) = do {
     ((c, q), w) \<leftarrow> visits f bs (case r of None \<Rightarrow> ps | Some p \<Rightarrow> [p]) ((c, q), w);
     c \<leftarrow> cba_free c (Some m);
     Some ((c, q), w) }"
| "mail_do f ps (MainCall (MsgSend r bs n)) (b, w) = do { b \<leftarrow> post (r, bs) b; Some (b, w) }"
| "mail_do f ps _ x = None"

primrec mail_run :: "'w behaviour \<Rightarrow> nat list \<Rightarrow> main_op list \<Rightarrow> post_box \<times> 'w \<Rightarrow> (post_box \<times> 'w) option" where
  "mail_run f ps [] x = Some x"
| "mail_run f ps (op # ops) x = do { x \<leftarrow> mail_do f ps op x; mail_run f ps ops x }"

text \<open>What a process does with a message, given what it kept from the calls before: the new variables,
  what it keeps, the result of the call and the letters. The behaviour of the processes together has
  what each of them keeps among its variables.\<close>

type_synonym ('w, 'k) role = "nat \<Rightarrow> u8 list \<Rightarrow> 'k \<Rightarrow> 'w \<Rightarrow> ('w \<times> 'k \<times> int \<times> letter list) option"

definition perform :: "('w, 'k) role \<Rightarrow> ('w \<times> (nat \<Rightarrow> 'k)) behaviour" where
  "perform h p bs x = (case h p bs (snd x p) (fst x) of None \<Rightarrow> (x, [])
     | Some (w, k, r, out) \<Rightarrow> ((w, (snd x)(p := k)), out))"

text \<open>Machines on parts of the variables.\<close>

lemma visits_part:
  assumes "\<And>p bs x. f p bs (part x) = map_prod part id (f' p bs x)"
  shows "visits f bs ps (b, part x) = map_option (map_prod id part) (visits f' bs ps (b, x))"
proof (induction ps arbitrary: b x)
  case (Cons p ps)
  then show ?case by (simp add: assms split: prod.splits Option.bind_splits)
qed simp

lemma mail_do_part:
  assumes "\<And>p bs x. f p bs (part x) = map_prod part id (f' p bs x)"
  shows "mail_do f ps op (b, part x) = map_option (map_prod id part) (mail_do f' ps op (b, x))"
proof (cases "(f', ps, op, (b, x))" rule: mail_do.cases)
  case (2 f'' ps' c m r bs q w)
  then show ?thesis
    by (simp add: visits_part [where f = f and f' = f' and part = part, OF assms] map_prod_def split: prod.splits Option.bind_splits)
qed (auto split: Option.bind_splits)

lemma mail_run_part:
  assumes "\<And>p bs x. f p bs (part x) = map_prod part id (f' p bs x)"
  shows "mail_run f ps ops (b, part x) = map_option (map_prod id part) (mail_run f' ps ops (b, x))"
proof (induction ops arbitrary: b x)
  case (Cons op ops)
  then show ?case
    by (simp add: mail_do_part [where f = f and f' = f' and part = part, OF assms] split: Option.bind_splits)
qed simp

section \<open>The interface of the threads\<close>

definition proper :: "nat list \<Rightarrow> letter \<Rightarrow> bool" where
  "proper ps x \<longleftrightarrow> snd x \<noteq> [] \<and> snd x ! 0 \<noteq> PROCESS_EV_EXIT \<and> length (snd x) \<le> 65501 \<and>
     (\<forall>p. fst x = Some p \<longrightarrow> p \<in> set ps)"

definition office :: "nat list \<Rightarrow> 'w sys \<Rightarrow> nat list \<Rightarrow> bool" where
  "office ps s ms \<longleftrightarrow> mailbox {} s ms \<and> nlist (proc_next s) (process_head s) ps \<and> (\<forall>p\<in>set ps. ready s p) \<and>
     poll_requested s = 0 \<and> (\<forall>x\<in>set (letters s ms). proper ps x)"

definition office_op :: "nat list \<Rightarrow> main_op \<Rightarrow> bool" where
  "office_op ps op \<longleftrightarrow> (case op of MainRun \<Rightarrow> True
     | MainCall a \<Rightarrow> (case a of MsgSend r bs n \<Rightarrow> n = length bs \<and> proper ps (r, bs) | _ \<Rightarrow> False) | _ \<Rightarrow> False)"

text \<open>
  Every process of the list keeps something, \<open>St\<close> says how its local continuation stands for it. Its
  thread does what its role says, and the roles keep to proper letters and do not end, as long as
  the variables and what the processes keep satisfy \<open>I\<close>.
\<close>

locale players =
  fixes ps :: "nat list" and P :: "'w program" and h :: "('w, 'k) role"
    and St :: "nat \<Rightarrow> u16 \<Rightarrow> 'k \<Rightarrow> bool" and I :: "'w \<times> (nat \<Rightarrow> 'k) \<Rightarrow> bool"
  assumes plays: "p \<in> set ps \<Longrightarrow> St p (p_lc (procs s p)) k \<Longrightarrow> msg_content (s_heap s m) \<noteq> [] \<Longrightarrow>
      h p (msg_content (s_heap s m)) k (s_world s) = Some (w, k', r, out) \<Longrightarrow>
      \<exists>lc. St p lc k' \<and> exec (api_do K p) (P th p (msg_type (s_heap s m)) (Pooled m)) s =
        exec (api_do K p) (send_all r out) (upd_proc p (\<lambda>q. q\<lparr>p_lc := lc\<rparr>) (s\<lparr>s_world := w\<rparr>))"
    and civil: "p \<in> set ps \<Longrightarrow> proper ps (q, bs) \<Longrightarrow> I x \<Longrightarrow> \<exists>w k r out. h p bs (snd x p) (fst x) = Some (w, k, r, out) \<and>
      r < PT_EXITED \<and> (\<forall>y\<in>set out. proper ps y) \<and> I (w, (snd x)(p := k))"
begin

definition stand :: "'w sys \<Rightarrow> (nat \<Rightarrow> 'k) \<Rightarrow> bool" where
  "stand s ks \<longleftrightarrow> (\<forall>p\<in>set ps. St p (p_lc (procs s p)) (ks p))"

lemma stand_cong: "(\<And>p. p_lc (procs t p) = p_lc (procs s p)) \<Longrightarrow> stand t ks = stand s ks"
  by (simp add: stand_def)

text \<open>One call.\<close>

lemma turn:
  assumes p: "ready s p" "p \<in> set ps" and box: "mailbox H s ms" and m: "m \<in> H" "letter_of (s_heap s) m = (q, bs)" "proper ps (q, bs)"
    and ks: "stand s ks" "I (s_world s, ks)"
  shows "\<exists>u ms' lc k w out. call_process (nested P (Suc n)) p (msg_type (s_heap s m)) (Pooled m) s = Some (after_call p lc s u) \<and>
    perform h p bs (s_world s, ks) = ((w, ks(p := k)), out) \<and> post_all out (box_of s ms) = Some (box_of u (ms @ ms')) \<and>
    (\<forall>y\<in>set out. proper ps y) \<and> mailbox H u (ms @ ms') \<and> set (letters u (ms @ ms')) \<subseteq> set (letters s ms) \<union> set out \<and> s_world u = w \<and>
    stand (after_call p lc s u) (ks(p := k)) \<and> I (w, ks(p := k)) \<and> (\<forall>q\<in>H. letter_of (s_heap u) q = letter_of (s_heap s) q)"
proof -
  let ?s = "upd_proc p (\<lambda>p. p\<lparr>p_state := PROCESS_STATE_CALLED\<rparr>) (s\<lparr>process_current := Some p\<rparr>)"
  from civil [OF p(2) m(3) ks(2)] obtain w k r out where
    h: "h p bs (ks p) (s_world s) = Some (w, k, r, out)" "r < PT_EXITED" "\<forall>y\<in>set out. proper ps y" "I (w, ks(p := k))" by auto
  from m(2,3) have bs: "msg_content (s_heap s m) = bs" "bs \<noteq> []" by (simp_all add: letter_of_def proper_def)
  with m(3) have ty: "msg_type (s_heap s m) \<noteq> PROCESS_EV_EXIT" by (simp add: proper_def msg_type_content)
  have fields: "s_heap ?s = s_heap s" "s_world ?s = s_world s" "p_lc (procs ?s p) = p_lc (procs s p)" "s_cba ?s = s_cba s"
    "messages ?s = messages s" "procs ?s p = (procs s p)\<lparr>p_state := PROCESS_STATE_CALLED\<rparr>"
    by (simp_all add: upd_proc_def)
  obtain th where th: "p_thread (procs s p) = Some th" using p by (auto simp: ready_def)
  from plays [OF p(2), of ?s "ks p" m w k r out "nested P n" th] h(1) bs ks(1) p(2) obtain lc where
    lc: "St p lc k" "exec (api_do (nested P n) p) (P th p (msg_type (s_heap s m)) (Pooled m)) ?s =
      exec (api_do (nested P n) p) (send_all r out) (upd_proc p (\<lambda>q. q\<lparr>p_lc := lc\<rparr>) (?s\<lparr>s_world := w\<rparr>))"
    unfolding fields by (auto simp: stand_def)
  let ?w = "upd_proc p (\<lambda>q. q\<lparr>p_lc := lc\<rparr>) (?s\<lparr>s_world := w\<rparr>)"
  have w: "s_heap ?w = s_heap s" "s_cba ?w = s_cba s" "messages ?w = messages s" "s_world ?w = w"
    by (simp_all add: upd_proc_def)
  from box have "mailbox H ?w ms" by (simp add: mailbox_cong [OF w(1-3)])
  moreover have "\<forall>x\<in>set out. length (snd x) \<le> 65501" using h(3) by (simp add: proper_def)
  ultimately obtain u ms' where
    u: "exec (api_do (nested P n) p) (send_all r out) ?w = Some (r, u)" "post_all out (box_of s ms) = Some (box_of u (ms @ ms'))"
      "mailbox H u (ms @ ms')" "set (letters u (ms @ ms')) \<subseteq> set (letters s ms) \<union> set out" "s_world u = w" "mail_only ?w u"
      "\<forall>q\<in>H. letter_of (s_heap u) q = letter_of (s_heap s) q"
    using send_all_ok [of H ?w ms out "nested P n" p r] unfolding letters_cong [OF w(1)] box_of_cong [OF w(1,2)] w(1,4) by blast
  have k: "k_thread (nested P (Suc n)) p (msg_type (s_heap s m)) (Pooled m) ?s = Some (r, u)"
    using u(1) lc(2) th fields(6) by (simp add: thread_call_def)
  have call: "call_process (nested P (Suc n)) p (msg_type (s_heap s m)) (Pooled m) s = Some (after_call p lc s u)"
    by (rule call_returns [OF p(1) ty h(2) refl k u(6)])
  have "perform h p bs (s_world s, ks) = ((w, ks(p := k)), out)" using h(1) by (simp add: perform_def)
  moreover have "stand (after_call p lc s u) (ks(p := k))" using ks(1) lc(1) by (simp add: stand_def)
  ultimately show ?thesis using call u(2-5,7) h(3,4) by blast
qed

text \<open>The loop over the receivers. What it leaves alone:\<close>

definition same_list :: "'w sys \<Rightarrow> 'w sys \<Rightarrow> bool" where
  "same_list s t \<longleftrightarrow> process_head t = process_head s \<and> poll_requested t = poll_requested s \<and>
     (\<forall>p. proc_next t p = proc_next s p) \<and> (\<forall>p. ready t p = ready s p)"

lemma same_list_after: "same_list s (after_call p lc s u)"
  by (simp add: same_list_def)

lemma same_list_frame: "same_list (s\<lparr>messages := l\<rparr>) t \<longleftrightarrow> same_list s t" "same_list s (t\<lparr>s_cba := c\<rparr>) \<longleftrightarrow> same_list s t"
  by (simp_all add: same_list_def ready_def)

lemma same_list_trans: "same_list s t \<Longrightarrow> same_list t u \<Longrightarrow> same_list s u"
  by (simp add: same_list_def)

lemma same_list_nlist: "same_list s t \<Longrightarrow> nlist (proc_next t) p qs = nlist (proc_next s) p qs"
proof -
  assume "same_list s t"
  then have "proc_next t = proc_next s" by (simp add: same_list_def fun_eq_iff)
  then show ?thesis by simp
qed

definition visit :: "'w kernel \<Rightarrow> nat \<Rightarrow> nat \<Rightarrow> 'w sys \<Rightarrow> 'w sys option" where
  "visit K m p s = do {
     s \<leftarrow> (if poll_requested s \<noteq> 0 then scheduler_utilize_poll K s else Some s);
     call_process K p (msg_type (s_heap s m)) (Pooled m) s }"

text \<open>Where a letter in hand is, and what the processes keep.\<close>

definition round :: "nat \<Rightarrow> letter \<Rightarrow> 'w sys \<Rightarrow> nat list \<Rightarrow> (nat \<Rightarrow> 'k) \<Rightarrow> bool" where
  "round m x s ms ks \<longleftrightarrow> mailbox {m} s ms \<and> letter_of (s_heap s) m = x \<and> proper ps x \<and>
     (\<forall>y\<in>set (letters s ms). proper ps y) \<and> stand s ks \<and> I (s_world s, ks)"

lemma round_turn:
  assumes p: "ready s p" "p \<in> set ps" and r: "round m (q, bs) s ms ks"
  shows "\<exists>t ms' k out. call_process (nested P (Suc n)) p (msg_type (s_heap s m)) (Pooled m) s = Some t \<and> same_list s t \<and>
    perform h p bs (s_world s, ks) = ((s_world t, ks(p := k)), out) \<and> post_all out (box_of s ms) = Some (box_of t (ms @ ms')) \<and>
    round m (q, bs) t (ms @ ms') (ks(p := k))"
proof -
  from r have box: "mailbox {m} s ms" and m: "letter_of (s_heap s) m = (q, bs)" "proper ps (q, bs)"
    and ks: "stand s ks" "I (s_world s, ks)" and lts: "\<forall>y\<in>set (letters s ms). proper ps y" by (simp_all add: round_def)
  from turn [OF p box singletonI m ks, of n] obtain u ms' lc k w out where
    u: "call_process (nested P (Suc n)) p (msg_type (s_heap s m)) (Pooled m) s = Some (after_call p lc s u)"
    "perform h p bs (s_world s, ks) = ((w, ks(p := k)), out)" "post_all out (box_of s ms) = Some (box_of u (ms @ ms'))"
    "\<forall>y\<in>set out. proper ps y" "mailbox {m} u (ms @ ms')" "set (letters u (ms @ ms')) \<subseteq> set (letters s ms) \<union> set out" "s_world u = w"
    "stand (after_call p lc s u) (ks(p := k))" "I (w, ks(p := k))" "letter_of (s_heap u) m = letter_of (s_heap s) m" by auto
  let ?t = "after_call p lc s u"
  have new: "\<forall>y\<in>set (letters u (ms @ ms')). proper ps y" using u(4,6) lts by blast
  have "mailbox {m} ?t (ms @ ms') = mailbox {m} u (ms @ ms')" "letters ?t (ms @ ms') = letters u (ms @ ms')"
    "box_of ?t (ms @ ms') = box_of u (ms @ ms')"
    by (simp_all add: mailbox_cong [of ?t u] letters_cong [of ?t u] box_of_cong [of ?t u])
  then have "round m (q, bs) ?t (ms @ ms') (ks(p := k))" "post_all out (box_of s ms) = Some (box_of ?t (ms @ ms'))"
    using u m new by (simp_all add: round_def)
  with u(1,2,7) same_list_after show ?thesis
    by (intro exI [of _ ?t] exI [of _ ms'] exI [of _ k] exI [of _ out]) simp
qed

lemma visits_ok:
  assumes "nlist (proc_next s) p qs" "set qs \<subseteq> set ps" "\<forall>q\<in>set ps. ready s q" "poll_requested s = 0" "round m (q, bs) s ms ks"
  shows "\<exists>t ms' ks'. for_procs (visit (nested P (Suc n)) m) p s = Some t \<and> same_list s t \<and> round m (q, bs) t (ms @ ms') ks' \<and>
    visits (perform h) bs qs (box_of s ms, (s_world s, ks)) = Some (box_of t (ms @ ms'), (s_world t, ks'))"
  using assms
proof (induction qs arbitrary: p s ms ks)
  case Nil
  then show ?case
    by (intro exI [of _ s] exI [of _ "[]"] exI [of _ ks]) (auto simp: for_procs.simps same_list_def)
next
  case (Cons p0 qs)
  from Cons.prems have p0: "p0 \<in> set ps" "ready s p0" by auto
  from round_turn [OF p0(2,1) Cons.prems(5), of n] obtain t ms1 k out where
    t: "call_process (nested P (Suc n)) p0 (msg_type (s_heap s m)) (Pooled m) s = Some t" "same_list s t"
      "perform h p0 bs (s_world s, ks) = ((s_world t, ks(p0 := k)), out)" "post_all out (box_of s ms) = Some (box_of t (ms @ ms1))"
      "round m (q, bs) t (ms @ ms1) (ks(p0 := k))" by blast
  have "\<exists>u ms2 ks'. for_procs (visit (nested P (Suc n)) m) (proc_next s p0) t = Some u \<and> same_list t u \<and>
      round m (q, bs) u ((ms @ ms1) @ ms2) ks' \<and>
      visits (perform h) bs qs (box_of t (ms @ ms1), (s_world t, ks(p0 := k))) = Some (box_of u ((ms @ ms1) @ ms2), (s_world u, ks'))"
  proof (rule Cons.IH)
    show "nlist (proc_next t) (proc_next s p0) qs" using Cons.prems(1) unfolding same_list_nlist [OF t(2)] by simp
    show "set qs \<subseteq> set ps" "\<forall>q\<in>set ps. ready t q" "poll_requested t = 0"
      using Cons.prems(2-4) t(2) by (simp_all add: same_list_def)
  qed (rule t(5))
  then obtain u ms2 ks' where
    u: "for_procs (visit (nested P (Suc n)) m) (proc_next s p0) t = Some u" "same_list t u" "round m (q, bs) u (ms @ ms1 @ ms2) ks'"
      "visits (perform h) bs qs (box_of t (ms @ ms1), (s_world t, ks(p0 := k))) = Some (box_of u (ms @ ms1 @ ms2), (s_world u, ks'))" by auto
  have "visit (nested P (Suc n)) m p0 s = Some t"
    using t(1) Cons.prems(4) by (simp add: visit_def)
  then have "for_procs (visit (nested P (Suc n)) m) p s = Some u"
    using Cons.prems(1) u(1) t(2) by (simp add: for_procs.simps same_list_def)
  moreover have "visits (perform h) bs (p0 # qs) (box_of s ms, (s_world s, ks)) = Some (box_of u (ms @ ms1 @ ms2), (s_world u, ks'))"
    using t(3,4) u(4) by simp
  ultimately show ?case using same_list_trans [OF t(2) u(2)] u(3) by blast
qed

text \<open>The state between two iterations.\<close>

definition open_office :: "'w sys \<Rightarrow> nat list \<Rightarrow> (nat \<Rightarrow> 'k) \<Rightarrow> bool" where
  "open_office s ms ks \<longleftrightarrow> office ps s ms \<and> stand s ks \<and> I (s_world s, ks)"

lemma mail_deliver_ok:
  assumes ps: "nlist (proc_next s) (process_head s) ps" "\<forall>p\<in>set ps. ready s p" "poll_requested s = 0"
    and r: "round m (q, bs) s ms ks"
  shows "\<exists>t ms' ks'. deliver_message (nested P (Suc n)) m s = Some t \<and> same_list s t \<and> round m (q, bs) t (ms @ ms') ks' \<and>
    visits (perform h) bs (case q of None \<Rightarrow> ps | Some p \<Rightarrow> [p]) (box_of s ms, (s_world s, ks)) = Some (box_of t (ms @ ms'), (s_world t, ks'))"
proof -
  have priv: "msg_private (s_heap s m) = q" using r by (simp add: round_def letter_of_def)
  show ?thesis
  proof (cases q)
    case None
    then have "deliver_message (nested P (Suc n)) m s = for_procs (visit (nested P (Suc n)) m) (process_head s) s"
      using priv by (simp add: deliver_message_def visit_def [abs_def])
    with visits_ok [OF ps(1) subset_refl ps(2,3) r, of n] None show ?thesis by simp
  next
    case (Some p)
    with r have p: "p \<in> set ps" by (simp add: round_def proper_def)
    with ps(2) have rd: "ready s p" by blast
    then have "upd_proc p (\<lambda>q. q\<lparr>p_state := PROCESS_STATE_RUNNING\<rparr>) s = s"
      by (cases s) (auto simp: upd_proc_def ready_def fun_upd_idem_iff)
    then have deliver: "deliver_message (nested P (Suc n)) m s = call_process (nested P (Suc n)) p (msg_type (s_heap s m)) (Pooled m) s"
      using priv Some by (simp add: deliver_message_def)
    from round_turn [OF rd p r, of n] obtain t ms' k out where
      t: "call_process (nested P (Suc n)) p (msg_type (s_heap s m)) (Pooled m) s = Some t" "same_list s t"
        "perform h p bs (s_world s, ks) = ((s_world t, ks(p := k)), out)" "post_all out (box_of s ms) = Some (box_of t (ms @ ms'))"
        "round m (q, bs) t (ms @ ms') (ks(p := k))" by blast
    have "visits (perform h) bs [p] (box_of s ms, (s_world s, ks)) = Some (box_of t (ms @ ms'), (s_world t, ks(p := k)))"
      using t(3,4) by simp
    with deliver t(1,2,5) Some show ?thesis by (intro exI [of _ t] exI [of _ ms'] exI [of _ "ks(p := k)"]) simp
  qed
qed

lemma run_ok:
  assumes off: "open_office s ms ks"
  shows "\<exists>t ms' ks'. main_do (nested P (Suc n)) MainRun s = Some t \<and> open_office t ms' ks' \<and>
    mail_do (perform h) ps MainRun (box_of s ms, (s_world s, ks)) = Some (box_of t ms', (s_world t, ks'))"
proof -
  let ?K = "nested P (Suc n)"
  from off have box: "mailbox {} s ms" and ps: "nlist (proc_next s) (process_head s) ps" and rd: "\<forall>p\<in>set ps. ready s p"
    and poll: "poll_requested s = 0" and lts: "\<forall>x\<in>set (letters s ms). proper ps x" and ks: "stand s ks" "I (s_world s, ks)"
    by (auto simp: open_office_def office_def)
  show ?thesis
  proof (cases ms)
    case Nil
    with box have "messages s = msg_list_init" by (simp add: mailbox_def)
    then have "main_do ?K MainRun s = Some s"
      using poll by (simp add: process_run_def scheduler_run_def scheduler_utilize_message_def msg_list_pop_def msg_list_init_def)
    with off Nil show ?thesis
      by (intro exI [of _ s] exI [of _ "[]"] exI [of _ ks]) (simp add: box_of_def letters_def)
  next
    case (Cons m ms0)
    obtain q bs where qb: "letter_of (s_heap s) m = (q, bs)" by (cases "letter_of (s_heap s) m")
    from box Cons obtain l where pop: "msg_list_pop (s_heap s) (messages s) = (Some m, l)" "list_repr (s_heap s) l ms0"
      using list_repr_pop [of "s_heap s" "messages s" m ms0] by (auto simp: mailbox_def)
    let ?s = "s\<lparr>messages := l\<rparr>"
    from box Cons have dist: "m \<notin> set ms0" by (auto simp: mailbox_def list_repr_def)
    have "round m (q, bs) ?s ms0 ks"
      using box Cons pop(2) dist qb lts ks by (auto simp: round_def mailbox_def letters_def stand_def)
    then have "\<exists>t ms' ks'. deliver_message ?K m ?s = Some t \<and> same_list ?s t \<and> round m (q, bs) t (ms0 @ ms') ks' \<and>
      visits (perform h) bs (case q of None \<Rightarrow> ps | Some p \<Rightarrow> [p]) (box_of ?s ms0, (s_world ?s, ks)) = Some (box_of t (ms0 @ ms'), (s_world t, ks'))"
      by (intro mail_deliver_ok) (use ps rd poll in \<open>simp_all add: ready_def\<close>)
    then obtain u ms' ks' where u: "deliver_message ?K m ?s = Some u" "same_list s u" "round m (q, bs) u (ms0 @ ms') ks'"
      "visits (perform h) bs (case q of None \<Rightarrow> ps | Some p \<Rightarrow> [p]) (box_of ?s ms0, (s_world s, ks)) = Some (box_of u (ms0 @ ms'), (s_world u, ks'))"
      by (auto simp: same_list_frame)
    from u(3) have "cba_pool.owns (s_cba u) (insert m (set (ms0 @ ms')))" "m \<notin> set (ms0 @ ms')"
      by (auto simp: round_def mailbox_def)
    then obtain c where c: "msg_ptr_free (s_cba u) (Some m) = Some c" "cba_pool.owns c (set (ms0 @ ms'))"
      using cba_pool.owns_free [of "s_cba u" "insert m (set (ms0 @ ms'))" m] by (auto simp: msg_ptr_free_def)
    let ?t = "u\<lparr>s_cba := c\<rparr>"
    have "main_do ?K MainRun s = Some ?t"
      using poll pop(1) u(1) c(1) by (simp add: process_run_def scheduler_run_def scheduler_utilize_message_def)
    moreover have "open_office ?t (ms0 @ ms') ks'"
    proof -
      have "mailbox {} ?t (ms0 @ ms')" "stand ?t ks'" "I (s_world ?t, ks')" "\<forall>x\<in>set (letters ?t (ms0 @ ms')). proper ps x"
        using u(3) c(2) by (simp_all add: round_def mailbox_def stand_def letters_def)
      moreover have "nlist (proc_next ?t) (process_head ?t) ps" "poll_requested ?t = 0" "\<forall>p\<in>set ps. ready ?t p"
        using ps poll rd u(2) same_list_nlist [OF u(2)] by (simp_all add: same_list_def ready_def)
      ultimately show ?thesis by (simp add: open_office_def office_def)
    qed
    moreover have "mail_do (perform h) ps MainRun (box_of s ms, (s_world s, ks)) = Some (box_of ?t (ms0 @ ms'), (s_world ?t, ks'))"
    proof -
      have "box_of s ms = (s_cba s, (m, q, bs) # snd (box_of ?s ms0))" using Cons qb by (simp add: box_of_def letters_def)
      moreover have "box_of ?s ms0 = (s_cba s, snd (box_of ?s ms0))" by (simp add: box_of_def)
      moreover have "box_of u (ms0 @ ms') = (s_cba u, snd (box_of ?t (ms0 @ ms')))" "box_of ?t (ms0 @ ms') = (c, snd (box_of ?t (ms0 @ ms')))"
        by (simp_all add: box_of_def letters_def)
      ultimately show ?thesis using u(4) c(1) by (simp add: msg_ptr_free_def)
    qed
    ultimately show ?thesis by blast
  qed
qed

text \<open>A letter from outside of the processes.\<close>

lemma post_ok:
  assumes off: "open_office s ms ks" and x: "proper ps (q, bs)"
  shows "\<exists>t ms'. main_do K (MainCall (MsgSend q bs (length bs))) s = Some t \<and> open_office t ms' ks \<and>
    mail_do f ps (MainCall (MsgSend q bs (length bs))) (box_of s ms, (s_world s, ks)) = Some (box_of t ms', (s_world t, ks))"
proof -
  from off have "mailbox {} s ms" by (simp add: open_office_def office_def)
  moreover from x have "length bs \<le> 65501" by (simp add: proper_def)
  ultimately obtain st t ms' where t: "process_send_msg q bs (length bs) s = Some (st, t)" "mailbox {} t (ms @ ms')"
    "post (q, bs) (box_of s ms) = Some (box_of t (ms @ ms'))" "set (letters t (ms @ ms')) \<subseteq> set (letters s ms) \<union> {(q, bs)}"
    "s_world t = s_world s" "mail_only s t"
    using mail_send_ok by blast
  have "\<forall>x\<in>set (letters t (ms @ ms')). proper ps x"
    using off x t(4) unfolding open_office_def office_def by blast
  then have "open_office t (ms @ ms') ks"
    using off t(2,5) ready_mail [OF t(6)] mail_onlyD [OF t(6)] by (simp add: open_office_def office_def stand_def)
  with t(1,3,5) show ?thesis by (intro exI [of _ t] exI [of _ "ms @ ms'"]) simp
qed

lemma office_step:
  assumes "open_office s ms ks" "office_op ps op"
  shows "\<exists>t ms' ks'. main_do (nested P (Suc n)) op s = Some t \<and> open_office t ms' ks' \<and>
    mail_do (perform h) ps op (box_of s ms, (s_world s, ks)) = Some (box_of t ms', (s_world t, ks'))"
proof (cases op)
  case MainRun
  with run_ok [OF assms(1)] show ?thesis by simp
next
  case (MainCall a)
  with assms(2) obtain q bs where "a = MsgSend q bs (length bs)" "proper ps (q, bs)"
    by (auto simp: office_op_def split: api.splits)
  with post_ok [OF assms(1)] MainCall show ?thesis by blast
qed (use assms(2) in \<open>simp_all add: office_op_def\<close>)

lemma office_refines:
  assumes "open_office s ms ks" "list_all (office_op ps) ops"
  shows "\<exists>t ms' ks'. main_run (nested P (Suc n)) ops s = Some t \<and> open_office t ms' ks' \<and>
    mail_run (perform h) ps ops (box_of s ms, (s_world s, ks)) = Some (box_of t ms', (s_world t, ks'))"
  using assms
proof (induction ops arbitrary: s ms ks)
  case Nil
  then show ?case by (intro exI [of _ s] exI [of _ ms] exI [of _ ks]) simp
next
  case (Cons op ops)
  from Cons.prems(2) have "office_op ps op" "list_all (office_op ps) ops" by simp_all
  with office_step [OF Cons.prems(1)] obtain t ms' ks' where
    t: "main_do (nested P (Suc n)) op s = Some t" "open_office t ms' ks'"
      "mail_do (perform h) ps op (box_of s ms, (s_world s, ks)) = Some (box_of t ms', (s_world t, ks'))" by blast
  from Cons.IH [OF t(2)] \<open>list_all (office_op ps) ops\<close> obtain u ms'' ks'' where
    "main_run (nested P (Suc n)) ops t = Some u" "open_office u ms'' ks''"
    "mail_run (perform h) ps ops (box_of t ms', (s_world t, ks')) = Some (box_of u ms'', (s_world u, ks''))" by blast
  with t show ?case by (intro exI [of _ u] exI [of _ ms''] exI [of _ ks'']) simp
qed

end

end
