(* ===== verification/Mx_Actors.thy ===== *)
theory Mx_Actors
  imports Mx_Mail
begin

unbundle bit_operations_syntax

text \<open>
  Applications that only exchange messages. The threads are actors: each call reads its message,
  computes, sends messages and yields; they keep nothing from one call to the next but the
  application's variables. The scheduler implements the machine of letters for them.
\<close>

section \<open>Actors\<close>

text \<open>An actor reads the message it is called with, computes, and sends letters; it does not look at
  whether they were accepted.\<close>

definition actor :: "'w behaviour \<Rightarrow> 'w program" where
  "actor f th self ev m = (case m of
     Pooled a \<Rightarrow> Call (MsgRead a) (\<lambda>r. case r of
         Bytes bs \<Rightarrow> Act (\<lambda>w. map_prod id (send_all PT_YIELDED) (f self bs w))
       | _ \<Rightarrow> Return PT_YIELDED)
   | _ \<Rightarrow> Return PT_YIELDED)"

definition decent :: "nat list \<Rightarrow> 'w behaviour \<Rightarrow> bool" where
  "decent ps f \<longleftrightarrow> (\<forall>p\<in>set ps. \<forall>bs w. \<forall>x\<in>set (snd (f p bs w)). proper ps x)"

lemma decentD: "decent ps f \<Longrightarrow> p \<in> set ps \<Longrightarrow> f p bs w = (w', out) \<Longrightarrow> y \<in> set out \<Longrightarrow> proper ps y"
  unfolding decent_def by (metis snd_conv)

definition actor_role :: "'w behaviour \<Rightarrow> ('w, unit) role" where
  "actor_role f p bs k w = (case f p bs w of (w', out) \<Rightarrow> Some (w', k, PT_YIELDED, out))"

lemma upd_proc_same [simp]: "upd_proc p (\<lambda>q. q\<lparr>p_lc := p_lc (procs s p)\<rparr>) (s\<lparr>s_world := w\<rparr>) = s\<lparr>s_world := w\<rparr>"
  by (cases s) (simp add: upd_proc_def fun_upd_idem_iff)

interpretation actors: players ps "actor f" "actor_role f" "\<lambda>_ _ _. True" "\<lambda>_. decent ps f" for ps f
proof
  fix p k m w k' r out K th and s :: "'a sys"
  assume "actor_role f p (msg_content (s_heap s m)) k (s_world s) = Some (w, k', r, out)"
  then have "exec (api_do K p) (actor f th p (msg_type (s_heap s m)) (Pooled m)) s =
      exec (api_do K p) (send_all r out) (upd_proc p (\<lambda>q. q\<lparr>p_lc := p_lc (procs s p)\<rparr>) (s\<lparr>s_world := w\<rparr>))"
    by (auto simp: actor_def actor_role_def split: prod.splits)
  then show "\<exists>lc. True \<and> exec (api_do K p) (actor f th p (msg_type (s_heap s m)) (Pooled m)) s =
      exec (api_do K p) (send_all r out) (upd_proc p (\<lambda>q. q\<lparr>p_lc := lc\<rparr>) (s\<lparr>s_world := w\<rparr>))" by blast
qed (auto simp: actor_role_def split: prod.splits dest: decentD)

lemma actor_part: "f p bs (fst x) = map_prod fst id (perform (actor_role f) p bs x)"
  by (simp add: perform_def actor_role_def split: prod.splits)

text \<open>C3: The scheduler implements a function on a pool, a FIFO queue of letters and the application's
  variables, exactly: for processes whose threads read their message, compute, send messages and
  yield, every main loop iteration returns; it takes the oldest letter, runs its receiver, or for a
  broadcast every process in list order, appends each letter these send, in order, exactly if
  cba_malloc has a chunk for its message, and then gives the chunk of the letter back with cba_free.
  The pool, the letters with their chunks and the variables at the end are those of that machine, so
  no letter is lost, duplicated or reordered and none is refused for any other reason than the pool.
  Letters posted from outside are treated alike. Messages are at most 65501 bytes and not of type
  EXIT.\<close>

theorem actor_refinement:
  assumes "decent ps f" "office ps s ms" "list_all (office_op ps) ops"
  shows "\<exists>t ms'. main_run (nested (actor f) (Suc n)) ops s = Some t \<and> office ps t ms' \<and>
    mail_run f ps ops (box_of s ms, s_world s) = Some (box_of t ms', s_world t)"
proof -
  have "actors.open_office ps f s ms (\<lambda>_. ())"
    unfolding actors.open_office_def actors.stand_def using assms(1,2) by simp
  from actors.office_refines [OF this assms(3), of n] obtain t ms' ks where
    t: "main_run (nested (actor f) (Suc n)) ops s = Some t" "actors.open_office ps f t ms' ks"
      "mail_run (perform (actor_role f)) ps ops (box_of s ms, (s_world s, \<lambda>_. ())) = Some (box_of t ms', (s_world t, ks))" by blast
  from mail_run_part [where part = fst and f = f and f' = "perform (actor_role f)", OF actor_part, of ps ops "box_of s ms" "(s_world s, \<lambda>_. ())"] t
  have "mail_run f ps ops (box_of s ms, s_world s) = Some (box_of t ms', s_world t)" by simp
  with t(1,2) show ?thesis by (auto simp: actors.open_office_def)
qed

lemma main_run_append: "main_run K (xs @ ys) s = do { t \<leftarrow> main_run K xs s; main_run K ys t }"
  by (induction xs arbitrary: s) (auto split: Option.bind_splits)

text \<open>Process 1 answers a request by a broadcast; every process counts the broadcasts it hears.\<close>

definition demo_behaviour :: "(nat \<times> u8 list) list behaviour" where
  "demo_behaviour p bs w = (w @ [(p, bs)], if p = 1 \<and> bs = [0x30, 7] then [(None, [0x31, 8])] else [])"

lemma demo_decent: "decent [2, 1] demo_behaviour"
  by (simp add: decent_def demo_behaviour_def proper_def)

abbreviation (input) demo_boot :: "main_op list" where
  "demo_boot \<equiv> [MainCall (ProcStart 1), MainCall (ProcStart 2)]"

lemma pool200_ok: "buffer_ok (pool_of 200) 200"
  by (simp add: buffer_ok_def pool_of_def)

lemma demo_office:
  "\<exists>s. main_run (nested (actor demo_behaviour) 2) demo_boot (idle_sys []) = Some s \<and> office [2, 1] s [] \<and> s_world s = []"
proof -
  have ok: "cba_ok (cba_init (pool_of 200) 200)" using cba_init_wf [OF pool200_ok] by (auto simp: cba_ok_def)
  show ?thesis
    by (simp add: sched_run idle_sys_def process_init_def scheduler_init_def actor_def office_def mailbox_def
      ready_def letters_def cba_pool.owns_def ok [unfolded cba_init_def] list_repr_def msg_list_init_def)
qed

theorem actor_refinement_witness:
  "\<exists>s t ms. main_run (nested (actor demo_behaviour) 2) demo_boot (idle_sys []) = Some s \<and>
     main_run (nested (actor demo_behaviour) 2) [MainCall (MsgSend (Some 1) [0x30, 7] 2), MainRun, MainRun] s = Some t \<and>
     office [2, 1] t ms \<and> letters t ms = [] \<and> free_idx (s_cba t) = 0 \<and> s_world t = [(1, [0x30, 7]), (2, [0x31, 8]), (1, [0x31, 8])]"
proof -
  define K where "K = nested (actor demo_behaviour) 2"
  let ?ops = "[MainCall (MsgSend (Some 1) [0x30, 7] 2), MainRun, MainRun]"
  have K: "nested (actor demo_behaviour) (Suc 1) = K" by (simp only: K_def Suc_1)
  from demo_office obtain s where s: "main_run K demo_boot (idle_sys []) = Some s" "office [2, 1] s []"
    unfolding K_def by blast
  have "list_all (office_op [2, 1]) ?ops" by (simp add: office_op_def proper_def)
  from actor_refinement [OF demo_decent s(2) this, of 1] obtain t ms where
    t: "main_run K ?ops s = Some t" "office [2, 1] t ms" unfolding K by blast
  have "map_option (\<lambda>t. (s_world t, msg_head (messages t), free_idx (s_cba t))) (main_run K (demo_boot @ ?ops) (idle_sys [])) =
    Some ([(1, [0x30, 7]), (2, [0x31, 8]), (1, [0x31, 8])], None, 0)"
    by (simp add: K_def sched_run idle_start actor_def demo_behaviour_def process_send_msg_def msg_content_def upt_rec)
  moreover have "main_run K (demo_boot @ ?ops) (idle_sys []) = Some t" unfolding main_run_append s(1) using t(1) by simp
  ultimately have w: "s_world t = [(1, [0x30, 7]), (2, [0x31, 8]), (1, [0x31, 8])]" "msg_head (messages t) = None"
    "free_idx (s_cba t) = 0" by simp_all
  with t(2) have "ms = []" by (cases ms) (simp_all add: office_def mailbox_def list_repr_def)
  then have "letters t ms = []" by (simp add: letters_def)
  with s(1) t w(1,3) show ?thesis unfolding K_def by blast
qed

end
