(* ===== verification/Mx_Senders.thy ===== *)
theory Mx_Senders
  imports Mx_Actors
begin

section \<open>Sending is all or nothing\<close>

text \<open>
  The senders differ in how they get the bytes of the message; what a full pool means and what
  an accepted message leaves behind is the same for all of them.
\<close>

definition refused :: "nat \<Rightarrow> 'w sys \<Rightarrow> bool" where
  "refused n s \<longleftrightarrow> (case process_malloc n s of Some (None, _) \<Rightarrow> True | _ \<Rightarrow> False)"

lemma send_bytes:
  "process_send_msg r bs (length bs) s = do {
     (m, s) \<leftarrow> process_malloc (length bs) s;
     case m of None \<Rightarrow> Some (PROCESS_ERR_NO_MEMORY, s)
     | Some m \<Rightarrow> do { s \<leftarrow> fill_msg m bs s; Some (process_post_msg r m s) } }"
  by (simp add: process_send_msg_def cong: option.case_cong)

lemma send_refused:
  assumes "mailbox H s ms" "length bs \<le> 65501"
  shows "process_send_msg r bs (length bs) s = Some (PROCESS_ERR_NO_MEMORY, s) \<longleftrightarrow> refused (length bs) s"
proof (cases "process_malloc (length bs) s")
  case None
  then show ?thesis by (simp add: send_bytes refused_def)
next
  case (Some x)
  obtain m u where x: "x = (m, u)" by (cases x)
  show ?thesis
  proof (cases m)
    case None
    with Some x mail_send_cases [OF assms, of r] show ?thesis by (auto simp: send_bytes refused_def)
  next
    case (Some q)
    with \<open>process_malloc _ s = Some x\<close> x show ?thesis
      by (cases "fill_msg q bs u") (simp_all add: send_bytes refused_def process_post_msg_def)
  qed
qed

lemma send_parameters:
  "process_send_msg_p0 r ty s = process_send_msg r [ty] (length [ty]) s"
  "process_send_msg_p1 r ty a s = process_send_msg r [ty, a] (length [ty, a]) s"
  "process_send_msg_p2 r ty a b s = process_send_msg r [ty, a, b] (length [ty, a, b]) s"
  "process_send_msg_p3 r ty a b c s = process_send_msg r [ty, a, b, c] (length [ty, a, b, c]) s"
  "process_send_msg_p4 r ty a b c d s = process_send_msg r [ty, a, b, c, d] (length [ty, a, b, c, d]) s"
  unfolding send_bytes
  by (simp_all add: process_send_msg_p0_def process_send_msg_p1_def process_send_msg_p2_def
      process_send_msg_p3_def process_send_msg_p4_def numeral_eq_Suc)

lemma send_data:
  assumes "n \<le> length data"
  shows "process_send_msg r data n s = process_send_msg r (take n data) (length (take n data)) s"
    "n \<le> 65500 \<Longrightarrow> process_send_msg_data r ty data n s =
       process_send_msg r (ty # take n data) (length (ty # take n data)) s"
  using assms unfolding send_bytes
  by (simp_all add: process_send_msg_def process_send_msg_data_def min_def cong: option.case_cong)

text \<open>C11: Every function of the process_send_msg family is all or nothing: when the pool refuses a
  message of that size it returns PROCESS_ERR_NO_MEMORY and the system is unchanged; otherwise it
  returns PROCESS_SUCCESS, the queue ends in one more message, for this receiver and with exactly
  the given bytes, and the messages in the queue and the ones their receivers hold are untouched.
  Messages are at most 65501 bytes.\<close>

theorem process_send_all_or_nothing:
  assumes "mailbox H s ms" "length bs \<le> 65501" "n \<le> length data"
    "(bs, result) \<in> set [([ty], process_send_msg_p0 r ty s), ([ty, a], process_send_msg_p1 r ty a s),
       ([ty, a, b], process_send_msg_p2 r ty a b s), ([ty, a, b, c], process_send_msg_p3 r ty a b c s),
       ([ty, a, b, c, d], process_send_msg_p4 r ty a b c d s), (ty # take n data, process_send_msg_data r ty data n s),
       (take n data, process_send_msg r data n s)]"
  shows "if refused (length bs) s then result = Some (PROCESS_ERR_NO_MEMORY, s)
    else \<exists>t m. result = Some (PROCESS_SUCCESS, t) \<and> mailbox H t (ms @ [m]) \<and>
      letters t (ms @ [m]) = letters s ms @ [(r, bs)] \<and> mail_only s t \<and> s_world t = s_world s \<and>
      (\<forall>q\<in>H. letter_of (s_heap t) q = letter_of (s_heap s) q)"
proof -
  have "n \<le> 65500" if "bs = ty # take n data" using that assms(2,3) by simp
  with assms(4) have "result = process_send_msg r bs (length bs) s"
    using send_data [OF assms(3)] unfolding send_parameters by auto
  with send_refused [OF assms(1,2), of r] mail_send_cases [OF assms(1,2), of r] show ?thesis by auto
qed

lemma idle_mailbox: "mailbox {} (idle_sys w) []"
proof -
  have ok: "cba_ok (cba_init (pool_of 200) 200)" using cba_init_wf [OF pool200_ok] by (auto simp: cba_ok_def)
  show ?thesis
    by (simp add: idle_sys_def process_init_def scheduler_init_def mailbox_def cba_pool.owns_def ok
      list_repr_def msg_list_init_def)
qed

theorem process_send_all_or_nothing_witness:
  "process_send_msg None (replicate 400 0x30) 400 (idle_sys ()) = Some (PROCESS_ERR_NO_MEMORY, idle_sys ()) \<and>
   (\<exists>t m. process_send_msg_p2 (Some 1) 0x30 7 8 (idle_sys ()) = Some (PROCESS_SUCCESS, t) \<and> letters t [m] = [(Some 1, [0x30, 7, 8])])"
proof -
  have "refused 400 (idle_sys ())" and ok: "\<not> refused (length [0x30, 7, 8 :: u8]) (idle_sys ())"
    by (simp_all add: refused_def sched_run idle_start)
  from \<open>refused 400 _\<close> have refuse: "process_send_msg None (replicate 400 0x30) 400 (idle_sys ()) = Some (PROCESS_ERR_NO_MEMORY, idle_sys ())"
    using process_send_all_or_nothing [OF idle_mailbox [of "()"], where bs = "replicate 400 0x30" and n = 400
        and data = "replicate 400 0x30" and r = None] by simp
  have "\<exists>t m. process_send_msg_p2 (Some 1) 0x30 7 8 (idle_sys ()) = Some (PROCESS_SUCCESS, t) \<and>
    letters t ([] @ [m]) = letters (idle_sys ()) [] @ [(Some 1, [0x30, 7, 8])]"
    using process_send_all_or_nothing [OF idle_mailbox [of "()"], where bs = "[0x30, 7, 8]" and ty = "0x30" and a = 7
        and b = 8 and n = 0 and data = "[]" and r = "Some 1"] ok
    by auto
  with refuse show ?thesis by (simp add: letters_def)
qed

end
