(* ===== verification/Mx_ProcTimers.thy ===== *)
theory Mx_ProcTimers
  imports Mx_Actors
begin

text \<open>
  Applications driven by process timers. A thread reads its event, computes, starts and stops timers
  and yields. For such an application \<open>process_timer_handler\<close> returns and implements an abstract
  machine on a plain list of timers: while one is expired, the first one of the list is taken off
  and its process, or every process, gets its event.
\<close>

section \<open>Threads that set timers\<close>

datatype timer_op = Start nat "nat option" u32 u8 | Stop nat

type_synonym 'w ticker = "nat \<Rightarrow> u8 \<Rightarrow> 'w \<Rightarrow> 'w \<times> timer_op list"

primrec set_timers :: "timer_op list \<Rightarrow> 'w thread" where
  "set_timers [] = Return PT_YIELDED"
| "set_timers (x # xs) = Call (case x of Start t p ms ev \<Rightarrow> TimerStart t p ms ev | Stop t \<Rightarrow> TimerStop t) (\<lambda>_. set_timers xs)"

definition ticker :: "'w ticker \<Rightarrow> 'w program" where
  "ticker g th self ev m = Act (\<lambda>w. map_prod id set_timers (g self ev w))"

section \<open>The abstract machine\<close>

text \<open>A timer is who gets its event, the event, and the running interval.\<close>

type_synonym alarm = "nat option \<times> u8 \<times> timer"
type_synonym alarms = "nat list \<times> (nat \<Rightarrow> alarm)"

definition due :: "clock \<Rightarrow> (nat \<Rightarrow> alarm) \<Rightarrow> nat \<Rightarrow> bool" where
  "due clk I x \<longleftrightarrow> timer_expired clk (snd (snd (I x)))"

primrec set_alarm :: "clock \<Rightarrow> timer_op \<Rightarrow> alarms \<Rightarrow> alarms" where
  "set_alarm clk (Start t p ms ev) a =
     ((if t \<in> set (fst a) then fst a else t # fst a), (snd a)(t := (p, ev, timer_start clk TIMER_MS ms)))"
| "set_alarm clk (Stop t) a = (remove1 t (fst a), (snd a)(t := (fst (snd a t), fst (snd (snd a t)), timer_stop)))"

text \<open>The receivers get the event one after the other.\<close>

primrec notify :: "'w ticker \<Rightarrow> clock \<Rightarrow> u8 \<Rightarrow> nat list \<Rightarrow> alarms \<times> 'w \<Rightarrow> alarms \<times> 'w" where
  "notify g clk ev [] x = x"
| "notify g clk ev (p # ps) x = (case g p ev (snd x) of (w, ops) \<Rightarrow> notify g clk ev ps (fold (set_alarm clk) ops (fst x), w))"

abbreviation waiting :: "clock \<Rightarrow> alarms \<Rightarrow> nat" where
  "waiting clk a \<equiv> length (filter (due clk (snd a)) (fst a))"

lemma started_not_due: "\<not> timer_expired clk (timer_start clk TIMER_MS ms)" "\<not> timer_expired clk timer_stop"
  by (auto simp: timer_expired_def timer_start_def timer_value_def timer_tstamp_def timer_stop_def word_neq_0_conv)

lemma filter_upd: "(\<And>y. P y \<Longrightarrow> Q y) \<Longrightarrow> length (filter P xs) \<le> length (filter Q xs)"
  by (induction xs) (auto simp: le_SucI)

lemma filter_remove1_le: "length (filter P (remove1 x xs)) \<le> length (filter P xs)"
  by (induction xs) auto

lemma set_alarm_waiting: "waiting clk (set_alarm clk x a) \<le> waiting clk a"
proof (cases x)
  case (Start t p ms ev)
  have "length (filter (due clk (snd (set_alarm clk x a))) xs) \<le> length (filter (due clk (snd a)) xs)" for xs
    by (rule filter_upd) (auto simp: due_def Start started_not_due split: if_splits)
  then show ?thesis by (auto simp: Start due_def started_not_due)
next
  case (Stop t)
  have "length (filter (due clk (snd (set_alarm clk x a))) (remove1 t (fst a))) \<le> length (filter (due clk (snd a)) (remove1 t (fst a)))"
    by (rule filter_upd) (auto simp: due_def Stop started_not_due split: if_splits)
  also have "\<dots> \<le> length (filter (due clk (snd a)) (fst a))" by (rule filter_remove1_le)
  finally show ?thesis by (simp add: Stop)
qed

lemma set_alarms_waiting: "waiting clk (fold (set_alarm clk) ops a) \<le> waiting clk a"
proof (induction ops arbitrary: a)
  case (Cons x ops)
  from Cons.IH [of "set_alarm clk x a"] set_alarm_waiting [of clk x a] show ?case by simp
qed simp

lemma notify_waiting: "waiting clk (fst (notify g clk ev ps x)) \<le> waiting clk (fst x)"
proof (induction ps arbitrary: x)
  case (Cons p ps)
  obtain w ops where g: "g p ev (snd x) = (w, ops)" by (cases "g p ev (snd x)")
  with Cons.IH [of "(fold (set_alarm clk) ops (fst x), w)"] set_alarms_waiting [of clk ops "fst x"] show ?case by simp
qed simp

definition take_alarm :: "nat \<Rightarrow> alarms \<Rightarrow> alarms" where
  "take_alarm x a = (remove1 x (fst a), (snd a)(x := (fst (snd a x), fst (snd (snd a x)), timer_stop)))"

lemma filter_remove1_less: "x \<in> set xs \<Longrightarrow> P x \<Longrightarrow> length (filter P (remove1 x xs)) < length (filter P xs)"
  by (induction xs) auto

lemma take_alarm_waiting:
  assumes "x \<in> set (fst a)" "due clk (snd a) x"
  shows "waiting clk (take_alarm x a) < waiting clk a"
proof -
  have "waiting clk (take_alarm x a) \<le> length (filter (due clk (snd a)) (remove1 x (fst a)))"
    unfolding take_alarm_def fst_conv snd_conv
    by (rule filter_upd) (auto simp: due_def started_not_due split: if_splits)
  also have "\<dots> < waiting clk a" using assms by (rule filter_remove1_less)
  finally show ?thesis .
qed

function fire :: "'w ticker \<Rightarrow> nat list \<Rightarrow> clock \<Rightarrow> alarms \<times> 'w \<Rightarrow> alarms \<times> 'w" where
  "fire g ps clk (a, w) = (case find (due clk (snd a)) (fst a) of None \<Rightarrow> (a, w)
     | Some x \<Rightarrow> fire g ps clk (notify g clk (fst (snd (snd a x)))
         (case fst (snd a x) of Some p \<Rightarrow> [p] | None \<Rightarrow> ps) (take_alarm x a, w)))"
  by pat_completeness auto

termination
proof (relation "measure (\<lambda>(g, ps, clk, a, w). waiting clk a)")
  fix g :: "'w ticker" and ps clk a w x
  assume "find (due clk (snd a)) (fst a) = Some x"
  then have x: "x \<in> set (fst a)" "due clk (snd a) x" by (auto simp: find_Some_iff)
  let ?y = "notify g clk (fst (snd (snd a x))) (case fst (snd a x) of Some p \<Rightarrow> [p] | None \<Rightarrow> ps) (take_alarm x a, w)"
  have "waiting clk (fst ?y) \<le> waiting clk (take_alarm x a)"
    using notify_waiting [of clk g _ _ "(take_alarm x a, w)"] by simp
  with take_alarm_waiting [OF x] show "((g, ps, clk, ?y), g, ps, clk, a, w) \<in> measure (\<lambda>(g, ps, clk, a, w). waiting clk a)"
    by (simp add: case_prod_beta)
qed simp

section \<open>Refinement\<close>

definition alarm_of :: "'w sys \<Rightarrow> nat \<Rightarrow> alarm" where
  "alarm_of s t = (pt_process (ptimers s t), pt_event (ptimers s t), pt_timer (ptimers s t))"

definition alarms_of :: "'w sys \<Rightarrow> alarms \<Rightarrow> bool" where
  "alarms_of s a \<longleftrightarrow> nlist (ptimer_next s) (process_timer_head s) (fst a) \<and> snd a = alarm_of s"

text \<open>Only the timers and the application's variables differ.\<close>

definition timers_only :: "'w sys \<Rightarrow> 'w sys \<Rightarrow> bool" where
  "timers_only s t \<longleftrightarrow> t = s\<lparr>ptimers := ptimers t, process_timer_head := process_timer_head t, s_world := s_world t\<rparr>"

lemma timers_only_refl [simp]: "timers_only s s"
  by (simp add: timers_only_def)

lemma timers_only_trans: "timers_only s t \<Longrightarrow> timers_only t u \<Longrightarrow> timers_only s u"
  unfolding timers_only_def by (cases s; cases t; cases u) simp

lemma timers_onlyD:
  assumes "timers_only s t"
  shows "procs t = procs s" "process_head t = process_head s" "s_clock t = s_clock s" "process_current t = process_current s"
  using assms unfolding timers_only_def by (cases s; cases t; simp)+

lemma timers_only_upd: "timers_only s (upd_ptimer t f s)"
  by (simp add: timers_only_def upd_ptimer_def)

lemma timers_only_frame:
  "u = s\<lparr>ptimers := x, process_timer_head := y\<rparr> \<Longrightarrow> s_world u = s_world s" "u = s\<lparr>ptimers := x, process_timer_head := y\<rparr> \<Longrightarrow> timers_only s u"
  by (simp_all add: timers_only_def)

lemma alarm_frame: "(\<And>r. ptimers u r = (ptimers v r)\<lparr>pt_next := x r, pt_timer := y r\<rparr>) \<Longrightarrow>
    alarm_of u r = (pt_process (ptimers v r), pt_event (ptimers v r), y r)"
  by (simp add: alarm_of_def)

lemma started:
  assumes a: "alarms_of s a"
  shows "\<exists>u. process_timer_start t p ms ev s = Some u \<and> timers_only s u \<and> s_world u = s_world s \<and>
    alarms_of u (set_alarm (s_clock s) (Start t p ms ev) a)"
proof -
  let ?s = "upd_ptimer t (\<lambda>x. x\<lparr>pt_process := p, pt_event := ev\<rparr>) s"
  have s: "ptimer_next ?s = ptimer_next s" "process_timer_head ?s = process_timer_head s" "s_clock ?s = s_clock s"
    "s_world ?s = s_world s" by (auto simp: upd_ptimer_def)
  from a have "nlist (ptimer_next ?s) (process_timer_head ?s) (fst a)" by (simp add: s alarms_of_def del: upd_ptimer_def)
  from timer_start_ok [OF this, of t ms] obtain u where u: "scheduler_timer_start t ms ?s = Some u"
    "nlist (ptimer_next u) (process_timer_head u) (if t \<in> set (fst a) then fst a else t # fst a)"
    "u = ?s\<lparr>ptimers := ptimers u, process_timer_head := process_timer_head u\<rparr>"
    "\<And>r. ptimers u r = (ptimers ?s r)\<lparr>pt_next := ptimer_next u r,
      pt_timer := if r = t then timer_start (s_clock ?s) TIMER_MS ms else pt_timer (ptimers ?s r)\<rparr>" by blast
  have w: "s_world u = s_world s" "timers_only ?s u"
    using timers_only_frame(1) [OF u(3)] s(4) timers_only_frame(2) [OF u(3)] by (blast intro: trans)+
  have "alarm_of u = (alarm_of s)(t := (p, ev, timer_start (s_clock s) TIMER_MS ms))"
    by (rule ext, subst alarm_frame [OF u(4)]) (simp add: s(3) alarm_of_def upd_ptimer_def)
  with u(2) a have "alarms_of u (set_alarm (s_clock s) (Start t p ms ev) a)" by (simp add: alarms_of_def)
  moreover have "timers_only s u" by (rule timers_only_trans [OF timers_only_upd w(2)])
  moreover have "process_timer_start t p ms ev s = Some u" using u(1) by (simp add: process_timer_start_def)
  ultimately show ?thesis using w(1) by blast
qed

lemma stopped:
  assumes a: "alarms_of s a"
  shows "\<exists>u. process_timer_stop t s = Some u \<and> timers_only s u \<and> s_world u = s_world s \<and>
    alarms_of u (set_alarm (s_clock s) (Stop t) a)"
proof -
  from a have "nlist (ptimer_next s) (process_timer_head s) (fst a)" by (simp add: alarms_of_def)
  from timer_stop_ok [OF this, of t] obtain u where u: "scheduler_timer_stop t s = Some u"
    "nlist (ptimer_next u) (process_timer_head u) (remove1 t (fst a))"
    "u = s\<lparr>ptimers := ptimers u, process_timer_head := process_timer_head u\<rparr>"
    "\<And>r. ptimers u r = (ptimers s r)\<lparr>pt_next := ptimer_next u r, pt_timer := if r = t then timer_stop else pt_timer (ptimers s r)\<rparr>"
    by blast
  note w = timers_only_frame [OF u(3)]
  have "alarm_of u = (alarm_of s)(t := (fst (alarm_of s t), fst (snd (alarm_of s t)), timer_stop))"
    by (rule ext, subst alarm_frame [OF u(4)]) (simp add: alarm_of_def)
  with u(2) a have "alarms_of u (set_alarm (s_clock s) (Stop t) a)" by (simp add: alarms_of_def)
  moreover have "process_timer_stop t s = Some u" using u(1) by (simp add: process_timer_stop_def)
  ultimately show ?thesis using w by blast
qed

lemma set_timers_ok:
  "alarms_of s a \<Longrightarrow> \<exists>u. exec (api_do K p) (set_timers ops) s = Some (PT_YIELDED, u) \<and> timers_only s u \<and>
    s_world u = s_world s \<and> alarms_of u (fold (set_alarm (s_clock s)) ops a)"
proof (induction ops arbitrary: s a)
  case (Cons x ops)
  have "\<exists>v. api_do K p (case x of Start t p ms ev \<Rightarrow> TimerStart t p ms ev | Stop t \<Rightarrow> TimerStop t) s = Some (Void, v) \<and>
      timers_only s v \<and> s_world v = s_world s \<and> alarms_of v (set_alarm (s_clock s) x a)"
  proof (cases x)
    case (Start t q ms ev)
    from started [OF Cons.prems, of t q ms ev] Start show ?thesis by auto
  next
    case (Stop t)
    from stopped [OF Cons.prems, of t] Stop show ?thesis by auto
  qed
  then obtain v where v: "api_do K p (case x of Start t p ms ev \<Rightarrow> TimerStart t p ms ev | Stop t \<Rightarrow> TimerStop t) s = Some (Void, v)"
    "timers_only s v" "s_world v = s_world s" "alarms_of v (set_alarm (s_clock s) x a)" by blast
  from Cons.IH [OF v(4)] obtain u where "exec (api_do K p) (set_timers ops) v = Some (PT_YIELDED, u)" "timers_only v u"
    "s_world u = s_world v" "alarms_of u (fold (set_alarm (s_clock v)) ops (set_alarm (s_clock s) x a))" by blast
  with v show ?case using timers_only_trans [OF v(2)] timers_onlyD(3) [OF v(2)] by simp
qed simp

lemma timer_call:
  assumes p: "ready s p" and ev: "ev \<noteq> PROCESS_EV_EXIT" and a: "alarms_of s a" and g: "g p ev (s_world s) = (w, ops)"
  shows "\<exists>u. call_process (nested (ticker g) (Suc n)) p ev m s = Some u \<and> timers_only s u \<and> s_world u = w \<and>
    alarms_of u (fold (set_alarm (s_clock s)) ops a)"
proof -
  let ?s = "upd_proc p (\<lambda>p. p\<lparr>p_state := PROCESS_STATE_CALLED\<rparr>) (s\<lparr>process_current := Some p\<rparr>)"
  let ?w = "?s\<lparr>s_world := w\<rparr>"
  have "alarms_of ?w a" using a by (simp add: alarms_of_def alarm_of_def upd_proc_def fun_eq_iff)
  from set_timers_ok [OF this, of "nested (ticker g) n" p ops] obtain u where
    u: "exec (api_do (nested (ticker g) n) p) (set_timers ops) ?w = Some (PT_YIELDED, u)" "timers_only ?w u"
    "s_world u = w" "alarms_of u (fold (set_alarm (s_clock s)) ops a)" by (auto simp: upd_proc_def)
  obtain th where th: "p_thread (procs s p) = Some th" using p by (auto simp: ready_def)
  have k: "k_thread (nested (ticker g) (Suc n)) p ev m ?s = Some (PT_YIELDED, u)"
    using u(1) g th by (simp add: thread_call_def ticker_def upd_proc_def)
  let ?t = "s\<lparr>ptimers := ptimers u, process_timer_head := process_timer_head u, s_world := s_world u\<rparr>"
  have "upd_proc p (\<lambda>p. p\<lparr>p_state := PROCESS_STATE_RUNNING\<rparr>) (u\<lparr>process_current := process_current s\<rparr>) = ?t"
    using p u(2) unfolding timers_only_def by (cases s; cases u) (auto simp: upd_proc_def ready_def fun_eq_iff)
  with p k ev have "call_process (nested (ticker g) (Suc n)) p ev m s = Some ?t"
    by (simp add: call_process_def ready_def)
  moreover have "alarms_of ?t (fold (set_alarm (s_clock s)) ops a)" using u(4) by (simp add: alarms_of_def alarm_of_def fun_eq_iff)
  ultimately show ?thesis using u(3) by (intro exI [of _ ?t]) (simp add: timers_only_def)
qed

text \<open>The receivers are running processes, and no timer sends \<open>PROCESS_EV_EXIT\<close>.\<close>

definition proper_alarm :: "nat list \<Rightarrow> nat option \<Rightarrow> u8 \<Rightarrow> bool" where
  "proper_alarm ps p ev \<longleftrightarrow> ev \<noteq> PROCESS_EV_EXIT \<and> (\<forall>q. p = Some q \<longrightarrow> q \<in> set ps)"

definition proper_alarms :: "nat list \<Rightarrow> alarms \<Rightarrow> bool" where
  "proper_alarms ps a \<longleftrightarrow> (\<forall>x\<in>set (fst a). proper_alarm ps (fst (snd a x)) (fst (snd (snd a x))))"

definition proper_ticker :: "nat list \<Rightarrow> 'w ticker \<Rightarrow> bool" where
  "proper_ticker ps g \<longleftrightarrow> (\<forall>p\<in>set ps. \<forall>ev w t q ms e. Start t q ms e \<in> set (snd (g p ev w)) \<longrightarrow> proper_alarm ps q e)"

definition running :: "nat list \<Rightarrow> 'w sys \<Rightarrow> bool" where
  "running ps s \<longleftrightarrow> nlist (proc_next s) (process_head s) ps \<and> (\<forall>p\<in>set ps. ready s p)"

lemma running_frame: "timers_only s u \<Longrightarrow> running ps u = running ps s"
  by (simp add: running_def ready_def timers_onlyD)

lemma proper_set_alarms:
  "(\<And>t q ms e. Start t q ms e \<in> set ops \<Longrightarrow> proper_alarm ps q e) \<Longrightarrow> proper_alarms ps a \<Longrightarrow>
    proper_alarms ps (fold (set_alarm clk) ops a)"
proof (induction ops arbitrary: a)
  case (Cons x ops)
  have "proper_alarms ps (set_alarm clk x a)"
    using Cons.prems by (cases x) (auto simp: proper_alarms_def dest: notin_set_remove1)
  then have "proper_alarms ps (fold (set_alarm clk) ops (set_alarm clk x a))"
    by (intro Cons.IH) (use Cons.prems(1) in auto)
  then show ?case by simp
qed simp

lemma proper_call:
  assumes "running ps s" "q \<in> set ps" "ev \<noteq> PROCESS_EV_EXIT" "alarms_of s a" "proper_alarms ps a" "proper_ticker ps g"
    and g: "g q ev (s_world s) = (w, ops)"
  shows "\<exists>u. call_process (nested (ticker g) (Suc n)) q ev m s = Some u \<and> timers_only s u \<and> s_world u = w \<and>
    alarms_of u (fold (set_alarm (s_clock s)) ops a) \<and> proper_alarms ps (fold (set_alarm (s_clock s)) ops a)"
proof -
  have "ready s q" using assms(1,2) by (simp add: running_def)
  from timer_call [where g = g and n = n and m = m, OF this assms(3,4) g] obtain u where
    u: "call_process (nested (ticker g) (Suc n)) q ev m s = Some u" "timers_only s u" "s_world u = w"
    "alarms_of u (fold (set_alarm (s_clock s)) ops a)" by blast
  have "proper_alarm ps r e" if "Start t r ms e \<in> set ops" for t r ms e
    using assms(2,6) g that unfolding proper_ticker_def by (metis snd_conv)
  then have "proper_alarms ps (fold (set_alarm (s_clock s)) ops a)" using assms(5) by (rule proper_set_alarms)
  with u show ?thesis by blast
qed

lemma notify_ok:
  assumes "nlist (proc_next s) h qs" "set qs \<subseteq> set ps" "running ps s" "ev \<noteq> PROCESS_EV_EXIT" "alarms_of s a"
    "proper_alarms ps a" "proper_ticker ps g"
  shows "\<exists>u b. for_procs (\<lambda>p. call_process (nested (ticker g) (Suc n)) p ev m) h s = Some u \<and> timers_only s u \<and>
    alarms_of u b \<and> proper_alarms ps b \<and> notify g (s_clock s) ev qs (a, s_world s) = (b, s_world u)"
  using assms
proof (induction qs arbitrary: h s a)
  case (Cons q qs)
  obtain w ops where g: "g q ev (s_world s) = (w, ops)" by (cases "g q ev (s_world s)")
  have "q \<in> set ps" using Cons.prems(2) by simp
  from proper_call [where g = g and n = n and m = m, OF Cons.prems(3) this Cons.prems(4-7) g] obtain u where
    u: "call_process (nested (ticker g) (Suc n)) q ev m s = Some u" "timers_only s u" "s_world u = w"
    "alarms_of u (fold (set_alarm (s_clock s)) ops a)" "proper_alarms ps (fold (set_alarm (s_clock s)) ops a)" by blast
  have "nlist (proc_next u) (proc_next s q) qs" "running ps u"
    using Cons.prems(1,3) running_frame [OF u(2)] by (simp_all add: timers_onlyD(1) [OF u(2)])
  then obtain t b where "for_procs (\<lambda>p. call_process (nested (ticker g) (Suc n)) p ev m) (proc_next s q) u = Some t"
    "timers_only u t" "alarms_of t b" "proper_alarms ps b"
    "notify g (s_clock u) ev qs (fold (set_alarm (s_clock s)) ops a, s_world u) = (b, s_world t)"
    using Cons.IH [of u "proc_next s q" "fold (set_alarm (s_clock s)) ops a"] Cons.prems(2,4,7) u(4,5) by auto
  note t = this
  have "for_procs (\<lambda>p. call_process (nested (ticker g) (Suc n)) p ev m) h s = Some t"
    using Cons.prems(1) u(1) t(1) timers_onlyD(1) [OF u(2)] by (simp add: for_procs.simps [of _ "Some q"] del: nested.simps)
  moreover have "notify g (s_clock s) ev (q # qs) (a, s_world s) = (b, s_world t)"
    using g t(5) u(3) timers_onlyD(3) [OF u(2)] by simp
  ultimately show ?case using t(2-4) timers_only_trans [OF u(2)] by blast
next
  case Nil
  then show ?case by (intro exI [of _ s] exI [of _ a]) (simp add: for_procs.simps)
qed

lemma deliver_ok:
  assumes "running ps s" "proper_alarm ps p ev" "alarms_of s a" "proper_alarms ps a" "proper_ticker ps g"
  shows "\<exists>u b. scheduler_handle_msg (nested (ticker g) (Suc n)) p (OnStack [ev] None) s = Some u \<and> timers_only s u \<and>
    alarms_of u b \<and> proper_alarms ps b \<and>
    notify g (s_clock s) ev (case p of Some q \<Rightarrow> [q] | None \<Rightarrow> ps) (a, s_world s) = (b, s_world u)"
proof (cases p)
  case None
  with notify_ok [of s "process_head s" ps ps ev a g n "OnStack [ev] None"] assms show ?thesis
    by (simp add: scheduler_handle_msg_def arg_type_def rd_def running_def proper_alarm_def)
next
  case (Some q)
  obtain w ops where g: "g q ev (s_world s) = (w, ops)" by (cases "g q ev (s_world s)")
  from assms(2) Some have q: "q \<in> set ps" "ev \<noteq> PROCESS_EV_EXIT" by (auto simp: proper_alarm_def)
  from proper_call [where g = g and n = n and m = "OnStack [ev] None", OF assms(1) q assms(3-5) g] obtain u where
    u: "call_process (nested (ticker g) (Suc n)) q ev (OnStack [ev] None) s = Some u" "timers_only s u" "s_world u = w"
    "alarms_of u (fold (set_alarm (s_clock s)) ops a)" "proper_alarms ps (fold (set_alarm (s_clock s)) ops a)" by blast
  let ?b = "fold (set_alarm (s_clock s)) ops a"
  have "scheduler_handle_msg (nested (ticker g) (Suc n)) p (OnStack [ev] None) s = Some u"
    using u(1) Some by (simp add: scheduler_handle_msg_def arg_type_def rd_def del: nested.simps)
  moreover have "notify g (s_clock s) ev (case p of Some q \<Rightarrow> [q] | None \<Rightarrow> ps) (a, s_world s) = (?b, s_world u)"
    using g u(3) Some by simp
  ultimately show ?thesis using u(2,4,5) by blast
qed

text \<open>The loop of the handler takes the first timer that is due.\<close>

lemma find_first: "\<forall>y\<in>set ys. \<not> P y \<Longrightarrow> P x \<Longrightarrow> find P (ys @ x # zs) = Some x"
  by (induction ys) auto

lemma taken:
  assumes a: "alarms_of s a"
  shows "find (due (s_clock s) (snd a)) (fst a) = None \<and> scheduler_timer_find_expired s = Some (None, s) \<or>
    (\<exists>x u. find (due (s_clock s) (snd a)) (fst a) = Some x \<and> x \<in> set (fst a) \<and> scheduler_timer_find_expired s = Some (Some x, u) \<and>
      timers_only s u \<and> s_world u = s_world s \<and> alarms_of u (take_alarm x a))"
proof -
  have due: "due (s_clock s) (snd a) x \<longleftrightarrow> timer_expired (s_clock s) (pt_timer (ptimers s x))" for x
    using a by (simp add: due_def alarms_of_def alarm_of_def)
  from a have "nlist (ptimer_next s) (process_timer_head s) (fst a)" by (simp add: alarms_of_def)
  from find_expired_ok [OF this] show ?thesis
  proof (elim disjE exE conjE)
    assume "\<forall>x\<in>set (fst a). \<not> timer_expired (s_clock s) (pt_timer (ptimers s x))" "scheduler_timer_find_expired s = Some (None, s)"
    then show ?thesis by (simp add: find_None_iff due)
  next
    fix ys x zs u
    assume x: "fst a = ys @ x # zs" "timer_expired (s_clock s) (pt_timer (ptimers s x))"
      "\<forall>y\<in>set ys. \<not> timer_expired (s_clock s) (pt_timer (ptimers s y))"
      "scheduler_timer_find_expired s = Some (Some x, u)" "nlist (ptimer_next u) (process_timer_head u) (ys @ zs)"
      and u: "u = s\<lparr>ptimers := ptimers u, process_timer_head := process_timer_head u\<rparr>"
      "\<forall>q. ptimers u q = (ptimers s q)\<lparr>pt_next := ptimer_next u q, pt_timer := if q = x then timer_stop else pt_timer (ptimers s q)\<rparr>"
    have "find (due (s_clock s) (snd a)) (fst a) = Some x"
      unfolding x(1) by (rule find_first) (use x(2,3) in \<open>auto simp: due\<close>)
    moreover have "remove1 x (fst a) = ys @ zs" using x(2,3) by (auto simp: x(1) remove1_append)
    moreover have "alarm_of u = (alarm_of s)(x := (fst (alarm_of s x), fst (snd (alarm_of s x)), timer_stop))"
      by (rule ext, subst alarm_frame [OF spec [OF u(2)]]) (simp add: alarm_of_def)
    ultimately show ?thesis
      using x(1,4,5) a timers_only_frame [OF u(1)] by (simp add: alarms_of_def take_alarm_def)
  qed
qed

lemma proper_take: "proper_alarms ps a \<Longrightarrow> proper_alarms ps (take_alarm x a)"
  by (auto simp: proper_alarms_def take_alarm_def dest: notin_set_remove1)

lemma handler_fires:
  assumes "running ps s" "alarms_of s a" "proper_alarms ps a" "proper_ticker ps g"
  shows "\<exists>u b. scheduler_timer_handler (nested (ticker g) (Suc n)) s = Some u \<and> timers_only s u \<and> alarms_of u b \<and>
    proper_alarms ps b \<and> fire g ps (s_clock s) (a, s_world s) = (b, s_world u)"
  using assms
proof (induction "waiting (s_clock s) a" arbitrary: s a rule: less_induct)
  case less
  let ?K = "nested (ticker g) (Suc n)"
  from taken [OF less.prems(2)] show ?case
  proof (elim disjE exE conjE)
    assume none: "find (due (s_clock s) (snd a)) (fst a) = None" "scheduler_timer_find_expired s = Some (None, s)"
    have "scheduler_timer_handler ?K s = Some s" "fire g ps (s_clock s) (a, s_world s) = (a, s_world s)"
      using none by (simp_all add: scheduler_timer_handler.simps [of ?K s] del: nested.simps)
    with less.prems show ?thesis by (intro exI [of _ s] exI [of _ a]) simp
  next
    fix x u
    assume x: "find (due (s_clock s) (snd a)) (fst a) = Some x" "x \<in> set (fst a)"
      "scheduler_timer_find_expired s = Some (Some x, u)" "timers_only s u" "s_world u = s_world s" "alarms_of u (take_alarm x a)"
    let ?p = "fst (snd a x)" and ?ev = "fst (snd (snd a x))"
    have info: "pt_process (ptimers u x) = ?p" "pt_event (ptimers u x) = ?ev"
      using x(6) by (auto simp: alarms_of_def alarm_of_def take_alarm_def fun_eq_iff split: if_splits)
    have "proper_alarm ps ?p ?ev" using less.prems(3) x(2) by (simp add: proper_alarms_def)
    from deliver_ok [where g = g and n = n, OF _ this x(6) proper_take [OF less.prems(3)] less.prems(4)]
    obtain v b where v: "scheduler_handle_msg ?K ?p (OnStack [?ev] None) u = Some v" "timers_only u v" "alarms_of v b"
      "proper_alarms ps b" "notify g (s_clock u) ?ev (case ?p of Some q \<Rightarrow> [q] | None \<Rightarrow> ps) (take_alarm x a, s_world u) = (b, s_world v)"
      using running_frame [OF x(4), of ps] less.prems(1) by auto
    note sv = timers_only_trans [OF x(4) v(2)]
    have clk: "s_clock u = s_clock s" "s_clock v = s_clock s" using timers_onlyD(3) [OF x(4)] timers_onlyD(3) [OF sv] by auto
    have "waiting (s_clock s) b \<le> waiting (s_clock s) (take_alarm x a)"
      using notify_waiting [of "s_clock s" g ?ev "case ?p of Some q \<Rightarrow> [q] | None \<Rightarrow> ps" "(take_alarm x a, s_world u)"] v(5)
      by (simp add: clk)
    also have "\<dots> < waiting (s_clock s) a"
      using x(1,2) by (intro take_alarm_waiting) (auto simp: find_Some_iff)
    finally have "waiting (s_clock v) b < waiting (s_clock s) a" by (simp add: clk)
    from less.hyps [OF this _ v(3,4) less.prems(4)] obtain w c where
      w: "scheduler_timer_handler ?K v = Some w" "timers_only v w" "alarms_of w c" "proper_alarms ps c"
      "fire g ps (s_clock v) (b, s_world v) = (c, s_world w)"
      using running_frame [OF sv, of ps] less.prems(1) by auto
    have "scheduler_timer_handler ?K s = Some w"
      using x(3) v(1) w(1) info by (simp add: scheduler_timer_handler.simps [of ?K s] del: nested.simps)
    moreover have "fire g ps (s_clock s) (a, s_world s) = (c, s_world w)"
      using x(1,5) v(5) w(5) by (simp add: clk)
    ultimately show ?thesis using w(3,4) timers_only_trans [OF sv w(2)] by blast
  qed
qed

text \<open>C8: process_timer_handler returns and implements an abstract machine on a plain list of timers:
  while a timer of the list is due, the first one is taken off and stopped, and its process, or
  every process in the order of the process list, gets its event; what they start goes to the front
  of the list unless it is on it, what they stop is removed. A thread may restart its timer in every
  event, since a timer started now is not due now. The threads compute, start and stop timers and
  yield; receivers are running processes.\<close>

theorem process_timers_refine:
  assumes "running ps s" "nlist (ptimer_next s) (process_timer_head s) ts" "proper_ticker ps g"
    and "proper_alarms ps (ts, alarm_of s)"
  shows "\<exists>u ts'. main_do (nested (ticker g) (Suc n)) MainTimers s = Some u \<and>
    fire g ps (s_clock s) ((ts, alarm_of s), s_world s) = ((ts', alarm_of u), s_world u) \<and>
    nlist (ptimer_next u) (process_timer_head u) ts' \<and> timers_only s u"
proof -
  have "alarms_of s (ts, alarm_of s)" using assms(2) by (simp add: alarms_of_def)
  from handler_fires [where n = n, OF assms(1) this assms(4,3)] obtain u b where
    u: "scheduler_timer_handler (nested (ticker g) (Suc n)) s = Some u" "timers_only s u" "alarms_of u b"
    "fire g ps (s_clock s) ((ts, alarm_of s), s_world s) = (b, s_world u)" by blast
  then show ?thesis
    by (intro exI [of _ u] exI [of _ "fst b"]) (cases b, simp add: alarms_of_def process_timer_handler_def del: nested.simps fire.simps)
qed

definition demo_ticker :: "(nat \<times> u8) list ticker" where
  "demo_ticker p ev w = (w @ [(p, ev)], if p = 1 then [Start 7 (Some 1) 10 0x30] else [])"

definition timer_sys :: "(nat \<times> u8) list sys" where
  "timer_sys = (idle_sys [])\<lparr>process_head := Some 1,
     procs := (\<lambda>p. \<lparr>p_next = if p = 1 then Some 2 else None, p_sched = True, p_thread = Some p, p_lc = 0, p_state = 1, needspoll = False\<rparr>),
     process_timer_head := Some 7,
     ptimers := (\<lambda>t. \<lparr>pt_next = if t = 7 then Some 8 else None, pt_process = if t = 7 then Some 1 else None,
       pt_timer = timer_start clock_zero TIMER_MS 10, pt_event = 0x30\<rparr>),
     s_clock := clock_update clock_zero 10 0\<rparr>"

lemma timer_sys_fires: "snd (fire demo_ticker [1, 2] (s_clock timer_sys) (([7, 8], alarm_of timer_sys), s_world timer_sys)) =
    [(1, 0x30), (1, 0x30), (2, 0x30)]"
  by (simp add: timer_sys_def idle_sys_def process_init_def scheduler_init_def due_def alarm_of_def demo_ticker_def take_alarm_def
    timer_expired_def timer_value_def timer_start_def timer_stop_def timer_tstamp_def clock_get_milis_def clock_update_def clock_zero_def)

theorem process_timers_refine_witness:
  "\<exists>u ts'. main_do (nested (ticker demo_ticker) (Suc 0)) MainTimers timer_sys = Some u \<and>
    s_world u = [(1, 0x30), (1, 0x30), (2, 0x30)] \<and> nlist (ptimer_next u) (process_timer_head u) ts'"
proof -
  have "running [1, 2] timer_sys" by (simp add: running_def ready_def timer_sys_def)
  moreover have "nlist (ptimer_next timer_sys) (process_timer_head timer_sys) [7, 8]" by (simp add: timer_sys_def)
  moreover have "proper_ticker [1, 2] demo_ticker" by (auto simp: proper_ticker_def demo_ticker_def proper_alarm_def split: if_splits)
  moreover have "proper_alarms [1, 2] ([7, 8], alarm_of timer_sys)" by (simp add: proper_alarms_def proper_alarm_def alarm_of_def timer_sys_def)
  ultimately obtain u ts' where "main_do (nested (ticker demo_ticker) (Suc 0)) MainTimers timer_sys = Some u"
    "fire demo_ticker [1, 2] (s_clock timer_sys) (([7, 8], alarm_of timer_sys), s_world timer_sys) = ((ts', alarm_of u), s_world u)"
    "nlist (ptimer_next u) (process_timer_head u) ts'"
    using process_timers_refine [of "[1, 2]" timer_sys "[7, 8]" demo_ticker 0] by blast
  with timer_sys_fires show ?thesis by (metis snd_conv)
qed

end
