(* ===== verification/Mx_Protothread.thy ===== *)
theory Mx_Protothread
  imports Mx_Prelude
begin

text \<open>
  Protothreads: \<open>pthread/pt.h\<close>, \<open>pthread/lc-switch.h\<close> and \<open>pthread/pt-sem.h\<close>. The macros turn a C
  function into a state machine whose state is a line number. Here they are translated to the C
  statements they expand to, with the \<open>switch\<close> that jumps into the middle of loops, and shown to
  behave like coroutines, that is like threads that keep what they have left to do. The two are
  machines with steps, the first section says what it is for one to simulate the other.
\<close>

section \<open>Iterated steps\<close>

text \<open>A machine takes a configuration to the next one or to a result, or is stuck.\<close>

type_synonym ('c, 'r) machine = "'c \<Rightarrow> ('c + 'r) option"

partial_function (option) run :: "('c, 'r) machine \<Rightarrow> 'c \<Rightarrow> 'r option" where
  "run m c = (case m c of None \<Rightarrow> None | Some x \<Rightarrow> (case x of Inl d \<Rightarrow> run m d | Inr r \<Rightarrow> Some r))"

fun steps :: "('c, 'r) machine \<Rightarrow> nat \<Rightarrow> 'c \<Rightarrow> ('c + 'r) option" where
  "steps m 0 c = Some (Inl c)"
| "steps m (Suc n) c = (case m c of Some (Inl d) \<Rightarrow> steps m n d | x \<Rightarrow> x)"

lemma steps_numeral: "steps m (numeral k) c = (case m c of Some (Inl d) \<Rightarrow> steps m (pred_numeral k) d | x \<Rightarrow> x)"
  by (simp add: numeral_eq_Suc)

lemma run_step: "m c = Some (Inl d) \<Longrightarrow> run m c = run m d"
  and run_done: "m c = Some (Inr r) \<Longrightarrow> run m c = Some r"
  and run_stuck: "m c = None \<Longrightarrow> run m c = None"
  by (simp_all add: run.simps [of m c])

lemma steps_add: "steps m k c = Some (Inl d) \<Longrightarrow> steps m (k + n) c = steps m n d"
  by (induction k arbitrary: c) (auto split: option.splits sum.splits)

lemma steps_done: "steps m k c = Some (Inr r) \<Longrightarrow> k \<le> n \<Longrightarrow> steps m n c = Some (Inr r)"
proof (induction k arbitrary: c n)
  case (Suc k)
  then obtain n' where "n = Suc n'" "k \<le> n'" by (cases n) auto
  with Suc show ?case by (cases "m c") (auto split: sum.splits)
qed simp

lemma steps_stuck: "steps m k c = None \<Longrightarrow> k \<le> n \<Longrightarrow> steps m n c = None"
proof (induction k arbitrary: c n)
  case (Suc k)
  then obtain n' where "n = Suc n'" "k \<le> n'" by (cases n) auto
  with Suc show ?case by (cases "m c") (auto split: sum.splits)
qed simp

lemma run_steps: "steps m n c = Some (Inl d) \<Longrightarrow> run m c = run m d"
  and run_steps_done: "steps m n c = Some (Inr r) \<Longrightarrow> run m c = Some r"
  by (induction n arbitrary: c) (auto split: option.splits sum.splits simp: run_step run_done)

lemma run_some: "run m c = Some r \<Longrightarrow> \<exists>n. steps m n c = Some (Inr r)"
proof (induction m c r rule: run.raw_induct [rotated, consumes 1])
  case (1 f m c r)
  then obtain x where x: "m c = Some x" by (auto split: option.splits)
  show ?case
  proof (cases x)
    case (Inl d)
    with 1 x obtain n where "steps m n d = Some (Inr r)" by fastforce
    then have "steps m (Suc n) c = Some (Inr r)" using x Inl by simp
    then show ?thesis by blast
  next
    case (Inr r')
    with 1 x have "steps m (Suc 0) c = Some (Inr r)" by simp
    then show ?thesis by blast
  qed
qed

lemma run_forever:
  assumes "alive c" and step: "\<And>c. alive c \<Longrightarrow> \<exists>d. m c = Some (Inl d) \<and> alive d"
  shows "run m c = None"
proof -
  have "steps m n c \<noteq> Some (Inr r)" if "alive c" for n c r
    using that
  proof (induction n arbitrary: c)
    case (Suc n)
    from step [OF Suc.prems] obtain d where "m c = Some (Inl d)" "alive d" by blast
    with Suc.IH show ?case by simp
  qed simp
  with run_some [of m c] assms(1) show ?thesis by fastforce
qed

text \<open>A machine simulates another one when each step of the other is one or more steps of its own.\<close>

definition matches :: "('c \<Rightarrow> 'd \<Rightarrow> bool) \<Rightarrow> ('r \<Rightarrow> 's \<Rightarrow> bool) \<Rightarrow> ('c + 'r) option \<Rightarrow> ('d + 's) option \<Rightarrow> bool" where
  "matches R Q = rel_option (rel_sum R Q)"

lemma run_simulated:
  assumes sim: "\<And>c a. R c a \<Longrightarrow> \<exists>n. matches R Q (steps m (Suc n) c) (am a)"
    and "R c a"
  shows "rel_option Q (run m c) (run am a)"
proof -
  have fwd: "steps am k a = Some (Inr s) \<Longrightarrow> R c a \<Longrightarrow> \<exists>r. run m c = Some r \<and> Q r s" for k s a c
  proof (induction k arbitrary: a c)
    case (Suc k)
    from sim [OF Suc.prems(2)] obtain n where n: "matches R Q (steps m (Suc n) c) (am a)" ..
    show ?case
    proof (cases "am a")
      case (Some x)
      show ?thesis
      proof (cases x)
        case (Inl b)
        with n Some obtain d where d: "steps m (Suc n) c = Some (Inl d)" "R d b"
          by (auto simp: matches_def option_rel_Some2 elim!: rel_sum.cases simp del: steps.simps)
        from Suc Some Inl d(2) obtain r where "run m d = Some r" "Q r s" by auto
        then show ?thesis using run_steps [OF d(1)] by auto
      next
        case (Inr s')
        with n Some Suc.prems(1) obtain r where r: "steps m (Suc n) c = Some (Inr r)" "Q r s"
          by (auto simp: matches_def option_rel_Some2 elim!: rel_sum.cases simp del: steps.simps(2) [of m])
        then show ?thesis using run_steps_done [OF r(1)] by auto
      qed
    qed (use Suc.prems in simp)
  qed simp
  have bwd: "steps m k c = Some (Inr r) \<Longrightarrow> R c a \<Longrightarrow> run am a \<noteq> None" for k r a c
  proof (induction k arbitrary: a c rule: less_induct)
    case (less k)
    from sim [OF less.prems(2)] obtain n where n: "matches R Q (steps m (Suc n) c) (am a)" ..
    show ?case
    proof (cases "am a")
      case None
      with n have "steps m (Suc n) c = None" by (simp add: matches_def del: steps.simps)
      with less.prems(1) have False
        by (cases "Suc n \<le> k") (auto dest: steps_stuck steps_done [where n = "Suc n"] simp del: steps.simps)
      then show ?thesis ..
    next
      case (Some x)
      show ?thesis
      proof (cases x)
        case (Inl b)
        with n Some obtain d where d: "steps m (Suc n) c = Some (Inl d)" "R d b"
          by (auto simp: matches_def option_rel_Some2 elim!: rel_sum.cases simp del: steps.simps)
        have k: "Suc n < k"
        proof (rule ccontr)
          assume "\<not> ?thesis"
          then show False using steps_done [OF less.prems(1), of "Suc n"] d(1) by (auto simp del: steps.simps)
        qed
        then have "steps m (k - Suc n) d = Some (Inr r)"
          using steps_add [OF d(1), of "k - Suc n"] less.prems(1) by (simp del: steps.simps)
        from less.IH [OF _ this d(2)] k have "run am b \<noteq> None" by simp
        then show ?thesis using run_step [of am a b] Some Inl by simp
      next
        case (Inr s)
        then show ?thesis using run_done [of am a s] Some by simp
      qed
    qed
  qed
  show ?thesis
  proof (cases "run am a")
    case None
    then have "run m c = None" using bwd [OF _ assms(2)] run_some [of m c] by fastforce
    with None show ?thesis by simp
  next
    case (Some s)
    from run_some [OF Some] fwd [OF _ assms(2)] obtain r where "run m c = Some r" "Q r s" by blast
    with Some show ?thesis by simp
  qed
qed

section \<open>The macros\<close>

text \<open>
  A protothread is a C function whose body is the body of a \<open>switch\<close> on the local continuation, a
  line number. The macros expand to the statements below: computations on the variables \<open>'v\<close> of
  the program, the control structures, and what \<open>lc-switch.h\<close> and \<open>pt.h\<close> use. \<open>LC_SET l\<close> is the
  assignment of \<open>__LINE__\<close> followed by the label \<open>case __LINE__\<close>. A computation is \<open>None\<close> when it is
  undefined or does not return; a condition may have side effects.
\<close>

type_synonym lc_t = "16 word"

record 'v activation =
  pt_lc :: lc_t
  PT_YIELD_FLAG :: u8
  vars :: "'v"

text \<open>A condition of the program.\<close>

type_synonym 'v test = "'v \<Rightarrow> (bool \<times> 'v) option"

datatype 'v guard = Yield_flag_is_0 | Test "'v test" | Negate "'v guard" | Either "'v guard" "'v guard"

datatype 'v stmt = Nop | Basic "'v \<Rightarrow> 'v option" | Sq "'v stmt" "'v stmt" | Cond "'v guard" "'v stmt" "'v stmt"
  | For "'v guard" "'v \<Rightarrow> 'v option" "'v stmt" | Break | Ret int
  | LC_INIT | LC_SET nat | Set_yield_flag u8

primrec holds :: "'v guard \<Rightarrow> 'v activation \<Rightarrow> (bool \<times> 'v activation) option" where
  "holds Yield_flag_is_0 s = Some (PT_YIELD_FLAG s = 0, s)"
| "holds (Test f) s = map_option (\<lambda>(b, v). (b, s\<lparr>vars := v\<rparr>)) (f (vars s))"
| "holds (Negate g) s = map_option (\<lambda>(b, t). (\<not> b, t)) (holds g s)"
| "holds (Either g h) s = (case holds g s of None \<Rightarrow> None
     | Some (b, t) \<Rightarrow> if b then Some (True, t) else holds h t)"

definition PT_INIT :: "'v stmt" where "PT_INIT = LC_INIT"

definition PT_WAIT_UNTIL :: "nat \<Rightarrow> 'v test \<Rightarrow> 'v stmt" where
  "PT_WAIT_UNTIL l condition = Sq (LC_SET l) (Cond (Negate (Test condition)) (Ret PT_WAITING) Nop)"

definition negated :: "'v test \<Rightarrow> 'v test" where
  "negated cond v = map_option (\<lambda>(b, v). (\<not> b, v)) (cond v)"

definition PT_WAIT_WHILE :: "nat \<Rightarrow> 'v test \<Rightarrow> 'v stmt" where
  "PT_WAIT_WHILE l cond = PT_WAIT_UNTIL l (negated cond)"

definition PT_SCHEDULE :: "('v \<Rightarrow> (int \<times> 'v) option) \<Rightarrow> 'v test" where
  "PT_SCHEDULE f v = map_option (\<lambda>(r, v). (r < PT_EXITED, v)) (f v)"

definition PT_WAIT_THREAD :: "nat \<Rightarrow> ('v \<Rightarrow> (int \<times> 'v) option) \<Rightarrow> 'v stmt" where
  "PT_WAIT_THREAD l thread = PT_WAIT_WHILE l (PT_SCHEDULE thread)"

text \<open>The argument \<open>child\<close> of \<open>PT_SPAWN\<close> is the assignment of the child's control structure.\<close>

definition PT_SPAWN :: "nat \<Rightarrow> (lc_t \<Rightarrow> 'v \<Rightarrow> 'v) \<Rightarrow> ('v \<Rightarrow> (int \<times> 'v) option) \<Rightarrow> 'v stmt" where
  "PT_SPAWN l child thread = Sq (Basic (\<lambda>v. Some (child 0 v))) (PT_WAIT_THREAD l thread)"

definition PT_RESTART :: "'v stmt" where "PT_RESTART = Sq PT_INIT (Ret PT_WAITING)"

definition PT_EXIT :: "'v stmt" where "PT_EXIT = Sq PT_INIT (Ret PT_EXITED)"

definition PT_YIELD :: "nat \<Rightarrow> 'v stmt" where
  "PT_YIELD l = Sq (Set_yield_flag 0) (Sq (LC_SET l) (Cond Yield_flag_is_0 (Ret PT_YIELDED) Nop))"

definition PT_YIELD_UNTIL :: "nat \<Rightarrow> 'v test \<Rightarrow> 'v stmt" where
  "PT_YIELD_UNTIL l cond = Sq (Set_yield_flag 0)
     (Sq (LC_SET l) (Cond (Either Yield_flag_is_0 (Negate (Test cond))) (Ret PT_YIELDED) Nop))"

text \<open>What follows the \<open>switch\<close>.\<close>

definition PT_END :: "'v stmt" where
  "PT_END = Sq (Set_yield_flag 0) (Sq PT_INIT (Ret PT_ENDED))"

section \<open>C\<close>

text \<open>What is left to execute: statements, the rest of a loop after its body, and the end of the
  \<open>switch\<close>. \<open>break\<close> leaves the innermost loop, or the \<open>switch\<close>.\<close>

datatype 'v frame = Stm "'v stmt" | Round "'v guard" "'v \<Rightarrow> 'v option" "'v stmt" | Switch

type_synonym 'v config = "'v frame list \<times> 'v activation"

fun broken :: "'v frame list \<Rightarrow> 'v frame list" where
  "broken [] = []"
| "broken (Stm s # k) = broken k"
| "broken (f # k) = k"

fun c_step :: "('v config, int \<times> lc_t \<times> 'v) machine" where
  "c_step ([], s) = None"
| "c_step (Stm Nop # k, s) = Some (Inl (k, s))"
| "c_step (Stm (Basic f) # k, s) = map_option (\<lambda>v. Inl (k, s\<lparr>vars := v\<rparr>)) (f (vars s))"
| "c_step (Stm (Sq a b) # k, s) = Some (Inl (Stm a # Stm b # k, s))"
| "c_step (Stm (Cond g a b) # k, s) = map_option (\<lambda>(x, t). Inl (Stm (if x then a else b) # k, t)) (holds g s)"
| "c_step (Stm (For g i a) # k, s) =
     map_option (\<lambda>(x, t). Inl (if x then Stm a # Round g i a # k else k, t)) (holds g s)"
| "c_step (Stm Break # k, s) = Some (Inl (broken k, s))"
| "c_step (Stm (Ret r) # k, s) = Some (Inr (r, pt_lc s, vars s))"
| "c_step (Stm LC_INIT # k, s) = Some (Inl (k, s\<lparr>pt_lc := 0\<rparr>))"
| "c_step (Stm (LC_SET l) # k, s) = Some (Inl (k, s\<lparr>pt_lc := of_nat l\<rparr>))"
| "c_step (Stm (Set_yield_flag x) # k, s) = Some (Inl (k, s\<lparr>PT_YIELD_FLAG := x\<rparr>))"
| "c_step (Round g i a # k, s) = map_option (\<lambda>v. Inl (Stm (For g i a) # k, s\<lparr>vars := v\<rparr>)) (i (vars s))"
| "c_step (Switch # k, s) = Some (Inl (k, s))"

text \<open>Where the \<open>switch\<close> jumps: what is left to execute from the label on.\<close>

fun c_case :: "lc_t \<Rightarrow> 'v stmt \<Rightarrow> 'v frame list \<Rightarrow> 'v frame list option" where
  "c_case lc (LC_SET l) k = (if unat lc = l then Some k else None)"
| "c_case lc (Sq a b) k = (case c_case lc a (Stm b # k) of None \<Rightarrow> c_case lc b k | x \<Rightarrow> x)"
| "c_case lc (Cond g a b) k = (case c_case lc a k of None \<Rightarrow> c_case lc b k | x \<Rightarrow> x)"
| "c_case lc (For g i a) k = c_case lc a (Round g i a # k)"
| "c_case lc _ k = None"

text \<open>\<open>PT_BEGIN\<close>: the flag is set and the \<open>switch\<close> entered, at its first statement after \<open>PT_INIT\<close>.
  When no label matches, its body is skipped.\<close>

definition PT_BEGIN :: "'v stmt \<Rightarrow> lc_t \<Rightarrow> 'v \<Rightarrow> 'v config" where
  "PT_BEGIN body lc v = ((if lc = 0 then Stm body # Switch # [Stm PT_END]
       else case c_case lc body (Switch # [Stm PT_END]) of None \<Rightarrow> [Stm PT_END] | Some k \<Rightarrow> k),
     \<lparr>pt_lc = lc, PT_YIELD_FLAG = 1, vars = v\<rparr>)"

definition PT_THREAD :: "'v stmt \<Rightarrow> lc_t \<Rightarrow> 'v \<Rightarrow> (int \<times> lc_t \<times> 'v) option" where
  "PT_THREAD body lc v = run c_step (PT_BEGIN body lc v)"

section \<open>Coroutines\<close>

text \<open>What the macros stand for: a thread that blocks keeps what it has left to do.\<close>

datatype 'v thread = Act "'v \<Rightarrow> 'v option" | Thn "'v thread" "'v thread"
  | Alt "'v test" "'v thread" "'v thread"
  | Loop "'v test" "'v \<Rightarrow> 'v option" "'v thread" | Leave
  | Wait_until nat "'v test" | Yield nat | Yield_until nat "'v test"
  | Restart | Exit

primrec expand :: "'v thread \<Rightarrow> 'v stmt" where
  "expand (Act f) = Basic f"
| "expand (Thn a b) = Sq (expand a) (expand b)"
| "expand (Alt g a b) = Cond (Test g) (expand a) (expand b)"
| "expand (Loop g i a) = For (Test g) i (expand a)"
| "expand Leave = Break"
| "expand (Wait_until l g) = PT_WAIT_UNTIL l g"
| "expand (Yield l) = PT_YIELD l"
| "expand (Yield_until l g) = PT_YIELD_UNTIL l g"
| "expand Restart = PT_RESTART"
| "expand Exit = PT_EXIT"

primrec labels :: "'v thread \<Rightarrow> nat list" where
  "labels (Act f) = []"
| "labels (Thn a b) = labels a @ labels b"
| "labels (Alt g a b) = labels a @ labels b"
| "labels (Loop g i a) = labels a"
| "labels Leave = []"
| "labels (Wait_until l g) = [l]"
| "labels (Yield l) = [l]"
| "labels (Yield_until l g) = [l]"
| "labels Restart = []"
| "labels Exit = []"

text \<open>The macros stand on different lines, and a line number fits \<open>lc_t\<close>.\<close>

definition well_labelled :: "'v thread \<Rightarrow> bool" where
  "well_labelled b \<longleftrightarrow> distinct (labels b) \<and> list_all (\<lambda>l. 0 < l \<and> l < 2 ^ 16) (labels b)"

text \<open>What is left to do: \<open>Poll g\<close> is a thread that has yielded and waits for \<open>g\<close>.\<close>

datatype 'v task = Todo "'v thread" | Again "'v test" "'v \<Rightarrow> 'v option" "'v thread"
  | Poll "'v test"

fun left :: "'v task list \<Rightarrow> 'v task list" where
  "left [] = []"
| "left (Again g i a # k) = k"
| "left (f # k) = left k"

fun co_step :: "'v thread \<Rightarrow> ('v task list \<times> 'v, int \<times> 'v task list \<times> 'v) machine" where
  "co_step b ([], v) = Some (Inr (PT_ENDED, [Todo b], v))"
| "co_step b (Todo (Act f) # k, v) = map_option (\<lambda>v. Inl (k, v)) (f v)"
| "co_step b (Todo (Thn x y) # k, v) = Some (Inl (Todo x # Todo y # k, v))"
| "co_step b (Todo (Alt g x y) # k, v) = map_option (\<lambda>(c, v). Inl (Todo (if c then x else y) # k, v)) (g v)"
| "co_step b (Todo (Loop g i x) # k, v) =
     map_option (\<lambda>(c, v). Inl (if c then Todo x # Again g i x # k else k, v)) (g v)"
| "co_step b (Todo Leave # k, v) = Some (Inl (left k, v))"
| "co_step b (Todo (Wait_until l g) # k, v) =
     map_option (\<lambda>(c, v). if c then Inl (k, v) else Inr (PT_WAITING, Todo (Wait_until l g) # k, v)) (g v)"
| "co_step b (Todo (Yield l) # k, v) = Some (Inr (PT_YIELDED, k, v))"
| "co_step b (Todo (Yield_until l g) # k, v) = Some (Inr (PT_YIELDED, Poll g # k, v))"
| "co_step b (Todo Restart # k, v) = Some (Inr (PT_WAITING, [Todo b], v))"
| "co_step b (Todo Exit # k, v) = Some (Inr (PT_EXITED, [Todo b], v))"
| "co_step b (Again g i x # k, v) = map_option (\<lambda>v. Inl (Todo (Loop g i x) # k, v)) (i v)"
| "co_step b (Poll g # k, v) =
     map_option (\<lambda>(c, v). if c then Inl (k, v) else Inr (PT_YIELDED, Poll g # k, v)) (g v)"

definition coroutine :: "'v thread \<Rightarrow> 'v task list \<Rightarrow> 'v \<Rightarrow> (int \<times> 'v task list \<times> 'v) option" where
  "coroutine b k v = run (co_step b) (k, v)"

text \<open>A thread called again and again, the rest of the program running in between.\<close>

primrec pt_calls :: "'v stmt \<Rightarrow> ('v \<Rightarrow> 'v) list \<Rightarrow> lc_t \<Rightarrow> 'v \<Rightarrow> (int \<times> 'v) list option" where
  "pt_calls body [] lc v = Some []"
| "pt_calls body (e # es) lc v = (case PT_THREAD body lc (e v) of None \<Rightarrow> None
     | Some (r, lc, v) \<Rightarrow> map_option ((#) (r, v)) (pt_calls body es lc v))"

primrec co_calls :: "'v thread \<Rightarrow> ('v \<Rightarrow> 'v) list \<Rightarrow> 'v task list \<Rightarrow> 'v \<Rightarrow> (int \<times> 'v) list option" where
  "co_calls b [] k v = Some []"
| "co_calls b (e # es) k v = (case coroutine b k (e v) of None \<Rightarrow> None
     | Some (r, k, v) \<Rightarrow> map_option ((#) (r, v)) (co_calls b es k v))"

text \<open>The other macros that block are combinations of these.\<close>

definition Wait_while :: "nat \<Rightarrow> 'v test \<Rightarrow> 'v thread" where
  "Wait_while l cond = Wait_until l (negated cond)"

definition Wait_thread :: "nat \<Rightarrow> ('v \<Rightarrow> (int \<times> 'v) option) \<Rightarrow> 'v thread" where
  "Wait_thread l thread = Wait_while l (PT_SCHEDULE thread)"

definition Spawn :: "nat \<Rightarrow> (lc_t \<Rightarrow> 'v \<Rightarrow> 'v) \<Rightarrow> ('v \<Rightarrow> (int \<times> 'v) option) \<Rightarrow> 'v thread" where
  "Spawn l child thread = Thn (Act (\<lambda>v. Some (child 0 v))) (Wait_thread l thread)"

lemma expand_waits [simp]:
  "expand (Wait_while l c) = PT_WAIT_WHILE l c"
  "expand (Wait_thread l t) = PT_WAIT_THREAD l t"
  "expand (Spawn l ch t) = PT_SPAWN l ch t"
  by (simp_all add: Wait_while_def Wait_thread_def Spawn_def PT_WAIT_WHILE_def PT_WAIT_THREAD_def PT_SPAWN_def)

section \<open>Semaphores\<close>

text \<open>A semaphore of the program is a field of its variables: how to read and how to update it.\<close>

record pt_sem =
  sem_count :: "32 word"

definition PT_SEM_INIT :: "((pt_sem \<Rightarrow> pt_sem) \<Rightarrow> 'v \<Rightarrow> 'v) \<Rightarrow> 32 word \<Rightarrow> 'v thread" where
  "PT_SEM_INIT upd c = Act (\<lambda>v. Some (upd (\<lambda>s. s\<lparr>sem_count := c\<rparr>) v))"

definition PT_SEM_WAIT :: "nat \<Rightarrow> ('v \<Rightarrow> pt_sem) \<Rightarrow> ((pt_sem \<Rightarrow> pt_sem) \<Rightarrow> 'v \<Rightarrow> 'v) \<Rightarrow> 'v thread" where
  "PT_SEM_WAIT l s upd = Thn (Wait_until l (\<lambda>v. Some (sem_count (s v) > 0, v)))
     (Act (\<lambda>v. Some (upd (\<lambda>s. s\<lparr>sem_count := sem_count s - 1\<rparr>) v)))"

definition PT_SEM_SIGNAL :: "((pt_sem \<Rightarrow> pt_sem) \<Rightarrow> 'v \<Rightarrow> 'v) \<Rightarrow> 'v thread" where
  "PT_SEM_SIGNAL upd = Act (\<lambda>v. Some (upd (\<lambda>s. s\<lparr>sem_count := sem_count s + 1\<rparr>) v))"

section \<open>The macros implement coroutines\<close>

text \<open>The statement that carries a label, and what is left after it.\<close>

fun site :: "nat \<Rightarrow> 'v thread \<Rightarrow> 'v task list \<Rightarrow> ('v thread \<times> 'v task list) option" where
  "site l (Thn a b) k = (case site l a (Todo b # k) of None \<Rightarrow> site l b k | x \<Rightarrow> x)"
| "site l (Alt g a b) k = (case site l a k of None \<Rightarrow> site l b k | x \<Rightarrow> x)"
| "site l (Loop g i a) k = site l a (Again g i a # k)"
| "site l (Wait_until m g) k = (if l = m then Some (Wait_until m g, k) else None)"
| "site l (Yield m) k = (if l = m then Some (Yield m, k) else None)"
| "site l (Yield_until m g) k = (if l = m then Some (Yield_until m g, k) else None)"
| "site l _ k = None"

fun resumed :: "'v thread \<Rightarrow> 'v stmt" where
  "resumed (Wait_until l g) = Cond (Negate (Test g)) (Ret PT_WAITING) Nop"
| "resumed (Yield l) = Cond Yield_flag_is_0 (Ret PT_YIELDED) Nop"
| "resumed (Yield_until l g) = Cond (Either Yield_flag_is_0 (Negate (Test g))) (Ret PT_YIELDED) Nop"
| "resumed _ = Nop"

fun kept_of :: "'v thread \<Rightarrow> 'v task list \<Rightarrow> 'v task list" where
  "kept_of (Wait_until l g) k = Todo (Wait_until l g) # k"
| "kept_of (Yield_until l g) k = Poll g # k"
| "kept_of _ k = k"

primrec frame_of :: "'v task \<Rightarrow> 'v frame" where
  "frame_of (Todo s) = Stm (expand s)"
| "frame_of (Again g i a) = Round (Test g) i (expand a)"
| "frame_of (Poll g) = Stm Nop"

abbreviation after_switch :: "'v frame list" where
  "after_switch \<equiv> [Switch, Stm PT_END]"

lemmas macros = PT_WAIT_UNTIL_def PT_YIELD_def PT_YIELD_UNTIL_def PT_EXIT_def PT_RESTART_def PT_INIT_def PT_END_def

lemma c_case_site:
  "c_case lc (expand s) (map frame_of k @ z) =
     map_option (\<lambda>(t, k). Stm (resumed t) # map frame_of k @ z) (site (unat lc) s k)"
proof (induction s arbitrary: k)
  case (Thn a b)
  from Thn.IH(1) [of "Todo b # k"] Thn.IH(2) [of k] show ?case by (auto split: option.splits)
next
  case (Alt g a b)
  from Alt.IH(1) [of k] Alt.IH(2) [of k] show ?case by (auto split: option.splits)
next
  case (Loop g i a)
  from Loop.IH [of "Again g i a # k"] show ?case by simp
qed (simp_all add: macros)

text \<open>A part of a thread and what is left after it.\<close>

inductive part :: "'v thread \<Rightarrow> 'v thread \<Rightarrow> 'v task list \<Rightarrow> bool" for b where
  whole: "part b b []"
| thn1: "part b (Thn x y) k \<Longrightarrow> part b x (Todo y # k)"
| thn2: "part b (Thn x y) k \<Longrightarrow> part b y k"
| alt1: "part b (Alt g x y) k \<Longrightarrow> part b x k"
| alt2: "part b (Alt g x y) k \<Longrightarrow> part b y k"
| loop: "part b (Loop g i x) k \<Longrightarrow> part b x (Again g i x # k)"

fun rest :: "'v thread \<Rightarrow> 'v task list \<Rightarrow> bool" where
  "rest b [] \<longleftrightarrow> True"
| "rest b (Todo s # k) \<longleftrightarrow> part b s k"
| "rest b (Again g i x # k) \<longleftrightarrow> part b (Loop g i x) k"
| "rest b (Poll g # k) \<longleftrightarrow> False"

lemma part_rest: "part b s k \<Longrightarrow> rest b k"
  by (induction rule: part.induct) (auto intro: part.intros)

lemma rest_tail: "rest b (f # k) \<Longrightarrow> rest b k"
  by (cases f) (auto dest: part_rest)

lemma rest_left: "rest b k \<Longrightarrow> rest b (left k)"
  by (induction k rule: left.induct) (auto dest: part_rest)

lemma site_none: "l \<notin> set (labels s) \<Longrightarrow> site l s k = None"
  by (induction s arbitrary: k) auto

lemma site_kind: "site l s k = Some (t, k') \<Longrightarrow> \<exists>l g. t = Wait_until l g \<or> t = Yield l \<or> t = Yield_until l g"
  by (induction s arbitrary: k) (auto split: option.splits if_splits)

lemma site_part: "part b s k \<Longrightarrow> site l s k = Some (t, k') \<Longrightarrow> part b t k'"
  by (induction s arbitrary: k)
    (auto split: option.splits if_splits dest: part.intros(2,3) part.intros(4,5) part.intros(6))

lemma part_site:
  assumes "part b s k" "distinct (labels b)"
  shows "distinct (labels s)" "set (labels s) \<subseteq> set (labels b)"
    and "l \<in> set (labels s) \<Longrightarrow> site l s k = site l b []"
proof -
  from assms have "distinct (labels s) \<and> set (labels s) \<subseteq> set (labels b) \<and>
      (\<forall>l \<in> set (labels s). site l s k = site l b [])"
  proof (induction rule: part.induct)
    case (thn1 x y k)
    have "site l x (Todo y # k) = site l (Thn x y) k" if "l \<in> set (labels x)" for l
    proof -
      have "site l y k = None" using that thn1 by (intro site_none) auto
      then show ?thesis by (simp split: option.splits)
    qed
    then show ?case using thn1 by auto
  next
    case (thn2 x y k)
    have "site l y k = site l (Thn x y) k" if "l \<in> set (labels y)" for l
    proof -
      have "site l x (Todo y # k) = None" using that thn2 by (intro site_none) auto
      then show ?thesis by simp
    qed
    then show ?case using thn2 by auto
  next
    case (alt1 g x y k)
    have "site l x k = site l (Alt g x y) k" if "l \<in> set (labels x)" for l
    proof -
      have "site l y k = None" using that alt1 by (intro site_none) auto
      then show ?thesis by (simp split: option.splits)
    qed
    then show ?case using alt1 by auto
  next
    case (alt2 g x y k)
    have "site l y k = site l (Alt g x y) k" if "l \<in> set (labels y)" for l
    proof -
      have "site l x k = None" using that alt2 by (intro site_none) auto
      then show ?thesis by simp
    qed
    then show ?case using alt2 by auto
  qed auto
  then show "distinct (labels s)" "set (labels s) \<subseteq> set (labels b)"
    and "l \<in> set (labels s) \<Longrightarrow> site l s k = site l b []" by auto
qed

text \<open>The local continuation stands for what is left to do.\<close>

definition stands_for :: "'v thread \<Rightarrow> lc_t \<Rightarrow> 'v task list \<Rightarrow> bool" where
  "stands_for b lc k \<longleftrightarrow> (if lc = 0 then k = [Todo b]
     else \<exists>t k'. site (unat lc) b [] = Some (t, k') \<and> k = kept_of t k')"

inductive goes_like :: "'v thread \<Rightarrow> 'v config \<Rightarrow> 'v task list \<times> 'v \<Rightarrow> bool" for b where
  normal: "rest b k \<Longrightarrow> goes_like b (map frame_of k @ after_switch, s) (k, vars s)"
| ended: "goes_like b ([Stm PT_END], s) ([], vars s)"
| resume: "site (unat (pt_lc s)) b [] = Some (t, k) \<Longrightarrow> pt_lc s \<noteq> 0 \<Longrightarrow> PT_YIELD_FLAG s = 1 \<Longrightarrow>
    goes_like b (Stm (resumed t) # map frame_of k @ after_switch, s) (kept_of t k, vars s)"

definition returns_like :: "'v thread \<Rightarrow> int \<times> lc_t \<times> 'v \<Rightarrow> int \<times> 'v task list \<times> 'v \<Rightarrow> bool" where
  "returns_like b = (\<lambda>(r, lc, v) (r', k, v'). r = r' \<and> stands_for b lc k \<and> v = v')"

lemma unat_label: "well_labelled b \<Longrightarrow> part b t k \<Longrightarrow> l \<in> set (labels t) \<Longrightarrow>
    unat (of_nat l :: lc_t) = l \<and> (of_nat l :: lc_t) \<noteq> 0"
  using part_site(2) [of b t k]
  by (auto simp: well_labelled_def list_all_iff unsigned_of_nat word_unat_eq_iff take_bit_nat_eq_self)

lemma stands_init [simp]: "stands_for b 0 k \<longleftrightarrow> k = [Todo b]"
  by (simp add: stands_for_def)

lemma stands_label:
  assumes "well_labelled b" "part b t k" "labels t = [l]"
    and t: "\<And>k. site l t k = Some (t, k)"
  shows "stands_for b (of_nat l) (kept_of t k)"
  using assms part_site(3) [of b t k l, symmetric] unat_label [of b t k l]
  by (auto simp: stands_for_def well_labelled_def)

lemma broken_frames: "broken (map frame_of k @ after_switch) = map frame_of (left k) @ after_switch \<or>
    left k = [] \<and> broken (map frame_of k @ after_switch) = [Stm PT_END]"
proof (induction k)
  case (Cons f k)
  then show ?case by (cases f) auto
qed simp

lemma goes_left: "rest b k \<Longrightarrow> goes_like b (broken (map frame_of k @ after_switch), s) (left k, vars s)"
  using broken_frames [of k] normal [OF rest_left, of b k s] ended [of b s] by auto

abbreviation corresponds :: "'v thread \<Rightarrow> nat \<Rightarrow> 'v config \<Rightarrow> 'v task list \<times> 'v \<Rightarrow> bool" where
  "corresponds b n c a \<equiv> matches (goes_like b) (returns_like b) (steps c_step n c) (co_step b a)"

lemma corresponds_wait:
  assumes "part b (Wait_until l g) k" "stands_for b (pt_lc s) (Todo (Wait_until l g) # k)"
  shows "corresponds b 2 (Stm (Cond (Negate (Test g)) (Ret PT_WAITING) Nop) # map frame_of k @ after_switch, s)
    (Todo (Wait_until l g) # k, vars s)"
  using assms normal [of b k "s\<lparr>vars := _\<rparr>"]
  by (auto simp: matches_def eval_nat_numeral returns_like_def dest: part_rest split: option.splits)

lemma corresponds_poll:
  assumes "rest b k" "stands_for b (pt_lc s) (Poll g # k)" "PT_YIELD_FLAG s = 1"
  shows "corresponds b 2 (Stm (Cond (Either Yield_flag_is_0 (Negate (Test g))) (Ret PT_YIELDED) Nop)
    # map frame_of k @ after_switch, s) (Poll g # k, vars s)"
  using assms normal [of b k "s\<lparr>vars := _\<rparr>"]
  by (auto simp: matches_def eval_nat_numeral returns_like_def split: option.splits)

lemma corresponds_after:
  "steps c_step m c = Some (Inl d) \<Longrightarrow> corresponds b n d a \<Longrightarrow> corresponds b (m + n) c a"
  using steps_add [of c_step m c d n] by simp

text \<open>One step of a statement that neither blocks nor returns.\<close>

lemma corresponds_plain:
  assumes t: "part b t j" and "labels t = [] \<or> (\<exists>x y. t = Thn x y) \<or> (\<exists>g x y. t = Alt g x y) \<or> (\<exists>g i x. t = Loop g i x)"
    and "t \<noteq> Restart" "t \<noteq> Exit"
  shows "corresponds b 1 (Stm (expand t) # map frame_of j @ after_switch, s) (Todo t # j, vars s)"
proof (cases t)
  case (Act h)
  then show ?thesis
    using normal [OF part_rest [OF t], of "s\<lparr>vars := _\<rparr>"] by (auto simp: matches_def split: option.splits)
next
  case (Thn x y)
  then show ?thesis
    using normal [of b "Todo x # Todo y # j" s] part.thn1 [of b x y j] t by (auto simp: matches_def)
next
  case (Alt g x y)
  then show ?thesis
    using normal [of b "Todo x # j" "s\<lparr>vars := _\<rparr>"] normal [of b "Todo y # j" "s\<lparr>vars := _\<rparr>"]
      part.alt1 [of b g x y j] part.alt2 [of b g x y j] t
    by (auto simp: matches_def split: option.splits)
next
  case (Loop g i x)
  then show ?thesis
    using normal [of b "Todo x # Again g i x # j" "s\<lparr>vars := _\<rparr>"] part.loop [of b g i x j] t
      normal [OF part_rest [OF t], of "s\<lparr>vars := _\<rparr>"]
    by (auto simp: matches_def split: option.splits)
next
  case Leave
  then show ?thesis using goes_left [OF part_rest [OF t], of s] by (simp add: matches_def)
qed (use assms in auto)

lemma corresponds_again:
  assumes "part b (Loop g i x) j"
  shows "corresponds b 1 (Round (Test g) i (expand x) # map frame_of j @ after_switch, s) (Again g i x # j, vars s)"
  using normal [of b "Todo (Loop g i x) # j" "s\<lparr>vars := _\<rparr>"] assms
  by (auto simp: matches_def split: option.splits)

lemma corresponds_block:
  assumes b: "well_labelled b" and t: "part b (Wait_until l g) j"
  shows "corresponds b (2 + 2) (Stm (PT_WAIT_UNTIL l g) # map frame_of j @ after_switch, s)
    (Todo (Wait_until l g) # j, vars s)"
proof (rule corresponds_after)
  let ?s = "s\<lparr>pt_lc := of_nat l\<rparr>"
  show "steps c_step 2 (Stm (PT_WAIT_UNTIL l g) # map frame_of j @ after_switch, s) =
      Some (Inl (Stm (Cond (Negate (Test g)) (Ret PT_WAITING) Nop) # map frame_of j @ after_switch, ?s))"
    by (simp add: eval_nat_numeral macros)
  show "corresponds b 2 (Stm (Cond (Negate (Test g)) (Ret PT_WAITING) Nop) # map frame_of j @ after_switch, ?s)
      (Todo (Wait_until l g) # j, vars s)"
    using corresponds_wait [OF t, of ?s] stands_label [OF b t] by simp
qed

text \<open>The statements that return.\<close>

lemma corresponds_return:
  assumes b: "well_labelled b" and t: "part b t j"
    and "(\<exists>l. t = Yield l) \<or> (\<exists>l g. t = Yield_until l g) \<or> t = Restart \<or> t = Exit"
  shows "corresponds b 6 (Stm (expand t) # map frame_of j @ after_switch, s) (Todo t # j, vars s)"
  using assms(3) stands_label [OF b t]
  by (auto simp: matches_def eval_nat_numeral macros returns_like_def)

lemma corresponds_todo:
  assumes "well_labelled b" "part b t j"
  shows "\<exists>n. corresponds b (Suc n) (Stm (expand t) # map frame_of j @ after_switch, s) (Todo t # j, vars s)"
proof (cases "\<exists>l g. t = Wait_until l g")
  case True
  then obtain l g where l: "t = Wait_until l g" by blast
  show ?thesis
    using corresponds_block [of b l g j s] assms l by (intro exI [of _ 3]) (simp del: steps.simps)
next
  case False
  note no_wait = this
  show ?thesis
  proof (cases "(\<exists>l. t = Yield l) \<or> (\<exists>l g. t = Yield_until l g) \<or> t = Restart \<or> t = Exit")
    case True
    from corresponds_return [OF assms True, of s] show ?thesis by (metis numeral_eq_Suc)
  next
    case False
    have "corresponds b 1 (Stm (expand t) # map frame_of j @ after_switch, s) (Todo t # j, vars s)"
      by (rule corresponds_plain) (use assms(2) no_wait False in \<open>cases t; auto\<close>)+
    then show ?thesis by (metis One_nat_def)
  qed
qed

lemma corresponds_normal:
  assumes b: "well_labelled b" and k: "rest b k"
  shows "\<exists>n. corresponds b (Suc n) (map frame_of k @ after_switch, s) (k, vars s)"
proof (cases k)
  case Nil
  have "corresponds b 6 (map frame_of k @ after_switch, s) (k, vars s)"
    by (simp add: Nil matches_def eval_nat_numeral macros returns_like_def)
  then show ?thesis by (metis numeral_eq_Suc)
next
  case (Cons f j)
  show ?thesis
  proof (cases f)
    case (Todo t)
    with corresponds_todo [OF b, of t j s] k Cons show ?thesis by simp
  next
    case (Again g i x)
    with corresponds_again [of b g i x j s] k Cons show ?thesis by (auto simp del: steps.simps)
  next
    case (Poll g)
    with k Cons show ?thesis by simp
  qed
qed

lemma corresponds_ended: "corresponds b 5 ([Stm PT_END], s) ([], vars s)"
  by (simp add: matches_def eval_nat_numeral macros returns_like_def)

lemma corresponds_resumed:
  assumes b: "well_labelled b" and t: "site (unat (pt_lc s)) b [] = Some (t, k)" and lc: "pt_lc s \<noteq> 0"
    and flag: "PT_YIELD_FLAG s = 1"
  shows "\<exists>n. corresponds b (Suc n) (Stm (resumed t) # map frame_of k @ after_switch, s) (kept_of t k, vars s)"
proof -
  have part: "part b t k" using site_part [OF part.whole t] .
  have stands: "stands_for b (pt_lc s) (kept_of t k)" using t lc by (auto simp: stands_for_def)
  from site_kind [OF t] consider (wait) l g where "t = Wait_until l g" | (yield) l where "t = Yield l" | (poll) l g where "t = Yield_until l g"
    by blast
  then show ?thesis
  proof cases
    case wait
    with corresponds_wait [of b l g k s] part stands show ?thesis by (metis kept_of.simps(1) resumed.simps(1) numeral_2_eq_2)
  next
    case poll
    with corresponds_poll [of b k s g] part_rest [OF part] stands flag show ?thesis
      by (metis kept_of.simps(2) resumed.simps(3) numeral_2_eq_2)
  next
    case yield
    have "steps c_step 2 (Stm (resumed t) # map frame_of k @ after_switch, s) = Some (Inl (map frame_of k @ after_switch, s))"
      using flag by (simp add: yield eval_nat_numeral)
    moreover from corresponds_normal [OF b part_rest [OF part], of s] obtain n
      where "corresponds b (Suc n) (map frame_of k @ after_switch, s) (k, vars s)" ..
    ultimately have "corresponds b (2 + Suc n) (Stm (resumed t) # map frame_of k @ after_switch, s) (k, vars s)"
      by (rule corresponds_after)
    then show ?thesis by (intro exI [of _ "Suc (Suc n)"]) (simp add: yield del: steps.simps)
  qed
qed

lemma goes_like_step: "well_labelled b \<Longrightarrow> goes_like b c a \<Longrightarrow> \<exists>n. corresponds b (Suc n) c a"
proof (erule goes_like.cases)
  fix s assume "c = ([Stm PT_END], s)" "a = ([], vars s)"
  then show ?thesis using corresponds_ended [of b s] by (metis numeral_eq_Suc)
qed (blast intro: corresponds_normal corresponds_resumed)+

lemma goes_like_begin: "stands_for b lc k \<Longrightarrow> goes_like b (PT_BEGIN (expand b) lc v) (k, v)"
  using normal [of b "[Todo b]" "\<lparr>pt_lc = lc, PT_YIELD_FLAG = 1, vars = v\<rparr>"] part.whole [of b]
    resume [of "\<lparr>pt_lc = lc, PT_YIELD_FLAG = 1, vars = v\<rparr>" b]
    c_case_site [of lc b "[]" after_switch]
  by (auto simp: stands_for_def PT_BEGIN_def split: if_splits)

text \<open>One call.\<close>

lemma thread_call_coroutine:
  assumes "well_labelled b" "stands_for b lc k"
  shows "rel_option (returns_like b) (PT_THREAD (expand b) lc v) (coroutine b k v)"
  unfolding PT_THREAD_def coroutine_def
proof (rule run_simulated)
  show "goes_like b (PT_BEGIN (expand b) lc v) (k, v)" using goes_like_begin [OF assms(2)] .
qed (rule goes_like_step [OF assms(1)])

lemma calls_coroutine:
  assumes "well_labelled b" "stands_for b lc k"
  shows "pt_calls (expand b) es lc v = co_calls b es k v"
  using assms(2)
proof (induction es arbitrary: lc k v)
  case (Cons e es)
  from thread_call_coroutine [OF assms(1) Cons.prems, of "e v"] show ?case
    by (cases rule: option.rel_cases) (auto simp: returns_like_def Cons.IH)
qed simp

text \<open>C5: Protothreads implement coroutines: a C function written with the macros of pt.h, whose switch
  jumps to a line number and may land inside loops and branches, gives at every call the result and
  the variables that a thread gives which keeps what it has left to do, for every sequence of calls
  with the rest of the program running in between. A call does not return for one exactly when it
  does not for the other. The macros stand on different lines below 65536.\<close>

theorem protothread_resumes: "well_labelled b \<Longrightarrow> pt_calls (expand b) es 0 v = co_calls b es [Todo b] v"
  by (rule calls_coroutine) simp_all

text \<open>The results of a sequence of calls do not tell the difference; nor does a single one.\<close>

lemma coroutine_call:
  assumes "well_labelled b" "stands_for b lc k" "coroutine b k v = Some (r, k', v')"
  shows "\<exists>lc'. PT_THREAD (expand b) lc v = Some (r, lc', v') \<and> stands_for b lc' k'"
  using thread_call_coroutine [OF assms(1,2), of v] assms(3)
  by (cases rule: option.rel_cases) (auto simp: returns_like_def)

text \<open>What all computations and conditions of a thread preserve, a call preserves.\<close>

definition test_keeps :: "('v \<Rightarrow> bool) \<Rightarrow> 'v test \<Rightarrow> bool" where
  "test_keeps P g \<longleftrightarrow> (\<forall>v b w. P v \<longrightarrow> g v = Some (b, w) \<longrightarrow> P w)"

definition act_keeps :: "('v \<Rightarrow> bool) \<Rightarrow> ('v \<Rightarrow> 'v option) \<Rightarrow> bool" where
  "act_keeps P f \<longleftrightarrow> (\<forall>v w. P v \<longrightarrow> f v = Some w \<longrightarrow> P w)"

primrec thread_keeps :: "('v \<Rightarrow> bool) \<Rightarrow> 'v thread \<Rightarrow> bool" where
  "thread_keeps P (Act f) \<longleftrightarrow> act_keeps P f"
| "thread_keeps P (Thn a b) \<longleftrightarrow> thread_keeps P a \<and> thread_keeps P b"
| "thread_keeps P (Alt g a b) \<longleftrightarrow> test_keeps P g \<and> thread_keeps P a \<and> thread_keeps P b"
| "thread_keeps P (Loop g i a) \<longleftrightarrow> test_keeps P g \<and> act_keeps P i \<and> thread_keeps P a"
| "thread_keeps P Leave \<longleftrightarrow> True"
| "thread_keeps P (Wait_until l g) \<longleftrightarrow> test_keeps P g"
| "thread_keeps P (Yield l) \<longleftrightarrow> True"
| "thread_keeps P (Yield_until l g) \<longleftrightarrow> test_keeps P g"
| "thread_keeps P Restart \<longleftrightarrow> True"
| "thread_keeps P Exit \<longleftrightarrow> True"

primrec task_keeps :: "('v \<Rightarrow> bool) \<Rightarrow> 'v task \<Rightarrow> bool" where
  "task_keeps P (Todo t) \<longleftrightarrow> thread_keeps P t"
| "task_keeps P (Again g i a) \<longleftrightarrow> thread_keeps P (Loop g i a)"
| "task_keeps P (Poll g) \<longleftrightarrow> test_keeps P g"

lemma left_keeps: "list_all (task_keeps P) k \<Longrightarrow> list_all (task_keeps P) (left k)"
  by (induction k rule: left.induct) auto

lemma runs_keepD: "act_keeps P f \<Longrightarrow> P v \<Longrightarrow> f v = Some w \<Longrightarrow> P w" "test_keeps P g \<Longrightarrow> P v \<Longrightarrow> g v = Some (b, w) \<Longrightarrow> P w"
  by (auto simp: act_keeps_def test_keeps_def)

lemma co_step_keeps:
  assumes "co_step b (k, v) = Some x" "thread_keeps P b" "list_all (task_keeps P) k"
  shows "case x of Inl (k', w) \<Rightarrow> list_all (task_keeps P) k' \<and> (P v \<longrightarrow> P w)
    | Inr (r, k', w) \<Rightarrow> list_all (task_keeps P) k' \<and> (P v \<longrightarrow> P w)"
  using assms by (cases "(b, (k, v))" rule: co_step.cases) (auto split: if_splits intro: left_keeps dest: runs_keepD)

lemma coroutine_keeps:
  assumes "coroutine b k v = Some (r, k', w)" "thread_keeps P b" "list_all (task_keeps P) k"
  shows "list_all (task_keeps P) k' \<and> (P v \<longrightarrow> P w)"
proof -
  have "steps (co_step b) n (k, v) = Some (Inr (r, k', w)) \<Longrightarrow> list_all (task_keeps P) k \<Longrightarrow>
      list_all (task_keeps P) k' \<and> (P v \<longrightarrow> P w)" for n
  proof (induction n arbitrary: k v)
    case (Suc n)
    from Suc.prems(1) obtain x where x: "co_step b (k, v) = Some x" by (auto split: option.splits)
    from co_step_keeps [OF x assms(2) Suc.prems(2)] x Suc.prems(1) show ?case
      by (cases x) (auto dest: Suc.IH)
  qed simp
  with run_some [of "co_step b" "(k, v)"] assms show ?thesis by (auto simp: coroutine_def)
qed

text \<open>A thread that counts: it waits for an even number, yields, and yields until the number is
  above ten, for ever.\<close>

definition counting :: "nat thread" where
  "counting = Loop (\<lambda>v. Some (True, v)) Some (Thn (Wait_until 11 (\<lambda>v. Some (even v, v)))
     (Thn (Act (\<lambda>v. Some (v + 1))) (Thn (Yield 12) (Yield_until 13 (\<lambda>v. Some (10 < v, v + 1))))))"

lemmas co_run = coroutine_def run.simps negated_def PT_SCHEDULE_def Wait_while_def Wait_thread_def

theorem protothread_resumes_witness:
  "well_labelled counting \<and> pt_calls (expand counting) [Suc, Suc, id, id, \<lambda>v. v + 10] 0 0 =
     Some [(PT_WAITING, 1), (PT_YIELDED, 3), (PT_YIELDED, 3), (PT_YIELDED, 4), (PT_WAITING, 15)]"
proof -
  have w: "well_labelled counting" by (simp add: well_labelled_def counting_def)
  have "co_calls counting [Suc, Suc, id, id, \<lambda>v. v + 10] [Todo counting] 0 =
     Some [(PT_WAITING, 1), (PT_YIELDED, 3), (PT_YIELDED, 3), (PT_YIELDED, 4), (PT_WAITING, 15)]"
    by (simp add: counting_def co_run)
  with w show ?thesis unfolding protothread_resumes [OF w] by blast
qed

end
