(* ===== verification/Mx_PtAddrlabels.thy ===== *)
theory Mx_PtAddrlabels
  imports Mx_Protothread
begin

text \<open>
  The other implementation of local continuations, \<open>pthread/lc-addrlabels.h\<close>: \<open>lc_t\<close> is the address of
  a C label, or null, and a thread is entered by a \<open>goto\<close> instead of a \<open>switch\<close>. The statements of
  \<open>Mx_Protothread\<close> are run with it, and shown to be the same threads, with the exception of a
  \<open>break\<close> outside of every loop, which here has nothing to leave.
\<close>

section \<open>Threads by label addresses\<close>

text \<open>An address stands for the line of its label: \<open>LC_LABEL\<close> has the line in its name.\<close>

type_synonym lc_addr = "nat option"

record 'v addr_activation =
  addr_lc :: lc_addr
  addr_yield_flag :: u8
  addr_vars :: "'v"

primrec addr_holds :: "'v guard \<Rightarrow> 'v addr_activation \<Rightarrow> (bool \<times> 'v addr_activation) option" where
  "addr_holds Yield_flag_is_0 s = Some (addr_yield_flag s = 0, s)"
| "addr_holds (Test f) s = map_option (\<lambda>(b, v). (b, s\<lparr>addr_vars := v\<rparr>)) (f (addr_vars s))"
| "addr_holds (Negate g) s = map_option (\<lambda>(b, t). (\<not> b, t)) (addr_holds g s)"
| "addr_holds (Either g h) s = (case addr_holds g s of None \<Rightarrow> None
     | Some (b, t) \<Rightarrow> if b then Some (True, t) else addr_holds h t)"

type_synonym 'v addr_config = "'v frame list \<times> 'v addr_activation"

text \<open>There is no \<open>switch\<close> to \<open>break\<close> out of: outside of every loop the statement is refused.\<close>

fun loop_left :: "'v frame list \<Rightarrow> 'v frame list option" where
  "loop_left [] = None"
| "loop_left (Round g i a # k) = Some k"
| "loop_left (f # k) = loop_left k"

fun addr_step :: "('v addr_config, int \<times> lc_addr \<times> 'v) machine" where
  "addr_step ([], s) = None"
| "addr_step (Stm Nop # k, s) = Some (Inl (k, s))"
| "addr_step (Stm (Basic f) # k, s) = map_option (\<lambda>v. Inl (k, s\<lparr>addr_vars := v\<rparr>)) (f (addr_vars s))"
| "addr_step (Stm (Sq a b) # k, s) = Some (Inl (Stm a # Stm b # k, s))"
| "addr_step (Stm (Cond g a b) # k, s) =
     map_option (\<lambda>(x, t). Inl (Stm (if x then a else b) # k, t)) (addr_holds g s)"
| "addr_step (Stm (For g i a) # k, s) =
     map_option (\<lambda>(x, t). Inl (if x then Stm a # Round g i a # k else k, t)) (addr_holds g s)"
| "addr_step (Stm Break # k, s) = map_option (\<lambda>k. Inl (k, s)) (loop_left k)"
| "addr_step (Stm (Ret r) # k, s) = Some (Inr (r, addr_lc s, addr_vars s))"
| "addr_step (Stm LC_INIT # k, s) = Some (Inl (k, s\<lparr>addr_lc := None\<rparr>))"
| "addr_step (Stm (LC_SET l) # k, s) = Some (Inl (k, s\<lparr>addr_lc := Some l\<rparr>))"
| "addr_step (Stm (Set_yield_flag x) # k, s) = Some (Inl (k, s\<lparr>addr_yield_flag := x\<rparr>))"
| "addr_step (Round g i a # k, s) =
     map_option (\<lambda>v. Inl (Stm (For g i a) # k, s\<lparr>addr_vars := v\<rparr>)) (i (addr_vars s))"
| "addr_step (Switch # k, s) = None"

text \<open>What is left to execute after the \<open>goto\<close>. The label is in front of the assignment, which is
  executed again. To jump to a label of another function is undefined.\<close>

fun go_to :: "nat \<Rightarrow> 'v stmt \<Rightarrow> 'v frame list \<Rightarrow> 'v frame list option" where
  "go_to n (LC_SET l) k = (if l = n then Some (Stm (LC_SET l) # k) else None)"
| "go_to n (Sq a b) k = (case go_to n a (Stm b # k) of None \<Rightarrow> go_to n b k | x \<Rightarrow> x)"
| "go_to n (Cond g a b) k = (case go_to n a k of None \<Rightarrow> go_to n b k | x \<Rightarrow> x)"
| "go_to n (For g i a) k = go_to n a (Round g i a # k)"
| "go_to n _ k = None"

definition addr_begin :: "'v stmt \<Rightarrow> lc_addr \<Rightarrow> 'v \<Rightarrow> 'v addr_config option" where
  "addr_begin body lc v = map_option (\<lambda>k. (k, \<lparr>addr_lc = lc, addr_yield_flag = 1, addr_vars = v\<rparr>))
     (case lc of None \<Rightarrow> Some [Stm body, Stm PT_END] | Some l \<Rightarrow> go_to l body [Stm PT_END])"

definition addr_thread :: "'v stmt \<Rightarrow> lc_addr \<Rightarrow> 'v \<Rightarrow> (int \<times> lc_addr \<times> 'v) option" where
  "addr_thread body lc v = (case addr_begin body lc v of None \<Rightarrow> None | Some c \<Rightarrow> run addr_step c)"

primrec addr_calls :: "'v stmt \<Rightarrow> ('v \<Rightarrow> 'v) list \<Rightarrow> lc_addr \<Rightarrow> 'v \<Rightarrow> (int \<times> 'v) list option" where
  "addr_calls body [] lc v = Some []"
| "addr_calls body (e # es) lc v = (case addr_thread body lc (e v) of None \<Rightarrow> None
     | Some (r, lc, v) \<Rightarrow> map_option ((#) (r, v)) (addr_calls body es lc v))"

section \<open>Where the two agree\<close>

text \<open>The lines of \<open>LC_SET\<close>, and that every \<open>break\<close> is in a loop.\<close>

fun lines_of :: "'v stmt \<Rightarrow> nat list" where
  "lines_of (LC_SET l) = [l]"
| "lines_of (Sq a b) = lines_of a @ lines_of b"
| "lines_of (Cond g a b) = lines_of a @ lines_of b"
| "lines_of (For g i a) = lines_of a"
| "lines_of _ = []"

fun breaks_inside :: "bool \<Rightarrow> 'v stmt \<Rightarrow> bool" where
  "breaks_inside loop Break = loop"
| "breaks_inside loop (Sq a b) = (breaks_inside loop a \<and> breaks_inside loop b)"
| "breaks_inside loop (Cond g a b) = (breaks_inside loop a \<and> breaks_inside loop b)"
| "breaks_inside loop (For g i a) = breaks_inside True a"
| "breaks_inside loop _ = True"

definition line_ok :: "nat \<Rightarrow> bool" where
  "line_ok l \<longleftrightarrow> 0 < l \<and> l < 2 ^ 16"

definition portable :: "'v stmt \<Rightarrow> bool" where
  "portable body \<longleftrightarrow> breaks_inside False body \<and> list_all line_ok (lines_of body)"

text \<open>The same for what is left to execute inside of the \<open>switch\<close>.\<close>

fun in_loop :: "'v frame list \<Rightarrow> bool" where
  "in_loop [] = False"
| "in_loop (Round g i a # k) = True"
| "in_loop (f # k) = in_loop k"

fun left_ok :: "nat set \<Rightarrow> 'v frame list \<Rightarrow> bool" where
  "left_ok L [] = True"
| "left_ok L (Stm s # k) = (breaks_inside (in_loop k) s \<and> set (lines_of s) \<subseteq> L \<and> left_ok L k)"
| "left_ok L (Round g i a # k) = (breaks_inside True a \<and> set (lines_of a) \<subseteq> L \<and> left_ok L k)"
| "left_ok L (Switch # k) = False"

definition same_lc :: "nat set \<Rightarrow> lc_t \<Rightarrow> lc_addr \<Rightarrow> bool" where
  "same_lc L w p \<longleftrightarrow> (case p of None \<Rightarrow> w = 0 | Some l \<Rightarrow> w = of_nat l \<and> l \<in> L)"

definition same_act :: "nat set \<Rightarrow> 'v activation \<Rightarrow> 'v addr_activation \<Rightarrow> bool" where
  "same_act L s t \<longleftrightarrow> same_lc L (pt_lc s) (addr_lc t) \<and> PT_YIELD_FLAG s = addr_yield_flag t \<and> vars s = addr_vars t"

definition same_return :: "nat set \<Rightarrow> int \<times> lc_t \<times> 'v \<Rightarrow> int \<times> lc_addr \<times> 'v \<Rightarrow> bool" where
  "same_return L r q \<longleftrightarrow> fst r = fst q \<and> same_lc L (fst (snd r)) (fst (snd q)) \<and> snd (snd r) = snd (snd q)"

text \<open>Configurations that differ in what comes behind.\<close>

definition same_left :: "nat set \<Rightarrow> 'v frame list \<Rightarrow> 'v frame list \<Rightarrow> 'v config \<Rightarrow> 'v addr_config \<Rightarrow> bool" where
  "same_left L X Y c d \<longleftrightarrow> (\<exists>k. left_ok L k \<and> fst c = k @ X \<and> fst d = k @ Y \<and> same_act L (snd c) (snd d))"

lemma same_leftI: "left_ok L k \<Longrightarrow> same_act L s t \<Longrightarrow> same_left L X Y (k @ X, s) (k @ Y, t)"
  by (auto simp: same_left_def)

lemma holds_same:
  "same_act L s t \<Longrightarrow> rel_option (rel_prod (=) (same_act L)) (holds g s) (addr_holds g t)"
proof (induction g arbitrary: s t)
  case (Test f)
  then show ?case by (cases "f (vars s)") (auto simp: same_act_def)
next
  case (Negate g)
  from Negate.IH [OF Negate.prems] show ?case by (cases rule: option.rel_cases) auto
next
  case (Either g h)
  from Either.IH(1) [OF Either.prems] show ?case
    by (cases rule: option.rel_cases) (auto intro: Either.IH(2))
qed (simp add: same_act_def)

lemma left_in_loop:
  "in_loop k \<Longrightarrow> left_ok L k \<Longrightarrow> \<exists>k'. broken (k @ X) = k' @ X \<and> loop_left (k @ Y) = Some (k' @ Y) \<and> left_ok L k'"
  by (induction k rule: in_loop.induct) auto

lemma same_left_step:
  assumes "left_ok L (f # k)" "same_act L s t"
  shows "rel_option (rel_sum (same_left L X Y) (same_return L)) (c_step (f # k @ X, s)) (addr_step (f # k @ Y, t))"
proof -
  note I = same_leftI [of L _ _ _ X Y]
  from assms(2) have v: "vars s = addr_vars t" by (simp add: same_act_def)
  show ?thesis
  proof (cases f)
    case (Stm a)
    show ?thesis
    proof (cases a)
      case (Basic h)
      with Stm assms v I [of k "s\<lparr>vars := w\<rparr>" "t\<lparr>addr_vars := w\<rparr>" for w] show ?thesis
        by (cases "h (addr_vars t)") (auto simp: same_act_def)
    next
      case (Sq x y)
      with Stm assms I [of "Stm x # Stm y # k" s t] show ?thesis by simp
    next
      case (Cond g x y)
      from holds_same [OF assms(2), of g] show ?thesis
        using Stm Cond assms I [of "Stm (if b then x else y) # k" for b]
        by (cases rule: option.rel_cases) auto
    next
      case (For g i x)
      from holds_same [OF assms(2), of g] show ?thesis
        using Stm For assms I [of k] I [of "Stm x # Round g i x # k"]
        by (cases rule: option.rel_cases) auto
    next
      case Break
      with Stm assms left_in_loop [of k L X Y] I show ?thesis by auto
    qed (use Stm assms I [of k] in \<open>auto simp: same_act_def same_return_def same_lc_def intro!: same_leftI\<close>)
  next
    case (Round g i a)
    with assms v I [of "Stm (For g i a) # k" "s\<lparr>vars := w\<rparr>" "t\<lparr>addr_vars := w\<rparr>" for w] show ?thesis
      by (cases "i (addr_vars t)") (auto simp: same_act_def)
  qed (use assms in simp)
qed

definition goes_same :: "nat set \<Rightarrow> 'v config \<Rightarrow> 'v addr_config \<Rightarrow> bool" where
  "goes_same L c d \<longleftrightarrow> same_left L [Switch, Stm PT_END] [Stm PT_END] c d \<or> same_left L [] [] c d"

lemma goes_sameI:
  "rel_option (rel_sum (same_left L [Switch, Stm PT_END] [Stm PT_END]) (same_return L)) x y \<Longrightarrow> matches (goes_same L) (same_return L) x y"
  "rel_option (rel_sum (same_left L [] []) (same_return L)) x y \<Longrightarrow> matches (goes_same L) (same_return L) x y"
  unfolding matches_def
  by (auto simp: goes_same_def elim!: option.rel_mono_strong sum.rel_mono_strong)

lemma steps_one: "steps m (Suc 0) c = m c"
  by (simp split: option.splits sum.splits)

lemma left_ok_end: "left_ok L [Stm PT_END]"
  by (simp add: PT_END_def PT_INIT_def)

lemma goes_same_step: "goes_same L c d \<Longrightarrow> \<exists>n. matches (goes_same L) (same_return L) (steps c_step (Suc n) c) (addr_step d)"
  unfolding goes_same_def [of L c d]
proof (elim disjE)
  assume "same_left L [Switch, Stm PT_END] [Stm PT_END] c d"
  then obtain k s t where k: "left_ok L k" "same_act L s t" and c: "c = (k @ [Switch, Stm PT_END], s)" "d = (k @ [Stm PT_END], t)"
    by (cases c; cases d) (auto simp: same_left_def)
  show ?thesis
  proof (cases k)
    case Nil
    have "steps c_step (Suc (Suc 0)) c = c_step (Stm PT_END # [] @ [], s)"
      by (simp add: c Nil split: option.splits sum.splits)
    with same_left_step [OF left_ok_end k(2), of "[]" "[]"] have
      "matches (goes_same L) (same_return L) (steps c_step (Suc (Suc 0)) c) (addr_step d)"
      by (simp add: c Nil goes_sameI(2) del: steps.simps)
    then show ?thesis by blast
  next
    case (Cons f k')
    with same_left_step [of L f k' s t "[Switch, Stm PT_END]" "[Stm PT_END]"] k c show ?thesis
      by (intro exI [of _ 0]) (simp add: steps_one goes_sameI(1) del: steps.simps)
  qed
next
  assume "same_left L [] [] c d"
  then obtain k s t where k: "left_ok L k" "same_act L s t" and c: "c = (k, s)" "d = (k, t)"
    by (cases c; cases d) (auto simp: same_left_def)
  show ?thesis
  proof (cases k)
    case (Cons f k')
    with same_left_step [of L f k' s t "[]" "[]"] k c show ?thesis
      by (intro exI [of _ 0]) (simp add: steps_one goes_sameI(2) del: steps.simps)
  qed (simp add: c matches_def)
qed

text \<open>The \<open>switch\<close> and the \<open>goto\<close> reach the same place.\<close>

lemma c_case_go_to:
  "breaks_inside (in_loop k) b \<Longrightarrow> left_ok L k \<Longrightarrow> set (lines_of b) \<subseteq> L \<Longrightarrow>
   if unat w \<in> set (lines_of b)
   then \<exists>k'. c_case w b (k @ X) = Some (k' @ X) \<and> go_to (unat w) b (k @ Y) = Some (Stm (LC_SET (unat w)) # k' @ Y) \<and> left_ok L k'
   else c_case w b (k @ X) = None \<and> go_to (unat w) b (k @ Y) = None"
proof (induction b arbitrary: k)
  case (Sq a b)
  from Sq.IH(1) [of "Stm b # k"] Sq.IH(2) [of k] Sq.prems show ?case by (auto split: if_splits)
next
  case (Cond g a b)
  from Cond.IH [of k] Cond.prems show ?case by (auto split: if_splits)
next
  case (For g i a)
  from For.IH [of "Round g i a # k"] For.prems show ?case by (auto split: if_splits)
qed auto

lemma addr_thread_same:
  assumes body: "portable body" and L: "L = set (lines_of body)" and lc: "same_lc L w p"
  shows "rel_option (same_return L) (PT_THREAD body w v) (addr_thread body p v)"
proof -
  let ?s = "\<lparr>pt_lc = w, PT_YIELD_FLAG = 1, vars = v\<rparr>" and ?t = "\<lparr>addr_lc = p, addr_yield_flag = 1, addr_vars = v\<rparr>"
  have st: "same_act L ?s ?t" using lc by (simp add: same_act_def)
  have sim: "rel_option (same_return L) (run c_step (k @ [Switch, Stm PT_END], ?s)) (run addr_step (k @ [Stm PT_END], ?t))"
    if "left_ok L k" for k
    by (rule run_simulated [OF goes_same_step]) (use that st in \<open>auto simp: goes_same_def intro: same_leftI\<close>)
  from body have inside: "breaks_inside False body" "\<And>l. l \<in> L \<Longrightarrow> line_ok l" by (auto simp: portable_def L list_all_iff)
  show ?thesis
  proof (cases p)
    case None
    with lc sim [of "[Stm body]"] inside L show ?thesis
      by (simp add: same_lc_def PT_THREAD_def PT_BEGIN_def addr_thread_def addr_begin_def)
  next
    case (Some l)
    with lc have w: "w = of_nat l" "l \<in> L" by (auto simp: same_lc_def)
    with inside(2) have l: "unat w = l" "w \<noteq> 0" by (auto simp: line_ok_def unat_of_nat word_of_nat_eq_0_iff dest: nat_dvd_not_less)
    from c_case_go_to [of "[]" body L w "[Switch, Stm PT_END]" "[Stm PT_END]"] inside(1) w(2) l(1) L obtain k where
      k: "c_case w body [Switch, Stm PT_END] = Some (k @ [Switch, Stm PT_END])"
      "go_to l body [Stm PT_END] = Some (Stm (LC_SET l) # k @ [Stm PT_END])" "left_ok L k" by auto
    have "run addr_step (Stm (LC_SET l) # k @ [Stm PT_END], ?t) = run addr_step (k @ [Stm PT_END], ?t)"
      by (rule run_step) (simp add: Some)
    with sim [OF k(3)] k l Some show ?thesis
      by (simp add: PT_THREAD_def PT_BEGIN_def addr_thread_def addr_begin_def)
  qed
qed

lemma addr_calls_same:
  "portable body \<Longrightarrow> same_lc (set (lines_of body)) w p \<Longrightarrow> addr_calls body es p v = pt_calls body es w v"
proof (induction es arbitrary: w p v)
  case (Cons e es)
  from addr_thread_same [OF Cons.prems(1) refl Cons.prems(2), of "e v"] show ?case
    by (cases rule: option.rel_cases) (auto simp: same_return_def Cons)
qed simp

text \<open>C13: The two implementations of local continuations give the same threads: a body whose macros
  stand on lines from 1 to 65535 and whose breaks are all in loops has the same result and the same
  variables at every call, in every sequence of calls, and fails to return at the same call, whether
  it is entered by the switch of lc-switch.h on a line number or by the goto of lc-addrlabels.h to
  the address of a label.\<close>

theorem addrlabels_same_threads:
  assumes "portable body"
  shows "addr_calls body es None v = pt_calls body es 0 v"
  using assms by (rule addr_calls_same) (simp add: same_lc_def)

text \<open>So the threads made of the macros of \<open>pt.h\<close> are coroutines with these local continuations too.\<close>

fun leaves_inside :: "bool \<Rightarrow> 'v thread \<Rightarrow> bool" where
  "leaves_inside loop Leave = loop"
| "leaves_inside loop (Thn a b) = (leaves_inside loop a \<and> leaves_inside loop b)"
| "leaves_inside loop (Alt g a b) = (leaves_inside loop a \<and> leaves_inside loop b)"
| "leaves_inside loop (Loop g i a) = leaves_inside True a"
| "leaves_inside loop _ = True"

lemma expand_portable: "well_labelled b \<Longrightarrow> leaves_inside False b \<Longrightarrow> portable (expand b)"
proof -
  have "lines_of (expand b) = labels b" by (induction b) (simp_all add: macros)
  moreover have "leaves_inside i b \<Longrightarrow> breaks_inside i (expand b)" for i
    by (induction i b rule: leaves_inside.induct) (simp_all add: macros)
  ultimately show "well_labelled b \<Longrightarrow> leaves_inside False b \<Longrightarrow> ?thesis"
    by (auto simp: portable_def well_labelled_def line_ok_def list_all_iff)
qed

lemma addr_coroutine:
  "well_labelled b \<Longrightarrow> leaves_inside False b \<Longrightarrow> addr_calls (expand b) es None v = co_calls b es [Todo b] v"
  using addr_calls_same [OF expand_portable, of b 0 None es v] calls_coroutine [of b 0 "[Todo b]" es v] by (simp add: same_lc_def)

text \<open>A consumer of numbers that waits in a loop and leaves it by a \<open>break\<close> inside of a branch.\<close>

definition leaving :: "nat stmt" where
  "leaving = Sq (For (Test (\<lambda>v. Some (True, v))) Some
       (Sq (PT_WAIT_UNTIL 21 (\<lambda>v. Some (0 < v, v))) (Cond (Test (\<lambda>v. Some (9 < v, v))) Break (Basic (\<lambda>v. Some (v - 1))))))
     (Sq (PT_YIELD 24) PT_EXIT)"

theorem addrlabels_same_threads_witness:
  "portable leaving \<and> addr_calls leaving [Suc, \<lambda>v. v + 2, \<lambda>v. v + 12, id] None 0 =
     Some [(PT_WAITING, 0), (PT_WAITING, 0), (PT_YIELDED, 12), (PT_EXITED, 12)]"
proof -
  have p: "portable leaving"
    by (simp add: portable_def leaving_def PT_WAIT_UNTIL_def PT_YIELD_def PT_EXIT_def PT_INIT_def line_ok_def)
  have "pt_calls leaving [Suc, \<lambda>v. v + 2, \<lambda>v. v + 12, id] 0 0 =
     Some [(PT_WAITING, 0), (PT_WAITING, 0), (PT_YIELDED, 12), (PT_EXITED, 12)]"
    by (simp add: leaving_def macros PT_THREAD_def PT_BEGIN_def run.simps)
  with p show ?thesis unfolding addrlabels_same_threads [OF p] by blast
qed

text \<open>A \<open>break\<close> outside of every loop ends the thread with \<open>lc-switch.h\<close>, whose \<open>switch\<close> it leaves.\<close>

theorem stray_break_ends: "pt_calls (Sq Break (Basic (\<lambda>v. Some (v + 1)))) [id] 0 (0 :: nat) = Some [(PT_ENDED, 0)]"
  "addr_calls (Sq Break (Basic (\<lambda>v. Some (v + 1)))) [id] None (0 :: nat) = None"
  by (simp_all add: PT_THREAD_def PT_BEGIN_def addr_thread_def addr_begin_def PT_END_def PT_INIT_def run.simps)

end
