(* ===== verification/Mx_PtActors.thy ===== *)
theory Mx_PtActors
  imports Mx_Actors Mx_Protothread
begin

unbundle bit_operations_syntax

text \<open>
  Processes written as protothreads, with the macros of \<open>core/process.h\<close>, and run by the scheduler.
  The scheduler keeps the local continuation in the process and hands it to the thread; the two
  refinements, of the mail by the scheduler and of coroutines by protothreads, compose to one of an
  abstract machine in which each process is a thread of its own that blocks for the next letter.
\<close>

section \<open>The macros of process.h\<close>

text \<open>One call of a thread: its parameters \<open>ev\<close> and \<open>msg\<close>, the bytes of the message, the variables of
  the application, and the letters sent so far. A thread does not look at whether they are accepted.\<close>

record 'w turn =
  t_ev :: u8
  t_msg :: "u8 list"
  t_world :: 'w
  t_out :: "letter list"

definition turn_of :: "u8 \<Rightarrow> u8 list \<Rightarrow> 'w \<Rightarrow> 'w turn" where
  "turn_of ev bs w = \<lparr>t_ev = ev, t_msg = bs, t_world = w, t_out = []\<rparr>"

definition send :: "nat option \<Rightarrow> u8 list \<Rightarrow> 'w turn \<Rightarrow> 'w turn option" where
  "send q bs v = Some (v\<lparr>t_out := t_out v @ [(q, bs)]\<rparr>)"

definition PROCESS_YIELD :: "nat \<Rightarrow> 'w turn stmt" where "PROCESS_YIELD l = PT_YIELD l"

definition PROCESS_YIELD_UNTIL :: "nat \<Rightarrow> 'w turn test \<Rightarrow> 'w turn stmt" where
  "PROCESS_YIELD_UNTIL l c = PT_YIELD_UNTIL l c"

definition PROCESS_WAIT_EVENT :: "nat \<Rightarrow> 'w turn stmt" where "PROCESS_WAIT_EVENT l = PROCESS_YIELD l"

definition PROCESS_WAIT_EVENT_UNTIL :: "nat \<Rightarrow> 'w turn test \<Rightarrow> 'w turn stmt" where
  "PROCESS_WAIT_EVENT_UNTIL l c = PROCESS_YIELD_UNTIL l c"

definition PROCESS_WAIT_UNTIL :: "nat \<Rightarrow> 'w turn test \<Rightarrow> 'w turn stmt" where
  "PROCESS_WAIT_UNTIL l c = PT_WAIT_UNTIL l c"

definition PROCESS_WAIT_WHILE :: "nat \<Rightarrow> 'w turn test \<Rightarrow> 'w turn stmt" where
  "PROCESS_WAIT_WHILE l c = PT_WAIT_WHILE l c"

definition PROCESS_EXIT :: "'w turn stmt" where "PROCESS_EXIT = PT_EXIT"

definition PROCESS_PT_SPAWN :: "nat \<Rightarrow> (lc_t \<Rightarrow> 'w turn \<Rightarrow> 'w turn) \<Rightarrow> ('w turn \<Rightarrow> (int \<times> 'w turn) option) \<Rightarrow> 'w turn stmt" where
  "PROCESS_PT_SPAWN l pt thread = PT_SPAWN l pt thread"

definition PROCESS_PAUSE :: "nat \<Rightarrow> nat \<Rightarrow> 'w turn stmt" where
  "PROCESS_PAUSE self l = Sq (Basic (send (Some self) [PROCESS_EV_CONTINUE]))
     (PROCESS_WAIT_EVENT_UNTIL l (\<lambda>v. Some (t_ev v = PROCESS_EV_CONTINUE, v)))"

text \<open>The function of the process \<open>self\<close>: \<open>PROCESS_BEGIN\<close>, the body, \<open>PROCESS_END\<close>.\<close>

definition PROCESS_THREAD :: "(nat \<Rightarrow> 'w turn stmt) \<Rightarrow> 'w program" where
  "PROCESS_THREAD body th self ev m =
     (let continue = (\<lambda>bs. Call GetLc (\<lambda>l. case l of
            Num lc \<Rightarrow> Mx_Process.Act (\<lambda>w. case PT_THREAD (body self) (of_nat lc) (turn_of ev bs w) of
                None \<Rightarrow> (w, Stuck)
              | Some (r, lc', v) \<Rightarrow> (t_world v, Call (SetLc lc') (\<lambda>_. send_all r (t_out v))))
          | _ \<Rightarrow> Stuck))
      in case m of NullMsg \<Rightarrow> continue []
         | OnStack bs _ \<Rightarrow> continue bs
         | Pooled a \<Rightarrow> Call (MsgRead a) (\<lambda>r. case r of Bytes bs \<Rightarrow> continue bs | _ \<Rightarrow> Stuck))"

section \<open>Processes as coroutines\<close>

definition Pause :: "nat \<Rightarrow> nat \<Rightarrow> 'w turn Mx_Protothread.thread" where
  "Pause self l = Thn (Mx_Protothread.Act (send (Some self) [PROCESS_EV_CONTINUE]))
     (Yield_until l (\<lambda>v. Some (t_ev v = PROCESS_EV_CONTINUE, v)))"

lemma expand_process [simp]:
  "expand (Yield l) = PROCESS_YIELD l" "expand (Yield_until l c) = PROCESS_WAIT_EVENT_UNTIL l c"
  "expand (Wait_until l c) = PROCESS_WAIT_UNTIL l c" "expand (Pause self l) = PROCESS_PAUSE self l"
  by (simp_all add: Pause_def PROCESS_YIELD_def PROCESS_WAIT_EVENT_UNTIL_def PROCESS_YIELD_UNTIL_def
      PROCESS_WAIT_UNTIL_def PROCESS_PAUSE_def)

definition pt_role :: "(nat \<Rightarrow> 'w turn Mx_Protothread.thread) \<Rightarrow> ('w, 'w turn task list) role" where
  "pt_role b p bs k w = map_option (\<lambda>(r, k, v). (t_world v, k, r, t_out v))
     (coroutine (b p) k (turn_of (bs ! 0) bs w))"

text \<open>At every letter each process blocks again, having sent proper letters, as long as \<open>J\<close> holds.\<close>

definition polite :: "nat list \<Rightarrow> (nat \<Rightarrow> 'w turn Mx_Protothread.thread) \<Rightarrow> ('w \<times> (nat \<Rightarrow> 'w turn task list) \<Rightarrow> bool) \<Rightarrow> bool" where
  "polite ps b J \<longleftrightarrow> (\<forall>p\<in>set ps. \<forall>q bs x. proper ps (q, bs) \<longrightarrow> J x \<longrightarrow>
     (\<exists>w k r out. pt_role b p bs (snd x p) (fst x) = Some (w, k, r, out) \<and> r < PT_EXITED \<and>
        (\<forall>y\<in>set out. proper ps y) \<and> J (w, (snd x)(p := k))))"

interpretation processes: players ps "PROCESS_THREAD (\<lambda>p. expand (b p))" "pt_role b"
    "\<lambda>p lc k. well_labelled (b p) \<and> stands_for (b p) lc k" "\<lambda>x. polite ps b J \<and> J x" for ps b J
proof
  fix p k m w k' r out K th and s :: "'a sys"
  let ?bs = "msg_content (s_heap s m)"
  assume lc: "well_labelled (b p) \<and> stands_for (b p) (p_lc (procs s p)) k" and ne: "?bs \<noteq> []"
    and role: "pt_role b p ?bs k (s_world s) = Some (w, k', r, out)"
  then obtain v where "coroutine (b p) k (turn_of (msg_type (s_heap s m)) ?bs (s_world s)) = Some (r, k', v)"
    and v: "w = t_world v" "out = t_out v"
    by (auto simp: pt_role_def msg_type_content)
  from coroutine_call [OF _ _ this(1)] lc obtain lc' where
    pt: "PT_THREAD (expand (b p)) (p_lc (procs s p)) (turn_of (msg_type (s_heap s m)) ?bs (s_world s)) = Some (r, lc', v)"
      "stands_for (b p) lc' k'" by blast
  have "exec (api_do K p) (PROCESS_THREAD (\<lambda>p. expand (b p)) th p (msg_type (s_heap s m)) (Pooled m)) s =
      exec (api_do K p) (send_all r out) (upd_proc p (\<lambda>q. q\<lparr>p_lc := lc'\<rparr>) (s\<lparr>s_world := w\<rparr>))"
    using pt(1) v by (simp add: PROCESS_THREAD_def)
  with pt(2) lc show "\<exists>lc. (well_labelled (b p) \<and> stands_for (b p) lc k') \<and>
      exec (api_do K p) (PROCESS_THREAD (\<lambda>p. expand (b p)) th p (msg_type (s_heap s m)) (Pooled m)) s =
      exec (api_do K p) (send_all r out) (upd_proc p (\<lambda>q. q\<lparr>p_lc := lc\<rparr>) (s\<lparr>s_world := w\<rparr>))" by blast
next
  fix p q bs and x :: "'a \<times> (nat \<Rightarrow> 'a turn task list)"
  assume "p \<in> set ps" "proper ps (q, bs)" "polite ps b J \<and> J x"
  then show "\<exists>w k r out. pt_role b p bs (snd x p) (fst x) = Some (w, k, r, out) \<and> r < PT_EXITED \<and>
      (\<forall>y\<in>set out. proper ps y) \<and> polite ps b J \<and> J (w, (snd x)(p := k))"
    unfolding polite_def by blast
qed

text \<open>C4: Processes written with the macros of process.h and run by the scheduler implement, exactly, an
  abstract machine in which each process is a thread of its own: it keeps what it has left to do,
  blocks for the next letter, goes on where it was, and each letter it sends is appended to one FIFO
  queue exactly if the pool has a chunk for it; the chunk of a letter is released after its
  receivers ran. Every main loop iteration returns, the pool and the letters are those of the
  machine, and the local continuation in each process stands for where its thread is. The threads
  send messages without looking at the result, and at each letter block again, under an invariant J
  of the variables and positions; they do not end.\<close>

theorem process_threads_refine:
  assumes "\<forall>p\<in>set ps. well_labelled (b p)" "polite ps b J" "office ps s ms"
    "\<forall>p\<in>set ps. stands_for (b p) (p_lc (procs s p)) (ks p)" "J (s_world s, ks)" "list_all (office_op ps) ops"
  shows "\<exists>t ms' ks'. main_run (nested (PROCESS_THREAD (\<lambda>p. expand (b p))) (Suc n)) ops s = Some t \<and> office ps t ms' \<and>
    (\<forall>p\<in>set ps. stands_for (b p) (p_lc (procs t p)) (ks' p)) \<and> J (s_world t, ks') \<and>
    mail_run (perform (pt_role b)) ps ops (box_of s ms, (s_world s, ks)) = Some (box_of t ms', (s_world t, ks'))"
proof -
  have "processes.open_office ps b J s ms ks"
    unfolding processes.open_office_def processes.stand_def using assms(1-5) by blast
  from processes.office_refines [OF this assms(6), of n] show ?thesis
    unfolding processes.open_office_def processes.stand_def by blast
qed

section \<open>An application\<close>

text \<open>Process 1 waits for event 0x30, pauses, and sends event 0x31 to process 2; process 2 records the
  events that it gets.\<close>

definition ev_is :: "u8 \<Rightarrow> 'w turn test" where
  "ev_is e v = Some (t_ev v = e, v)"

definition forever :: "'v test" where
  "forever v = Some (True, v)"

definition record_event :: "u8 list turn \<Rightarrow> u8 list turn option" where
  "record_event v = Some (v\<lparr>t_world := t_world v @ [t_ev v]\<rparr>)"

definition pausing :: "u8 list turn Mx_Protothread.thread" where
  "pausing = Thn (Yield_until 21 (ev_is 0x30)) (Thn (Pause 1 22) (Mx_Protothread.Act (send (Some 2) [0x31])))"

definition recording :: "u8 list turn Mx_Protothread.thread" where
  "recording = Thn (Yield 31) (Mx_Protothread.Act record_event)"

definition demo_threads :: "nat \<Rightarrow> u8 list turn Mx_Protothread.thread" where
  "demo_threads p = Loop forever Some (if p = 1 then pausing else recording)"

definition at_event :: "u8 list turn task list" where
  "at_event = [Poll (ev_is 0x30), Todo (Thn (Pause 1 22) (Mx_Protothread.Act (send (Some 2) [0x31]))), Again forever Some pausing]"

definition at_pause :: "u8 list turn task list" where
  "at_pause = [Poll (ev_is PROCESS_EV_CONTINUE), Todo (Mx_Protothread.Act (send (Some 2) [0x31])), Again forever Some pausing]"

definition at_yield :: "u8 list turn task list" where
  "at_yield = [Todo (Mx_Protothread.Act record_event), Again forever Some recording]"

lemmas demo_role = pt_role_def coroutine_def run.simps [of "co_step _"] demo_threads_def pausing_def recording_def at_event_def at_pause_def
  at_yield_def Pause_def ev_is_def [abs_def] forever_def [abs_def] send_def [abs_def] record_event_def [abs_def] turn_of_def

lemma demo_role_1:
  "pt_role demo_threads (Suc 0) bs at_event w = Some (if bs ! 0 = 0x30 then (w, at_pause, PT_YIELDED, [(Some 1, [PROCESS_EV_CONTINUE])])
     else (w, at_event, PT_YIELDED, []))"
  "pt_role demo_threads (Suc 0) bs at_pause w = Some (if bs ! 0 = PROCESS_EV_CONTINUE then (w, at_event, PT_YIELDED, [(Some 2, [0x31])])
     else (w, at_pause, PT_YIELDED, []))"
  by (cases "bs ! 0 = 0x30"; cases "bs ! 0 = PROCESS_EV_CONTINUE"; simp add: demo_role)+

lemma demo_role_2: "pt_role demo_threads 2 bs at_yield w = Some (w @ [bs ! 0], at_yield, PT_YIELDED, [])"
  by (simp add: demo_role)

definition demo_inv :: "u8 list \<times> (nat \<Rightarrow> u8 list turn task list) \<Rightarrow> bool" where
  "demo_inv x \<longleftrightarrow> snd x 1 \<in> {at_event, at_pause} \<and> snd x 2 = at_yield"

lemma demo_polite: "polite [2, 1] demo_threads demo_inv"
  by (auto simp: polite_def demo_inv_def demo_role_1 demo_role_2 proper_def)

lemma demo_labelled: "well_labelled (demo_threads p)"
  by (simp add: well_labelled_def demo_threads_def pausing_def recording_def Pause_def)

lemmas demo_code = PT_THREAD_def PT_BEGIN_def run.simps [of c_step] demo_threads_def pausing_def recording_def Pause_def ev_is_def [abs_def]
  forever_def [abs_def] send_def [abs_def] record_event_def [abs_def] macros PROCESS_YIELD_def PROCESS_WAIT_EVENT_UNTIL_def
  PROCESS_YIELD_UNTIL_def PROCESS_PAUSE_def

lemma demo_start:
  "PT_THREAD (expand (demo_threads (Suc 0))) 0 v = Some (PT_YIELDED, 21, v)"
  "PT_THREAD (expand (demo_threads 2)) 0 v = Some (PT_YIELDED, 31, v)"
  by (simp_all add: demo_code)

lemma demo_stands:
  "stands_for (demo_threads (Suc 0)) 21 at_event" "stands_for (demo_threads 2) 31 at_yield"
  by (simp_all add: stands_for_def demo_threads_def pausing_def recording_def Pause_def at_event_def at_yield_def)

abbreviation (input) demo_processes :: "u8 list program" where
  "demo_processes \<equiv> PROCESS_THREAD (\<lambda>p. expand (demo_threads p))"

definition demo_ks :: "nat \<Rightarrow> u8 list turn task list" where
  "demo_ks p = (if p = 1 then at_event else at_yield)"

lemma demo_booted:
  "\<exists>s. main_run (nested demo_processes 2) demo_boot (idle_sys []) = Some s \<and> office [2, 1] s [] \<and> s_world s = [] \<and>
     p_lc (procs s 1) = 21 \<and> p_lc (procs s 2) = 31"
proof -
  have ok: "cba_ok (cba_init (pool_of 200) 200)" using cba_init_wf [OF pool200_ok] by (auto simp: cba_ok_def)
  show ?thesis
    by (simp add: sched_run idle_sys_def process_init_def scheduler_init_def PROCESS_THREAD_def office_def mailbox_def demo_start turn_of_def
      ready_def letters_def cba_pool.owns_def ok [unfolded cba_init_def] list_repr_def msg_list_init_def)
qed

text \<open>Three events: 0x77 to both, 0x30 to process 1, which then waits for its turn.\<close>

theorem process_threads_refine_witness:
  "\<exists>s t ms ks. main_run (nested demo_processes 2) demo_boot (idle_sys []) = Some s \<and>
     main_run (nested demo_processes 2) [MainCall (MsgSend None [0x77] 1), MainCall (MsgSend (Some 1) [0x30] 1), MainRun, MainRun, MainRun, MainRun] s = Some t \<and>
     office [2, 1] t ms \<and> demo_inv (s_world t, ks) \<and>
     mail_run (perform (pt_role demo_threads)) [2, 1] [MainCall (MsgSend None [0x77] 1), MainCall (MsgSend (Some 1) [0x30] 1), MainRun, MainRun, MainRun, MainRun]
       ((s_cba s, []), ([], demo_ks)) = Some (box_of t ms, (s_world t, ks))"
proof -
  let ?ops = "[MainCall (MsgSend None [0x77] 1), MainCall (MsgSend (Some 1) [0x30] 1), MainRun, MainRun, MainRun, MainRun]"
  have K: "nested demo_processes (Suc 1) = nested demo_processes 2" by (simp only: Suc_1)
  from demo_booted obtain s where s: "main_run (nested demo_processes 2) demo_boot (idle_sys []) = Some s" "office [2, 1] s []"
    "s_world s = []" "p_lc (procs s 1) = 21" "p_lc (procs s 2) = 31" by blast
  have "\<forall>p\<in>set [2, 1]. well_labelled (demo_threads p)" "\<forall>p\<in>set [2, 1]. stands_for (demo_threads p) (p_lc (procs s p)) (demo_ks p)"
    "demo_inv (s_world s, demo_ks)" "list_all (office_op [2, 1]) ?ops"
    using demo_labelled demo_stands s(4,5) by (simp_all add: demo_ks_def demo_inv_def office_op_def proper_def)
  from process_threads_refine [OF this(1) demo_polite s(2) this(2-4), of 1] s(1,3) show ?thesis
    unfolding K by (auto simp: box_of_def letters_def)
qed

section \<open>Pausing without memory\<close>

text \<open>\<open>PROCESS_PAUSE\<close> does not look at the result of \<open>process_send_msg_p0\<close>: without room in the pool the
  process waits for a message that was never sent.\<close>

definition pauser :: "u8 list turn Mx_Protothread.thread" where
  "pauser = Loop forever Some (Thn (Pause 1 22) (Mx_Protothread.Act record_event))"

lemma pauser_call:
  "PT_THREAD (expand pauser) 0 v = Some (PT_YIELDED, 22, v\<lparr>t_out := t_out v @ [(Some 1, [PROCESS_EV_CONTINUE])]\<rparr>)"
  by (simp add: pauser_def demo_code)

theorem pause_is_lost:
  "\<exists>s. main_run (nested (PROCESS_THREAD (\<lambda>_. expand pauser)) 2) [MainCall (ProcStart 1)] (process_init (pool_of 20) 20 (idle_sys [])) = Some s \<and>
     p_lc (procs s 1) = 22 \<and> s_world s = [] \<and>
     (\<forall>n. main_run (nested (PROCESS_THREAD (\<lambda>_. expand pauser)) 2) (replicate n MainRun) s = Some s)"
proof -
  let ?K = "nested (PROCESS_THREAD (\<lambda>_. expand pauser)) 2"
  have "\<exists>s. main_run ?K [MainCall (ProcStart 1)] (process_init (pool_of 20) 20 (idle_sys [])) = Some s \<and>
     p_lc (procs s 1) = 22 \<and> s_world s = [] \<and> messages s = msg_list_init \<and> poll_requested s = 0"
    by (simp add: sched_run idle_start PROCESS_THREAD_def pauser_call turn_of_def process_send_msg_def)
  then obtain s where s: "main_run ?K [MainCall (ProcStart 1)] (process_init (pool_of 20) 20 (idle_sys [])) = Some s"
    "p_lc (procs s 1) = 22" "s_world s = []" and idle: "messages s = msg_list_init" "poll_requested s = 0" by blast
  have "main_do ?K MainRun s = Some s" using idle
    by (simp add: process_run_def scheduler_run_def scheduler_utilize_message_def msg_list_pop_def msg_list_init_def del: nested_numeral)
  then have "main_run ?K (replicate n MainRun) s = Some s" for n by (induction n) (simp_all del: nested_numeral main_do.simps)
  with s show ?thesis by blast
qed

end
