(* ===== verification/Mx_PtExamples.thy ===== *)
theory Mx_PtExamples
  imports Mx_Protothread
begin

text \<open>
  Two of the example programs of \<open>doc/pthread\<close>: \<open>example-small.c\<close>, two threads that wait for each
  other, and \<open>example-buffer.c\<close>, a producer and a consumer with semaphores. \<open>NUM_ITEMS\<close> (32) and
  \<open>BUFSIZE\<close> (8) are arguments here. A round of the driver is one call of each thread; what a thread does
  in it is computed on the coroutine it stands for, batch by batch.
\<close>

unbundle bit_operations_syntax

section \<open>Two threads that wait for each other\<close>

record small =
  protothread1_flag :: int
  protothread2_flag :: int
  small_out :: "nat list"

definition protothread1 :: "small thread" where
  "protothread1 = Loop (\<lambda>v. Some (True, v)) Some (Thn (Wait_until 33 (\<lambda>v. Some (protothread2_flag v \<noteq> 0, v)))
     (Act (\<lambda>v. Some (v\<lparr>small_out := small_out v @ [1], protothread2_flag := 0, protothread1_flag := 1\<rparr>))))"

definition protothread2 :: "small thread" where
  "protothread2 = Loop (\<lambda>v. Some (True, v)) Some (Thn (Act (\<lambda>v. Some (v\<lparr>protothread2_flag := 1\<rparr>)))
     (Thn (Wait_until 63 (\<lambda>v. Some (protothread1_flag v \<noteq> 0, v)))
       (Act (\<lambda>v. Some (v\<lparr>small_out := small_out v @ [2], protothread1_flag := 0\<rparr>)))))"

text \<open>The first \<open>n\<close> rounds of the loop of \<open>main\<close>, from the local continuations of the threads.\<close>

primrec small_rounds :: "nat \<Rightarrow> lc_t \<times> lc_t \<times> small \<Rightarrow> (lc_t \<times> lc_t \<times> small) option" where
  "small_rounds 0 x = Some x"
| "small_rounds (Suc n) x = (case x of (pt1, pt2, v) \<Rightarrow>
     (case PT_THREAD (expand protothread1) pt1 v of None \<Rightarrow> None
      | Some (_, pt1, v) \<Rightarrow> (case PT_THREAD (expand protothread2) pt2 v of None \<Rightarrow> None
         | Some (_, pt2, v) \<Rightarrow> small_rounds n (pt1, pt2, v))))"

definition small_main :: "nat \<Rightarrow> (lc_t \<times> lc_t \<times> small) option" where
  "small_main n = small_rounds n (0, 0, \<lparr>protothread1_flag = 0, protothread2_flag = 0, small_out = []\<rparr>)"

lemmas c_run = PT_THREAD_def PT_BEGIN_def run.simps macros

lemma small_first: "small_rounds (Suc n) (0, 0, \<lparr>protothread1_flag = 0, protothread2_flag = 0, small_out = []\<rparr>) =
    small_rounds n (33, 63, \<lparr>protothread1_flag = 0, protothread2_flag = 1, small_out = []\<rparr>)"
  by (simp add: c_run protothread1_def protothread2_def)

lemma small_next: "small_rounds (Suc n) (33, 63, \<lparr>protothread1_flag = 0, protothread2_flag = 1, small_out = xs\<rparr>) =
    small_rounds n (33, 63, \<lparr>protothread1_flag = 0, protothread2_flag = 1, small_out = xs @ [1, 2]\<rparr>)"
  by (simp add: c_run protothread1_def protothread2_def)

theorem small_alternates:
  "\<exists>pt1 pt2 v. small_main (Suc n) = Some (pt1, pt2, v) \<and> small_out v = concat (replicate n [1, 2])"
proof -
  have "\<exists>pt1 pt2 v. small_rounds n (33, 63, \<lparr>protothread1_flag = 0, protothread2_flag = 1, small_out = xs\<rparr>) =
      Some (pt1, pt2, v) \<and> small_out v = xs @ concat (replicate n [1, 2])" for xs
  proof (induction n arbitrary: xs)
    case (Suc n)
    from Suc.IH [of "xs @ [1, 2]"] show ?case by (simp only: small_next) simp
  qed simp
  from this [of "[]"] show ?thesis by (simp only: small_main_def small_first) simp
qed

section \<open>A bounded buffer\<close>

datatype print = Produced int | Added int int | Retrieved int int | Consumed int

record buffer =
  buffer :: "int list"
  bufptr :: int
  item :: int
  full :: pt_sem
  empty :: pt_sem
  produced :: int
  consumed :: int
  pt_producer :: lc_t
  pt_consumer :: lc_t
  prints :: "print list"

abbreviation (input) BUFSIZE :: "buffer \<Rightarrow> int" where
  "BUFSIZE v \<equiv> int (length (buffer v))"

definition printf :: "print \<Rightarrow> buffer \<Rightarrow> buffer" where
  "printf x v = v\<lparr>prints := prints v @ [x]\<rparr>"

text \<open>The counters are of type \<open>int\<close>, with 32 bits: adding one to the largest value is undefined.\<close>

definition int_succ :: "int \<Rightarrow> int option" where
  "int_succ x = (if x < 2 ^ 31 - 1 then Some (x + 1) else None)"

text \<open>An access outside of the array is \<open>None\<close>. The index is never negative, so \<open>%\<close> is \<open>mod\<close>.\<close>

definition in_buffer :: "buffer \<Rightarrow> bool" where
  "in_buffer v \<longleftrightarrow> 0 \<le> bufptr v \<and> bufptr v < BUFSIZE v"

definition add_to_buffer :: "int \<Rightarrow> buffer \<Rightarrow> buffer option" where
  "add_to_buffer x v = (if in_buffer v
     then do { i \<leftarrow> int_succ (bufptr v);
       Some (printf (Added x (bufptr v)) v\<lparr>buffer := (buffer v)[nat (bufptr v) := x], bufptr := i mod BUFSIZE v\<rparr>) }
     else None)"

definition get_from_buffer :: "buffer \<Rightarrow> (int \<times> buffer) option" where
  "get_from_buffer v = (if in_buffer v
     then do { i \<leftarrow> int_succ (bufptr v);
       let x = buffer v ! nat (bufptr v);
       Some (x, printf (Retrieved x (bufptr v)) v\<lparr>bufptr := i mod BUFSIZE v\<rparr>) }
     else None)"

definition produce_item :: "buffer \<Rightarrow> (int \<times> buffer) option" where
  "produce_item v = do { i \<leftarrow> int_succ (item v); Some (item v, printf (Produced (item v)) v\<lparr>item := i\<rparr>) }"

definition consume_item :: "int \<Rightarrow> buffer \<Rightarrow> buffer" where
  "consume_item x v = printf (Consumed x) v"

definition producer :: "int \<Rightarrow> buffer thread" where
  "producer NUM_ITEMS = Thn (Act (\<lambda>v. Some (v\<lparr>produced := 0\<rparr>)))
     (Loop (\<lambda>v. Some (produced v < NUM_ITEMS, v)) (\<lambda>v. map_option (\<lambda>i. v\<lparr>produced := i\<rparr>) (int_succ (produced v)))
       (Thn (PT_SEM_WAIT 94 full full_update)
         (Thn (Act (\<lambda>v. do { (x, v) \<leftarrow> produce_item v; add_to_buffer x v })) (PT_SEM_SIGNAL empty_update))))"

definition consumer :: "int \<Rightarrow> buffer thread" where
  "consumer NUM_ITEMS = Thn (Act (\<lambda>v. Some (v\<lparr>consumed := 0\<rparr>)))
     (Loop (\<lambda>v. Some (consumed v < NUM_ITEMS, v)) (\<lambda>v. map_option (\<lambda>i. v\<lparr>consumed := i\<rparr>) (int_succ (consumed v)))
       (Thn (PT_SEM_WAIT 113 empty empty_update)
         (Thn (Act (\<lambda>v. map_option (\<lambda>(x, v). consume_item x v) (get_from_buffer v))) (PT_SEM_SIGNAL full_update))))"

definition call_producer :: "int \<Rightarrow> buffer \<Rightarrow> (int \<times> buffer) option" where
  "call_producer n v = map_option (\<lambda>(r, lc, v). (r, v\<lparr>pt_producer := lc\<rparr>)) (PT_THREAD (expand (producer n)) (pt_producer v) v)"

definition call_consumer :: "int \<Rightarrow> buffer \<Rightarrow> (int \<times> buffer) option" where
  "call_consumer n v = map_option (\<lambda>(r, lc, v). (r, v\<lparr>pt_consumer := lc\<rparr>)) (PT_THREAD (expand (consumer n)) (pt_consumer v) v)"

text \<open>\<open>producer(..) & consumer(..)\<close>: C leaves open which operand is evaluated first.\<close>

definition both :: "bool \<Rightarrow> int \<Rightarrow> buffer \<Rightarrow> (int \<times> buffer) option" where
  "both left_first n v =
     (if left_first then do { (p, v) \<leftarrow> call_producer n v; (c, v) \<leftarrow> call_consumer n v; Some (p AND c, v) }
      else do { (c, v) \<leftarrow> call_consumer n v; (p, v) \<leftarrow> call_producer n v; Some (p AND c, v) })"

definition driver_thread :: "bool \<Rightarrow> int \<Rightarrow> buffer thread" where
  "driver_thread left_first n = Thn (PT_SEM_INIT empty_update 0) (Thn (Act (\<lambda>v. Some (full_update (\<lambda>s. s\<lparr>sem_count := word_of_int (BUFSIZE v)\<rparr>) v)))
     (Thn (Act (\<lambda>v. Some (v\<lparr>pt_producer := 0\<rparr>))) (Thn (Act (\<lambda>v. Some (v\<lparr>pt_consumer := 0\<rparr>)))
       (Wait_thread 136 (both left_first n)))))"

text \<open>The loop of \<open>main\<close> on the local continuation of the driver and the variables.\<close>

definition main_step :: "bool \<Rightarrow> int \<Rightarrow> (lc_t \<times> buffer, buffer) machine" where
  "main_step left_first n = (\<lambda>(lc, v). map_option (\<lambda>(r, lc, v). if r < PT_EXITED then Inl (lc, v) else Inr v)
     (PT_THREAD (expand (driver_thread left_first n)) lc v))"

definition zeroed :: "nat \<Rightarrow> buffer" where
  "zeroed bufsize = \<lparr>buffer = replicate bufsize 0, bufptr = 0, item = 0, full = \<lparr>sem_count = 0\<rparr>, empty = \<lparr>sem_count = 0\<rparr>,
     produced = 0, consumed = 0, pt_producer = 0, pt_consumer = 0, prints = []\<rparr>"

definition example_main :: "bool \<Rightarrow> int \<Rightarrow> nat \<Rightarrow> buffer option" where
  "example_main left_first n bufsize = run (main_step left_first n) (0, zeroed bufsize)"




section \<open>Batches\<close>

definition producer_loop :: "int \<Rightarrow> buffer thread" where
  "producer_loop n = Loop (\<lambda>v. Some (produced v < n, v)) (\<lambda>v. map_option (\<lambda>i. v\<lparr>produced := i\<rparr>) (int_succ (produced v)))
       (Thn (PT_SEM_WAIT 94 full full_update)
         (Thn (Act (\<lambda>v. do { (x, v) \<leftarrow> produce_item v; add_to_buffer x v })) (PT_SEM_SIGNAL empty_update)))"

definition consumer_loop :: "int \<Rightarrow> buffer thread" where
  "consumer_loop n = Loop (\<lambda>v. Some (consumed v < n, v)) (\<lambda>v. map_option (\<lambda>i. v\<lparr>consumed := i\<rparr>) (int_succ (consumed v)))
       (Thn (PT_SEM_WAIT 113 empty empty_update)
         (Thn (Act (\<lambda>v. map_option (\<lambda>(x, v). consume_item x v) (get_from_buffer v))) (PT_SEM_SIGNAL full_update)))"

fun unfold_loop :: "nat \<Rightarrow> 'v thread \<Rightarrow> 'v task list" where
  "unfold_loop l (Loop g i x) = (case site l x [Again g i x] of Some (t, k) \<Rightarrow> Todo t # k | None \<Rightarrow> [])"
| "unfold_loop l _ = []"

definition produce_one :: "buffer \<Rightarrow> buffer" where
  "produce_one v = v\<lparr>buffer := (buffer v)[nat (bufptr v) := item v], bufptr := (bufptr v + 1) mod BUFSIZE v,
     item := item v + 1, full := \<lparr>sem_count = sem_count (full v) - 1\<rparr>, empty := \<lparr>sem_count = sem_count (empty v) + 1\<rparr>,
     produced := produced v + 1, prints := prints v @ [Produced (item v), Added (item v) (bufptr v)]\<rparr>"

definition consume_one :: "buffer \<Rightarrow> buffer" where
  "consume_one v = (let x = buffer v ! nat (bufptr v) in v\<lparr>bufptr := (bufptr v + 1) mod BUFSIZE v,
     full := \<lparr>sem_count = sem_count (full v) + 1\<rparr>, empty := \<lparr>sem_count = sem_count (empty v) - 1\<rparr>,
     consumed := consumed v + 1, prints := prints v @ [Retrieved x (bufptr v), Consumed x]\<rparr>)"

lemmas buffer_ops = PT_SEM_WAIT_def PT_SEM_SIGNAL_def PT_SEM_INIT_def add_to_buffer_def get_from_buffer_def
  produce_item_def consume_item_def printf_def int_succ_def

lemma pt_sem_eq: "s\<lparr>sem_count := c\<rparr> = \<lparr>sem_count = c\<rparr>"
  by simp

lemma producer_goes:
  "produced v < n \<Longrightarrow> sem_count (full v) \<noteq> 0 \<Longrightarrow> in_buffer v \<Longrightarrow> n < 2 ^ 31 \<Longrightarrow> item v < 2 ^ 31 - 1 \<Longrightarrow> bufptr v < 2 ^ 31 - 1 \<Longrightarrow>
     run (co_step b) ([Todo (producer_loop n)], v) = run (co_step b) ([Todo (producer_loop n)], produce_one v)"
  "produced v < n \<Longrightarrow> sem_count (full v) = 0 \<Longrightarrow>
     run (co_step b) ([Todo (producer_loop n)], v) = Some (PT_WAITING, unfold_loop 94 (producer_loop n), v)"
  "\<not> produced v < n \<Longrightarrow> run (co_step b) ([Todo (producer_loop n)], v) = Some (PT_ENDED, [Todo b], v)"
  "produced v < n \<Longrightarrow>
     run (co_step b) (unfold_loop 94 (producer_loop n), v) = run (co_step b) ([Todo (producer_loop n)], v)"
proof -
  assume "produced v < n" "sem_count (full v) \<noteq> 0" "in_buffer v" "n < 2 ^ 31" "item v < 2 ^ 31 - 1" "bufptr v < 2 ^ 31 - 1"
  then have "steps (co_step b) 9 ([Todo (producer_loop n)], v) = Some (Inl ([Todo (producer_loop n)], produce_one v))"
    by (cases v) (simp add: producer_loop_def eval_nat_numeral buffer_ops in_buffer_def produce_one_def word_gt_0 pt_sem_eq)
  then show "run (co_step b) ([Todo (producer_loop n)], v) = run (co_step b) ([Todo (producer_loop n)], produce_one v)"
    by (rule run_steps)
qed (simp_all add: producer_loop_def run_step run_done buffer_ops)

lemma consumer_goes:
  "consumed v < n \<Longrightarrow> sem_count (empty v) \<noteq> 0 \<Longrightarrow> in_buffer v \<Longrightarrow> n < 2 ^ 31 \<Longrightarrow> bufptr v < 2 ^ 31 - 1 \<Longrightarrow>
     run (co_step b) ([Todo (consumer_loop n)], v) = run (co_step b) ([Todo (consumer_loop n)], consume_one v)"
  "consumed v < n \<Longrightarrow> sem_count (empty v) = 0 \<Longrightarrow>
     run (co_step b) ([Todo (consumer_loop n)], v) = Some (PT_WAITING, unfold_loop 113 (consumer_loop n), v)"
  "\<not> consumed v < n \<Longrightarrow> run (co_step b) ([Todo (consumer_loop n)], v) = Some (PT_ENDED, [Todo b], v)"
  "consumed v < n \<Longrightarrow>
     run (co_step b) (unfold_loop 113 (consumer_loop n), v) = run (co_step b) ([Todo (consumer_loop n)], v)"
proof -
  assume "consumed v < n" "sem_count (empty v) \<noteq> 0" "in_buffer v" "n < 2 ^ 31" "bufptr v < 2 ^ 31 - 1"
  then have "steps (co_step b) 9 ([Todo (consumer_loop n)], v) = Some (Inl ([Todo (consumer_loop n)], consume_one v))"
    by (cases v) (simp add: consumer_loop_def eval_nat_numeral buffer_ops in_buffer_def consume_one_def word_gt_0 pt_sem_eq Let_def)
  then show "run (co_step b) ([Todo (consumer_loop n)], v) = run (co_step b) ([Todo (consumer_loop n)], consume_one v)"
    by (rule run_steps)
qed (simp_all add: consumer_loop_def run_step run_done buffer_ops)

lemma producer_eq: "producer n = Thn (Act (\<lambda>v. Some (v\<lparr>produced := 0\<rparr>))) (producer_loop n)"
  by (simp add: producer_def producer_loop_def)

lemma consumer_eq: "consumer n = Thn (Act (\<lambda>v. Some (v\<lparr>consumed := 0\<rparr>))) (consumer_loop n)"
  by (simp add: consumer_def consumer_loop_def)

lemma starts:
  "run (co_step b) ([Todo (producer n)], v) = run (co_step b) ([Todo (producer_loop n)], v\<lparr>produced := 0\<rparr>)"
  "run (co_step b) ([Todo (consumer n)], v) = run (co_step b) ([Todo (consumer_loop n)], v\<lparr>consumed := 0\<rparr>)"
  by (simp_all add: producer_eq consumer_eq run_step)

text \<open>A batch fills the buffer from its start; what the first \<open>f\<close> items do.\<close>

definition fill :: "nat \<Rightarrow> buffer \<Rightarrow> buffer" where
  "fill f v = v\<lparr>buffer := map (\<lambda>j. item v + int j) [0..<f] @ drop f (buffer v), bufptr := int f mod BUFSIZE v,
     item := item v + int f, full := \<lparr>sem_count = sem_count (full v) - of_nat f\<rparr>,
     empty := \<lparr>sem_count = sem_count (empty v) + of_nat f\<rparr>, produced := produced v + int f,
     prints := prints v @ concat (map (\<lambda>j. [Produced (item v + int j), Added (item v + int j) (int j)]) [0..<f])\<rparr>"

definition drain :: "nat \<Rightarrow> buffer \<Rightarrow> buffer" where
  "drain f v = v\<lparr>bufptr := int f mod BUFSIZE v, full := \<lparr>sem_count = sem_count (full v) + of_nat f\<rparr>,
     empty := \<lparr>sem_count = sem_count (empty v) - of_nat f\<rparr>, consumed := consumed v + int f,
     prints := prints v @ concat (map (\<lambda>j. [Retrieved (buffer v ! j) (int j), Consumed (buffer v ! j)]) [0..<f])\<rparr>"

lemma produce_one_fill: "f < length (buffer v) \<Longrightarrow> produce_one (fill f v) = fill (Suc f) v"
proof -
  assume f: "f < length (buffer v)"
  have "(map (\<lambda>j. item v + int j) [0..<f] @ drop f (buffer v))[f := item v + int f] =
      map (\<lambda>j. item v + int j) [0..<f] @ (item v + int f) # drop (Suc f) (buffer v)"
    using f by (simp add: list_update_append Cons_nth_drop_Suc [symmetric])
  with f show ?thesis
    by (cases v) (simp add: produce_one_def fill_def mod_pos_pos_trivial algebra_simps)
qed

lemma consume_one_drain: "f < length (buffer v) \<Longrightarrow> consume_one (drain f v) = drain (Suc f) v"
  by (cases v) (simp add: consume_one_def drain_def mod_pos_pos_trivial algebra_simps Let_def)

lemma fill_0: "bufptr v = 0 \<Longrightarrow> fill 0 v = v" and drain_0: "bufptr v = 0 \<Longrightarrow> drain 0 v = v"
  by (cases v; simp add: fill_def drain_def)+

lemma count_pos: "f < k \<Longrightarrow> k < 2 ^ 32 \<Longrightarrow> (of_nat k - of_nat f :: 32 word) \<noteq> 0"
proof -
  assume "f < k" "k < 2 ^ 32"
  then have "\<not> 2 ^ 32 dvd k - f" by (intro nat_dvd_not_less) auto
  then have "(of_nat (k - f) :: 32 word) \<noteq> 0" by (simp only: word_of_nat_eq_0_iff) simp
  with \<open>f < k\<close> show ?thesis by simp
qed

lemma producer_fills:
  assumes "bufptr v = 0" "sem_count (full v) = of_nat k" "k < 2 ^ 31" "n < 2 ^ 31" "item v + int f < 2 ^ 31"
    and "f \<le> k" "k \<le> length (buffer v)" "produced v + int f \<le> n"
  shows "run (co_step b) ([Todo (producer_loop n)], v) = run (co_step b) ([Todo (producer_loop n)], fill f v)"
  using assms
proof (induction f)
  case (Suc f)
  have "run (co_step b) ([Todo (producer_loop n)], fill f v) = run (co_step b) ([Todo (producer_loop n)], produce_one (fill f v))"
    using Suc.prems count_pos [of f k]
    by (intro producer_goes(1)) (simp_all add: fill_def in_buffer_def mod_pos_pos_trivial)
  with Suc show ?case by (simp add: produce_one_fill)
qed (simp add: fill_0)

lemma consumer_drains:
  assumes "bufptr v = 0" "sem_count (empty v) = of_nat k" "k < 2 ^ 31" "n < 2 ^ 31"
    and "f \<le> k" "k \<le> length (buffer v)" "consumed v + int f \<le> n"
  shows "run (co_step b) ([Todo (consumer_loop n)], v) = run (co_step b) ([Todo (consumer_loop n)], drain f v)"
  using assms
proof (induction f)
  case (Suc f)
  have "run (co_step b) ([Todo (consumer_loop n)], drain f v) = run (co_step b) ([Todo (consumer_loop n)], consume_one (drain f v))"
    using Suc.prems count_pos [of f k]
    by (intro consumer_goes(1)) (simp_all add: drain_def in_buffer_def mod_pos_pos_trivial)
  with Suc show ?case by (simp add: consume_one_drain)
qed (simp add: drain_0)

definition batches :: "nat \<Rightarrow> nat \<Rightarrow> int" where
  "batches m B = int (m * B)"

text \<open>How far the threads are: \<open>a\<close> batches into their loop.\<close>

definition producer_at :: "int \<Rightarrow> nat \<Rightarrow> nat \<Rightarrow> buffer \<Rightarrow> bool" where
  "producer_at n B a v \<longleftrightarrow> (\<exists>k. stands_for (producer n) (pt_producer v) k \<and>
     (a = 0 \<and> k = [Todo (producer n)] \<or> k = unfold_loop 94 (producer_loop n) \<and> produced v = batches a B))"

definition consumer_at :: "int \<Rightarrow> nat \<Rightarrow> nat \<Rightarrow> buffer \<Rightarrow> bool" where
  "consumer_at n B a v \<longleftrightarrow> (\<exists>k. stands_for (consumer n) (pt_consumer v) k \<and>
     (a = 0 \<and> k = [Todo (consumer n)] \<or> k = unfold_loop 113 (consumer_loop n) \<and> consumed v = batches a B))"

lemma buffer_labels: "well_labelled (producer n)" "well_labelled (consumer n)" "well_labelled (driver_thread x n)"
  by (simp_all add: well_labelled_def producer_def consumer_def driver_thread_def buffer_ops Wait_thread_def Wait_while_def)

lemma batches_Suc: "batches (Suc a) B = batches a B + int B"
  by (simp add: batches_def)

lemma batches_less: "a < m \<Longrightarrow> 0 < B \<Longrightarrow> batches a B < batches m B"
  by (simp add: batches_def)

lemma batches_le: "a < m \<Longrightarrow> 0 < B \<Longrightarrow> batches a B + int B \<le> batches m B"
  unfolding batches_Suc [symmetric] unfolding batches_def by (intro of_nat_mono mult_right_mono) auto

lemma batches_next: "a < m \<Longrightarrow> 0 < B \<Longrightarrow> batches a B + int B < batches m B \<longleftrightarrow> Suc a < m"
  unfolding batches_Suc [symmetric] unfolding batches_def of_nat_less_iff by (simp del: mult_Suc)

lemma batches_bound: "n = batches m B \<Longrightarrow> a < m \<Longrightarrow> 0 < B \<Longrightarrow> n < 2 ^ 31 \<Longrightarrow> B < 2 ^ 31"
proof -
  assume "n = batches m B" "a < m" "0 < B" "n < 2 ^ 31"
  moreover have "0 \<le> batches a B" by (simp add: batches_def)
  ultimately have "int B < 2 ^ 31" using batches_le [of a m B] by simp
  then show ?thesis by simp
qed

lemma batches_int: "m * B < 2 ^ 31 \<Longrightarrow> batches m B < 2 ^ 31"
  unfolding batches_def by (simp del: of_nat_mult)

lemma produce_batch:
  assumes at: "producer_at n B a v" and n: "n = batches m B" "a < m" "0 < B" "n < 2 ^ 31"
    and v: "bufptr v = 0" "length (buffer v) = B" "sem_count (full v) = of_nat B" "item v + int B < 2 ^ 31"
  shows "\<exists>lc. let w = (fill B (v\<lparr>produced := batches a B\<rparr>))\<lparr>pt_producer := lc\<rparr> in
    call_producer n v = Some (if Suc a = m then PT_ENDED else PT_WAITING, w) \<and> producer_at n B (Suc a mod m) w"
proof -
  from at obtain k where k: "stands_for (producer n) (pt_producer v) k"
    and k': "a = 0 \<and> k = [Todo (producer n)] \<or> k = unfold_loop 94 (producer_loop n) \<and> produced v = batches a B"
    by (auto simp: producer_at_def)
  let ?v = "v\<lparr>produced := batches a B\<rparr>"
  let ?r = "if Suc a = m then PT_ENDED else PT_WAITING"
  let ?k = "if Suc a = m then [Todo (producer n)] else unfold_loop 94 (producer_loop n)"
  note less = batches_less [OF n(2,3), folded n(1)] batches_le [OF n(2,3), folded n(1)] batches_next [OF n(2,3), folded n(1)]
  have "run (co_step (producer n)) (k, v) = run (co_step (producer n)) ([Todo (producer_loop n)], ?v)"
    using k'
  proof
    assume "a = 0 \<and> k = [Todo (producer n)]"
    then show ?thesis by (simp add: starts batches_def)
  next
    assume k': "k = unfold_loop 94 (producer_loop n) \<and> produced v = batches a B"
    then have v: "?v = v" by (cases v) simp
    show ?thesis unfolding v using k' less(1) by (simp add: producer_goes(4))
  qed
  also have "\<dots> = run (co_step (producer n)) ([Todo (producer_loop n)], fill B ?v)"
    by (rule producer_fills) (use v n less batches_bound [OF n] in auto)
  also have "\<dots> = Some (?r, ?k, fill B ?v)"
    using less v n by (auto simp: producer_goes(2,3) fill_def)
  finally have "coroutine (producer n) k v = Some (?r, ?k, fill B ?v)" by (simp add: coroutine_def)
  from coroutine_call [OF buffer_labels(1) k this] obtain lc
    where lc: "PT_THREAD (expand (producer n)) (pt_producer v) v = Some (?r, lc, fill B ?v)" "stands_for (producer n) lc ?k"
    by blast
  have "producer_at n B (Suc a mod m) ((fill B ?v)\<lparr>pt_producer := lc\<rparr>)"
    unfolding producer_at_def
    by (rule exI [of _ ?k]) (use lc(2) n(2) in \<open>auto simp: fill_def batches_Suc less_Suc_eq\<close>)
  with lc(1) show ?thesis by (intro exI [of _ lc]) (simp add: call_producer_def)
qed

lemma consume_batch:
  assumes at: "consumer_at n B a v" and n: "n = batches m B" "a < m" "0 < B" "n < 2 ^ 31"
    and v: "bufptr v = 0" "length (buffer v) = B" "sem_count (empty v) = of_nat B"
  shows "\<exists>lc. let w = (drain B (v\<lparr>consumed := batches a B\<rparr>))\<lparr>pt_consumer := lc\<rparr> in
    call_consumer n v = Some (if Suc a = m then PT_ENDED else PT_WAITING, w) \<and> consumer_at n B (Suc a mod m) w"
proof -
  from at obtain k where k: "stands_for (consumer n) (pt_consumer v) k"
    and k': "a = 0 \<and> k = [Todo (consumer n)] \<or> k = unfold_loop 113 (consumer_loop n) \<and> consumed v = batches a B"
    by (auto simp: consumer_at_def)
  let ?v = "v\<lparr>consumed := batches a B\<rparr>"
  let ?r = "if Suc a = m then PT_ENDED else PT_WAITING"
  let ?k = "if Suc a = m then [Todo (consumer n)] else unfold_loop 113 (consumer_loop n)"
  note less = batches_less [OF n(2,3), folded n(1)] batches_le [OF n(2,3), folded n(1)] batches_next [OF n(2,3), folded n(1)]
  have "run (co_step (consumer n)) (k, v) = run (co_step (consumer n)) ([Todo (consumer_loop n)], ?v)"
    using k'
  proof
    assume "a = 0 \<and> k = [Todo (consumer n)]"
    then show ?thesis by (simp add: starts batches_def)
  next
    assume k': "k = unfold_loop 113 (consumer_loop n) \<and> consumed v = batches a B"
    then have v: "?v = v" by (cases v) simp
    show ?thesis unfolding v using k' less(1) by (simp add: consumer_goes(4))
  qed
  also have "\<dots> = run (co_step (consumer n)) ([Todo (consumer_loop n)], drain B ?v)"
    by (rule consumer_drains) (use v n less batches_bound [OF n] in auto)
  also have "\<dots> = Some (?r, ?k, drain B ?v)"
    using less v n by (auto simp: consumer_goes(2,3) drain_def)
  finally have "coroutine (consumer n) k v = Some (?r, ?k, drain B ?v)" by (simp add: coroutine_def)
  from coroutine_call [OF buffer_labels(2) k this] obtain lc
    where lc: "PT_THREAD (expand (consumer n)) (pt_consumer v) v = Some (?r, lc, drain B ?v)" "stands_for (consumer n) lc ?k"
    by blast
  have "consumer_at n B (Suc a mod m) ((drain B ?v)\<lparr>pt_consumer := lc\<rparr>)"
    unfolding consumer_at_def
    by (rule exI [of _ ?k]) (use lc(2) n(2) in \<open>auto simp: drain_def batches_Suc less_Suc_eq\<close>)
  with lc(1) show ?thesis by (intro exI [of _ lc]) (simp add: call_consumer_def)
qed


text \<open>An empty buffer blocks the consumer before its first item.\<close>

lemma consume_none:
  assumes "consumer_at n B 0 v" "n > 0" "sem_count (empty v) = 0"
  shows "\<exists>lc. call_consumer n v = Some (PT_WAITING, v\<lparr>consumed := 0, pt_consumer := lc\<rparr>) \<and>
    consumer_at n B 0 (v\<lparr>consumed := 0, pt_consumer := lc\<rparr>)"
proof -
  let ?k = "unfold_loop 113 (consumer_loop n)"
  from assms(1) obtain k where k: "stands_for (consumer n) (pt_consumer v) k"
    and k': "k = [Todo (consumer n)] \<or> k = ?k \<and> consumed v = 0"
    by (auto simp: consumer_at_def batches_def)
  have "coroutine (consumer n) k v = Some (PT_WAITING, ?k, v\<lparr>consumed := 0\<rparr>)"
    using k'
  proof
    assume "k = [Todo (consumer n)]"
    then show ?thesis using assms by (simp add: coroutine_def starts consumer_goes(2))
  next
    assume k': "k = ?k \<and> consumed v = 0"
    then have v: "v\<lparr>consumed := 0\<rparr> = v" by (cases v) simp
    show ?thesis unfolding v using k' assms by (simp add: coroutine_def consumer_goes(2,4))
  qed
  from coroutine_call [OF buffer_labels(2) k this] show ?thesis
    by (auto simp: call_consumer_def consumer_at_def batches_def)
qed

section \<open>Rounds of the driver\<close>

text \<open>The items the consumer has got, in order.\<close>

definition received :: "buffer \<Rightarrow> int list" where
  "received v = concat (map (\<lambda>p. case p of Consumed x \<Rightarrow> [x] | _ \<Rightarrow> []) (prints v))"

lemma received_fill: "received (fill f v) = received v"
proof -
  have "concat (map (\<lambda>p. case p of Consumed x \<Rightarrow> [x] | _ \<Rightarrow> [])
      (concat (map (\<lambda>j. [Produced (item v + int j), Added (item v + int j) (int j)]) [0..<f]))) = []"
    by (induction f) simp_all
  then show ?thesis by (simp add: received_def fill_def)
qed

lemma received_drain: "received (drain f v) = received v @ map ((!) (buffer v)) [0..<f]"
proof -
  have "concat (map (\<lambda>p. case p of Consumed x \<Rightarrow> [x] | _ \<Rightarrow> [])
      (concat (map (\<lambda>j. [Retrieved (buffer v ! j) (int j), Consumed (buffer v ! j)]) [0..<f]))) = map ((!) (buffer v)) [0..<f]"
    by (induction f) simp_all
  then show ?thesis by (simp add: received_def drain_def)
qed

lemma at_cong:
  "pt_producer w = pt_producer v \<Longrightarrow> produced w = produced v \<Longrightarrow> producer_at n B a w = producer_at n B a v"
  "pt_consumer w = pt_consumer v \<Longrightarrow> consumed w = consumed v \<Longrightarrow> consumer_at n B a w = consumer_at n B a v"
  by (simp_all add: producer_at_def consumer_at_def)

definition drained :: "nat \<Rightarrow> buffer \<Rightarrow> bool" where
  "drained B v \<longleftrightarrow> bufptr v = 0 \<and> length (buffer v) = B \<and> sem_count (full v) = of_nat B \<and> sem_count (empty v) = 0"

definition filled :: "nat \<Rightarrow> buffer \<Rightarrow> bool" where
  "filled B v \<longleftrightarrow> bufptr v = 0 \<and> length (buffer v) = B \<and> sem_count (full v) = 0 \<and> sem_count (empty v) = of_nat B"

lemma produce_call:
  assumes "producer_at n B a v" "consumer_at n B c v" "drained B v" "item v + int B < 2 ^ 31" and n: "n = batches m B" "a < m" "0 < B" "n < 2 ^ 31"
  shows "\<exists>w. call_producer n v = Some (if Suc a = m then PT_ENDED else PT_WAITING, w) \<and>
    producer_at n B (Suc a mod m) w \<and> consumer_at n B c w \<and> filled B w \<and> received w = received v \<and>
    buffer w = map (\<lambda>j. item v + int j) [0..<B] \<and> item w = item v + int B"
proof -
  let ?w = "\<lambda>lc. (fill B (v\<lparr>produced := batches a B\<rparr>))\<lparr>pt_producer := lc\<rparr>"
  from produce_batch [OF assms(1) n] assms(3,4) obtain lc where
    "call_producer n v = Some (if Suc a = m then PT_ENDED else PT_WAITING, ?w lc)" "producer_at n B (Suc a mod m) (?w lc)"
    by (auto simp: drained_def Let_def)
  moreover have "received (?w lc) = received v"
    using received_fill [of B "v\<lparr>produced := batches a B\<rparr>"] by (simp add: received_def)
  moreover have "consumer_at n B c (?w lc)"
    using assms(2) at_cong(2) [of "?w lc" v] by (simp add: fill_def)
  ultimately show ?thesis
    using assms(3) by (intro exI [of _ "?w lc"]) (simp add: fill_def filled_def drained_def)
qed

lemma consume_call:
  assumes "producer_at n B p v" "consumer_at n B a v" "filled B v" and n: "n = batches m B" "a < m" "0 < B" "n < 2 ^ 31"
  shows "\<exists>w. call_consumer n v = Some (if Suc a = m then PT_ENDED else PT_WAITING, w) \<and>
    producer_at n B p w \<and> consumer_at n B (Suc a mod m) w \<and> drained B w \<and> received w = received v @ buffer v \<and> item w = item v"
proof -
  let ?w = "\<lambda>lc. (drain B (v\<lparr>consumed := batches a B\<rparr>))\<lparr>pt_consumer := lc\<rparr>"
  from consume_batch [OF assms(2) n] assms(3) obtain lc where
    "call_consumer n v = Some (if Suc a = m then PT_ENDED else PT_WAITING, ?w lc)" "consumer_at n B (Suc a mod m) (?w lc)"
    by (auto simp: filled_def Let_def)
  moreover have "received (?w lc) = received v @ map ((!) (buffer v)) [0..<B]"
    using received_drain [of B "v\<lparr>consumed := batches a B\<rparr>"] by (simp add: received_def)
  moreover have "map ((!) (buffer v)) [0..<B] = buffer v"
    using assms(3) map_nth [of "buffer v"] by (simp add: filled_def)
  moreover have "producer_at n B p (?w lc)"
    using assms(1) at_cong(1) [of "?w lc" v] by (simp add: drain_def)
  ultimately show ?thesis
    using assms(3) by (intro exI [of _ "?w lc"]) (simp add: drain_def filled_def drained_def)
qed

lemma round_left:
  assumes "producer_at n B a v" "consumer_at n B a v" "drained B v" "item v + int B < 2 ^ 31" and n: "n = batches m B" "a < m" "0 < B" "n < 2 ^ 31"
  shows "\<exists>w. both True n v = Some (if Suc a = m then PT_ENDED else PT_WAITING, w) \<and>
    producer_at n B (Suc a mod m) w \<and> consumer_at n B (Suc a mod m) w \<and> drained B w \<and>
    received w = received v @ map (\<lambda>j. item v + int j) [0..<B] \<and> item w = item v + int B"
proof -
  from produce_call [OF assms(1-4) n] obtain u where u: "call_producer n v = Some (if Suc a = m then PT_ENDED else PT_WAITING, u)"
    "producer_at n B (Suc a mod m) u" "consumer_at n B a u" "filled B u" "received u = received v"
    "buffer u = map (\<lambda>j. item v + int j) [0..<B]" "item u = item v + int B" by blast
  from consume_call [OF u(2-4) n] obtain w where
    w: "call_consumer n u = Some (if Suc a = m then PT_ENDED else PT_WAITING, w)" "producer_at n B (Suc a mod m) w"
    "consumer_at n B (Suc a mod m) w" "drained B w" "received w = received u @ buffer u" "item w = item u" by blast
  have "both True n v = Some (if Suc a = m then PT_ENDED else PT_WAITING, w)"
    using u(1) w(1) by (simp add: both_def)
  with u w show ?thesis by auto
qed

lemma round_right:
  assumes "producer_at n B (Suc a mod m) v" "consumer_at n B a v" "filled B v" "item v + int B < 2 ^ 31"
    and n: "n = batches m B" "a < m" "1 < m" "0 < B" "n < 2 ^ 31"
  shows "\<exists>w. both False n v = Some (PT_WAITING, w) \<and> producer_at n B (Suc (Suc a mod m) mod m) w \<and>
    consumer_at n B (Suc a mod m) w \<and> filled B w \<and> item w = item v + int B"
proof -
  from consume_call [OF assms(1-3) n(1,2,4,5)] obtain u where
    u: "call_consumer n v = Some (if Suc a = m then PT_ENDED else PT_WAITING, u)" "producer_at n B (Suc a mod m) u"
    "consumer_at n B (Suc a mod m) u" "drained B u" "item u = item v" by blast
  have p: "Suc a mod m < m" using n(3) by simp
  from produce_call [OF u(2-4) assms(4) [folded u(5)] n(1) p n(4,5)] obtain w where
    w: "call_producer n u = Some (if Suc (Suc a mod m) = m then PT_ENDED else PT_WAITING, w)"
    "producer_at n B (Suc (Suc a mod m) mod m) w" "consumer_at n B (Suc a mod m) w" "filled B w" "item w = item u + int B" by blast
  have "both False n v = Some (PT_WAITING, w)"
    using u(1) w(1) n(2,3) by (auto simp: both_def)
  with w u(5) show ?thesis by auto
qed

section \<open>The program\<close>

definition set_up :: "buffer \<Rightarrow> buffer" where
  "set_up v = v\<lparr>empty := \<lparr>sem_count = 0\<rparr>, full := \<lparr>sem_count = word_of_int (BUFSIZE v)\<rparr>, pt_producer := 0, pt_consumer := 0\<rparr>"

abbreviation waiting_driver :: "bool \<Rightarrow> int \<Rightarrow> buffer task list" where
  "waiting_driver x n \<equiv> [Todo (Wait_thread 136 (both x n))]"

lemma driver_waits:
  "run (co_step b) (waiting_driver x n, v) = (case both x n v of None \<Rightarrow> None
     | Some (r, w) \<Rightarrow> Some (if r < PT_EXITED then (PT_WAITING, waiting_driver x n, w) else (PT_ENDED, [Todo b], w)))"
proof (cases "both x n v")
  case None
  then show ?thesis by (simp add: Wait_thread_def Wait_while_def run_stuck negated_def PT_SCHEDULE_def)
next
  case (Some y)
  show ?thesis
  proof (cases "fst y < PT_EXITED")
    case True
    with Some have "co_step b (waiting_driver x n, v) = Some (Inr (PT_WAITING, waiting_driver x n, snd y))"
      by (auto simp: Wait_thread_def Wait_while_def negated_def PT_SCHEDULE_def split: prod.splits)
    from run_done [of "co_step b", OF this] Some True show ?thesis by (auto split: prod.splits)
  next
    case False
    with Some have "steps (co_step b) 2 (waiting_driver x n, v) = Some (Inr (PT_ENDED, [Todo b], snd y))"
      by (auto simp: Wait_thread_def Wait_while_def negated_def PT_SCHEDULE_def eval_nat_numeral split: prod.splits)
    from run_steps_done [OF this] Some False show ?thesis by (auto split: prod.splits)
  qed
qed

lemma driver_starts:
  "run (co_step b) ([Todo (driver_thread x n)], v) = run (co_step b) (waiting_driver x n, set_up v)"
proof -
  have "steps (co_step b) 8 ([Todo (driver_thread x n)], v) = Some (Inl (waiting_driver x n, set_up v))"
    by (cases v) (simp add: driver_thread_def PT_SEM_INIT_def eval_nat_numeral set_up_def pt_sem_eq)
  then show ?thesis by (rule run_steps)
qed

definition driver_at :: "bool \<Rightarrow> int \<Rightarrow> lc_t \<Rightarrow> bool" where
  "driver_at x n lc \<longleftrightarrow> stands_for (driver_thread x n) lc (waiting_driver x n)"

lemma main_round:
  assumes "driver_at x n lc \<and> u = v \<or> lc = 0 \<and> u = set_up v" "both x n u = Some (r, w)"
  shows "\<exists>lc'. main_step x n (lc, v) = Some (if r < PT_EXITED then Inl (lc', w) else Inr w) \<and>
    (r < PT_EXITED \<longrightarrow> driver_at x n lc')"
proof -
  define d where "d = driver_thread x n"
  define res where "res = (if r < PT_EXITED then (PT_WAITING, waiting_driver x n, w) else (PT_ENDED, [Todo d], w))"
  obtain k where k: "stands_for d lc k" and run: "coroutine d k v = Some res"
  proof (cases "driver_at x n lc \<and> u = v")
    case True
    then show ?thesis
      using that [of "waiting_driver x n"] assms(2) driver_waits [of d x n v]
      by (simp add: driver_at_def coroutine_def d_def res_def)
  next
    case False
    then show ?thesis
      using that [of "[Todo d]"] assms driver_starts [of d x n v] driver_waits [of d x n u]
      by (auto simp: coroutine_def d_def res_def)
  qed
  obtain r' k' w' where res: "res = (r', k', w')" by (cases res)
  from coroutine_call [OF _ k] run res buffer_labels(3) [of x n] obtain lc' where
    lc': "PT_THREAD (expand d) lc v = Some (r', lc', w')" "stands_for d lc' k'"
    unfolding d_def by fastforce
  with res show ?thesis
    by (intro exI [of _ lc']) (auto simp: main_step_def d_def driver_at_def res_def split: if_splits)
qed

lemma batches_list: "map int [0..<a * B] @ map (\<lambda>j. batches a B + int j) [0..<B] = map int [0..<Suc a * B]"
proof -
  have "[0..<Suc a * B] = [0..<a * B] @ map (\<lambda>i. i + a * B) [0..<B]"
    using upt_add_eq_append [of 0 "a * B" B] map_add_upt [of "a * B" B] by (simp add: add.commute)
  then show ?thesis by (simp add: batches_def comp_def add.commute)
qed

lemma main_left:
  assumes "driver_at True n lc \<and> u = v \<or> lc = 0 \<and> u = set_up v"
    and "producer_at n B a u" "consumer_at n B a u" "drained B u"
    and n: "n = batches m B" "a < m" "0 < B" "n < 2 ^ 31"
    and "received u = map int [0..<a * B]" "item u = batches a B"
  shows "\<exists>w. run (main_step True n) (lc, v) = Some w \<and> received w = map int [0..<m * B]"
  using assms
proof (induction "m - a" arbitrary: a lc u v)
  case (Suc k)
  have "item u + int B < 2 ^ 31"
    using batches_le [OF Suc.prems(6,7)] Suc.prems(5,8,10) by simp
  from round_left [OF Suc.prems(2-4) this Suc.prems(5-8)] obtain w where
    w: "both True n u = Some (if Suc a = m then PT_ENDED else PT_WAITING, w)"
    "producer_at n B (Suc a mod m) w" "consumer_at n B (Suc a mod m) w" "drained B w"
    "received w = received u @ map (\<lambda>j. item u + int j) [0..<B]" "item w = item u + int B" by blast
  have got: "received w = map int [0..<Suc a * B]" "item w = batches (Suc a) B"
    using w(5,6) Suc.prems(9,10) batches_list [of a B] batches_Suc [of a B] by simp_all
  from main_round [OF Suc.prems(1) w(1)] obtain lc' where lc': "main_step True n (lc, v) =
      Some (if Suc a = m then Inr w else Inl (lc', w))" "Suc a \<noteq> m \<longrightarrow> driver_at True n lc'"
    by (auto split: if_splits)
  show ?case
  proof (cases "Suc a = m")
    case True
    with lc'(1) got(1) show ?thesis by (simp add: run_done [of "main_step True n" "(lc, v)" w])
  next
    case False
    with Suc.prems(6) have a: "Suc a < m" by simp
    have "\<exists>w'. run (main_step True n) (lc', w) = Some w' \<and> received w' = map int [0..<m * B]"
      by (rule Suc.hyps(1) [of "Suc a" lc' w w]) (use Suc.hyps(2) w lc'(2) False a got n in auto)
    with lc'(1) False show ?thesis by (simp add: run_step [of "main_step True n" "(lc, v)" "(lc', w)"])
  qed
qed simp

lemma set_up_zeroed:
  "0 < B \<Longrightarrow> producer_at n B 0 (set_up (zeroed B)) \<and> consumer_at n B 0 (set_up (zeroed B)) \<and> drained B (set_up (zeroed B))"
  by (simp add: producer_at_def consumer_at_def drained_def set_up_def zeroed_def)

text \<open>C22: The producer and consumer example returns, and the consumer has then got all items once and
  in order, without an access outside the buffer and without an overflow of an int, for any number m
  > 0 of full batches of a buffer of any size B > 0 with m * B < 2^31 items in all (the program has
  4 of 8), when the left operand of & in the driver is evaluated first.\<close>

theorem buffer_delivers:
  assumes "0 < m" "0 < B" "m * B < 2 ^ 31"
  shows "\<exists>v. example_main True (int (m * B)) B = Some v \<and> received v = map int [0..<m * B]"
  unfolding example_main_def
  by (rule main_left [where a = 0 and u = "set_up (zeroed B)"])
    (use assms set_up_zeroed batches_int in \<open>auto simp: batches_def received_def set_up_def zeroed_def\<close>)

theorem buffer_delivers_witness:
  "\<exists>v. example_main True 32 8 = Some v \<and> received v = map int [0..<32]"
  using buffer_delivers [of 4 8] by simp

text \<open>C40: With the other evaluation order, which C permits for producer(..) & consumer(..), the example
  with at least two batches goes on and on: after every number k of calls of driver_thread, as long
  as the item numbers fit an int, every access was inside the buffer, main is still in its loop, and
  k batches of items have been produced, however many were asked for. The consumer ends one round
  after the producer, which starts again when it is called after its end.\<close>

theorem buffer_order_matters:
  assumes "1 < m" "0 < B" "m * B < 2 ^ 31" "k * B < 2 ^ 31"
  shows "\<exists>lc v. steps (main_step False (int (m * B))) k (0, zeroed B) = Some (Inl (lc, v)) \<and> item v = int (k * B)"
proof (cases k)
  case 0
  then show ?thesis by (simp add: zeroed_def)
next
  case (Suc j)
  define n where "n = int (m * B)"
  have n: "n = batches m B" "n > 0" "n < 2 ^ 31"
    using assms(1,2) batches_int [OF assms(3)] by (simp_all add: n_def batches_def)
  let ?u = "set_up (zeroed B)"
  have e: "sem_count (empty ?u) = 0" by (simp add: set_up_def)
  note up = set_up_zeroed [OF assms(2), of n]
  from consume_none [OF _ n(2) e] up obtain lc where
    c: "call_consumer n ?u = Some (PT_WAITING, ?u\<lparr>consumed := 0, pt_consumer := lc\<rparr>)"
    "consumer_at n B 0 (?u\<lparr>consumed := 0, pt_consumer := lc\<rparr>)" by blast
  let ?w = "?u\<lparr>consumed := 0, pt_consumer := lc\<rparr>"
  have w0: "producer_at n B 0 ?w" "drained B ?w" "item ?w = 0"
    using up at_cong(1) [of ?w ?u] by (auto simp: drained_def set_up_def zeroed_def)
  have "B < 2 ^ 31" using batches_bound [OF n(1) _ assms(2) n(3), of 0] assms(1) by simp
  then have "item ?w + int B < 2 ^ 31" unfolding w0(3) by simp
  from produce_call [OF w0(1) c(2) w0(2) this n(1) _ assms(2) n(3)] assms(1) obtain w where
    w: "call_producer n ?w = Some (PT_WAITING, w)" "producer_at n B (Suc 0 mod m) w" "consumer_at n B 0 w" "filled B w"
      "item w = int B" unfolding w0(3) by auto
  have "both False n ?u = Some (PT_WAITING, w)" using c(1) w(1) by (simp add: both_def)
  from main_round [OF _ this, of 0 "zeroed B"] obtain lc' where
    first: "main_step False n (0, zeroed B) = Some (Inl (lc', w))" "driver_at False n lc'" by auto
  have "Suc i * B < 2 ^ 31 \<Longrightarrow> \<exists>lc v a. steps (main_step False n) (Suc i) (0, zeroed B) = Some (Inl (lc, v)) \<and> driver_at False n lc \<and>
      a < m \<and> producer_at n B (Suc a mod m) v \<and> consumer_at n B a v \<and> filled B v \<and> item v = int (Suc i * B)" for i
  proof (induction i)
    case 0
    with first w assms(1) show ?case by (intro exI [of _ lc'] exI [of _ w] exI [of _ 0]) simp
  next
    case (Suc i)
    then obtain lc v a where at: "steps (main_step False n) (Suc i) (0, zeroed B) = Some (Inl (lc, v))" "driver_at False n lc"
      "a < m" "producer_at n B (Suc a mod m) v" "consumer_at n B a v" "filled B v" "item v = int (Suc i * B)" by auto
    have next_item: "int (Suc i * B) + int B = int (Suc (Suc i) * B)" by simp
    have "int (Suc (Suc i) * B) < 2 ^ 31" using batches_int [OF Suc.prems] by (simp only: batches_def)
    then have "item v + int B < 2 ^ 31" unfolding at(7) next_item .
    from round_right [OF at(4-6) this n(1) at(3) assms(1,2) n(3)] obtain u where
      u: "both False n v = Some (PT_WAITING, u)" "producer_at n B (Suc (Suc a mod m) mod m) u"
      "consumer_at n B (Suc a mod m) u" "filled B u" "item u = item v + int B" by blast
    from main_round [OF _ u(1), of lc v] at(2) obtain lc' where
      lc': "main_step False n (lc, v) = Some (Inl (lc', u))" "driver_at False n lc'" by auto
    have "steps (main_step False n) (Suc i + 1) (0, zeroed B) = Some (Inl (lc', u))"
      unfolding steps_add [OF at(1)] using lc'(1) by simp
    moreover have "Suc a mod m < m" using assms(1) by simp
    moreover have "item u = int (Suc (Suc i) * B)" unfolding u(5) at(7) next_item ..
    ultimately show ?case using u lc'(2)
      by (intro exI [of _ lc'] exI [of _ u] exI [of _ "Suc a mod m"]) simp
  qed
  from this [of j] assms(4) Suc show ?thesis unfolding n_def by blast
qed

theorem buffer_order_matters_witness:
  "\<exists>lc v. steps (main_step False 32) 1000 (0, zeroed 8) = Some (Inl (lc, v)) \<and> item v = 8000"
  using buffer_order_matters [of 4 8 1000] by simp

text \<open>Both threads use one index, so the example is right only when the items come in full batches.\<close>

theorem buffer_index_is_shared: "map_option received (example_main True 3 2) = Some [0, 1, 1]"
  by (simp add: example_main_def zeroed_def main_step_def driver_thread_def both_def call_producer_def call_consumer_def
    producer_def consumer_def c_run buffer_ops negated_def PT_SCHEDULE_def in_buffer_def
    PT_WAIT_WHILE_def PT_WAIT_THREAD_def received_def)

end
