(* ===== verification/Mx_Codelock.thy ===== *)
theory Mx_Codelock
  imports Mx_Protothread
begin

text \<open>
  The code lock of \<open>doc/pthread/example-codelock.c\<close>: a protothread that reads keys with timeouts, one
  that presses keys, and the loop that runs them. The environment of the lock is any sequence of key
  presses between its calls and any clock that does not go back. \<open>go_\<close>\<dots> say what a call does
  from each place where the lock waits; \<open>lock_inv\<close> says what has been printed at each of them.
\<close>

section \<open>The program\<close>

datatype lock_print = Pressed char | Timer_expired | Incorrect char | Correct char | Code_entered | Locked_again | Unlocked

record ms_timer =
  start :: int
  interval :: int

text \<open>The prints of the lock and the key presses are in \<open>log\<close>. \<open>times i\<close> is what the \<open>i\<close>-th call of \<open>clock_time\<close> returns; \<open>reads\<close> counts the calls.\<close>

record codelock =
  times :: "nat \<Rightarrow> int"
  reads :: nat
  codelock_timer :: ms_timer
  input_timer :: ms_timer
  key :: char
  key_pressed_flag :: int
  keys :: nat
  log :: "lock_print list"
  said_waiting :: nat

definition code :: string where "code = ''1423''"

definition clock_time :: "codelock \<Rightarrow> int \<times> codelock" where
  "clock_time v = (times v (reads v), v\<lparr>reads := reads v + 1\<rparr>)"

definition timer_expired_ms :: "(codelock \<Rightarrow> ms_timer) \<Rightarrow> codelock test" where
  "timer_expired_ms t v = (case clock_time v of (now, v) \<Rightarrow> Some (now - start (t v) \<ge> interval (t v), v))"

definition timer_set_ms :: "((ms_timer \<Rightarrow> ms_timer) \<Rightarrow> codelock \<Rightarrow> codelock) \<Rightarrow> int \<Rightarrow> codelock \<Rightarrow> codelock" where
  "timer_set_ms upd i v = (case clock_time v of (now, v) \<Rightarrow> upd (\<lambda>t. t\<lparr>interval := i, start := now\<rparr>) v)"

definition say :: "lock_print \<Rightarrow> codelock \<Rightarrow> codelock" where
  "say x v = v\<lparr>log := log v @ [x]\<rparr>"

definition press_key :: "char \<Rightarrow> codelock \<Rightarrow> codelock" where
  "press_key k v = say (Pressed k) v\<lparr>key := k, key_pressed_flag := 1\<rparr>"

definition key_pressed :: "codelock test" where
  "key_pressed v = (if key_pressed_flag v \<noteq> 0 then Some (True, v\<lparr>key_pressed_flag := 0\<rparr>) else Some (False, v))"

definition key_or_timeout :: "codelock test" where
  "key_or_timeout v = (case key_pressed v of None \<Rightarrow> None
     | Some (b, v) \<Rightarrow> if b then Some (True, v) else timer_expired_ms codelock_timer v)"

abbreviation tell :: "lock_print \<Rightarrow> codelock thread" where
  "tell x \<equiv> Act (\<lambda>v. Some (say x v))"

definition read_key :: "codelock thread" where
  "read_key = Alt (\<lambda>v. Some (keys v = 0, v)) (Wait_until 163 key_pressed)
     (Thn (Act (\<lambda>v. Some (timer_set_ms codelock_timer_update 1000 v)))
       (Thn (Wait_until 180 key_or_timeout)
         (Alt (timer_expired_ms codelock_timer) (Thn (tell Timer_expired) Leave) (Act Some))))"

definition check_key :: "codelock thread" where
  "check_key = Alt (\<lambda>v. Some (key v \<noteq> code ! keys v, v))
     (Thn (Act (\<lambda>v. Some (say (Incorrect (key v)) v))) Leave) (Act (\<lambda>v. Some (say (Correct (key v)) v)))"

definition read_code :: "codelock thread" where
  "read_code = Loop (\<lambda>v. Some (keys v < length code, v)) (\<lambda>v. Some (v\<lparr>keys := keys v + 1\<rparr>)) (Thn read_key check_key)"

definition check_code :: "codelock thread" where
  "check_code = Alt (\<lambda>v. Some (keys v = length code, v))
     (Thn (tell Code_entered) (Thn (Act (\<lambda>v. Some (timer_set_ms codelock_timer_update 500 v)))
       (Thn (Wait_until 228 key_or_timeout)
         (Alt (negated (timer_expired_ms codelock_timer)) (tell Locked_again) (Thn (tell Unlocked) Exit)))))
     (Act Some)"

definition codelock_thread :: "codelock thread" where
  "codelock_thread = Loop (\<lambda>v. Some (True, v)) Some (Thn (Act (\<lambda>v. Some (v\<lparr>keys := 0\<rparr>))) (Thn read_code check_code))"

text \<open>The other thread presses keys; the table has the line of the wait, the time and the key.\<close>

definition pause :: "nat \<Rightarrow> int \<Rightarrow> codelock thread" where
  "pause l ms = Thn (Act (\<lambda>v. Some (timer_set_ms input_timer_update ms v))) (Wait_until l (timer_expired_ms input_timer))"

fun type_keys :: "(nat \<times> int \<times> char) list \<Rightarrow> codelock thread" where
  "type_keys [] = pause 348 2000"
| "type_keys ((l, ms, k) # xs) = Thn (Thn (pause l ms) (Act (\<lambda>v. Some (press_key k v)))) (type_keys xs)"

definition input_thread :: "codelock thread" where
  "input_thread = Thn (Act (\<lambda>v. Some (v\<lparr>said_waiting := said_waiting v + 1\<rparr>))) (type_keys
     [(268, 1000, CHR ''1''), (273, 100, CHR ''2''), (278, 100, CHR ''3''), (283, 2000, CHR ''1''),
      (288, 200, CHR ''4''), (293, 200, CHR ''2''), (298, 2000, CHR ''3''), (303, 200, CHR ''1''),
      (308, 200, CHR ''4''), (313, 200, CHR ''2''), (318, 100, CHR ''3''), (323, 100, CHR ''4''),
      (328, 1500, CHR ''1''), (333, 300, CHR ''4''), (338, 400, CHR ''2''), (343, 500, CHR ''3'')])"

definition codelock_main_step :: "(lc_t \<times> lc_t \<times> codelock, codelock) machine" where
  "codelock_main_step = (\<lambda>(codelock_pt, input_pt, v). case PT_THREAD (expand codelock_thread) codelock_pt v of None \<Rightarrow> None
     | Some (r, codelock_pt, v) \<Rightarrow> if \<not> r < PT_EXITED then Some (Inr v)
       else (case PT_THREAD (expand input_thread) input_pt v of None \<Rightarrow> None
         | Some (_, input_pt, v) \<Rightarrow> Some (Inl (codelock_pt, input_pt, v))))"

definition codelock_main :: "codelock \<Rightarrow> codelock option" where
  "codelock_main v = run codelock_main_step (0, 0, v)"

section \<open>A call of the lock\<close>

text \<open>What is left to do at the three waits.\<close>

definition round :: "codelock thread" where
  "round = Thn (Act (\<lambda>v. Some (v\<lparr>keys := 0\<rparr>))) (Thn read_code check_code)"

definition outer :: "codelock task list" where
  "outer = [Again (\<lambda>v. Some (True, v)) Some round]"

definition inner :: "codelock task list" where
  "inner = Again (\<lambda>v. Some (keys v < length code, v)) (\<lambda>v. Some (v\<lparr>keys := keys v + 1\<rparr>)) (Thn read_key check_key) #
     Todo check_code # outer"

definition wait_first :: "codelock task list" where
  "wait_first = Todo (Wait_until 163 key_pressed) # Todo check_key # inner"

definition wait_next :: "codelock task list" where
  "wait_next = Todo (Wait_until 180 key_or_timeout) #
     Todo (Alt (timer_expired_ms codelock_timer) (Thn (tell Timer_expired) Leave) (Act Some)) # Todo check_key # inner"

definition wait_open :: "codelock task list" where
  "wait_open = Todo (Wait_until 228 key_or_timeout) #
     Todo (Alt (negated (timer_expired_ms codelock_timer)) (tell Locked_again) (Thn (tell Unlocked) Exit)) # outer"

abbreviation go :: "codelock task list \<Rightarrow> codelock \<Rightarrow> (int \<times> codelock task list \<times> codelock) option" where
  "go k v \<equiv> run (co_step codelock_thread) (k, v)"

definition expired :: "codelock \<Rightarrow> bool" where
  "expired v \<longleftrightarrow> times v (reads v) - start (codelock_timer v) \<ge> interval (codelock_timer v)"

abbreviation tick :: "codelock \<Rightarrow> codelock" where
  "tick v \<equiv> v\<lparr>reads := Suc (reads v)\<rparr>"

definition arm :: "int \<Rightarrow> codelock \<Rightarrow> codelock" where
  "arm i v = timer_set_ms codelock_timer_update i v"

lemma timer_expired_eq: "timer_expired_ms codelock_timer v = Some (expired v, tick v)"
  by (simp add: timer_expired_ms_def clock_time_def expired_def)

lemma key_or_timeout_eq: "key_or_timeout v =
    (if key_pressed_flag v \<noteq> 0 then Some (True, v\<lparr>key_pressed_flag := 0\<rparr>) else Some (expired v, tick v))"
  by (simp add: key_or_timeout_def key_pressed_def timer_expired_eq)

lemmas lock_conts = wait_first_def wait_next_def wait_open_def inner_def outer_def round_def
lemmas lock_body = codelock_thread_def read_code_def check_code_def read_key_def check_key_def

lemma go_top: "go [Todo codelock_thread] v = go (Todo read_code # Todo check_code # outer) (v\<lparr>keys := 0\<rparr>)"
  and go_outer: "go outer v = go [Todo codelock_thread] v"
proof -
  show "go [Todo codelock_thread] v = go (Todo read_code # Todo check_code # outer) (v\<lparr>keys := 0\<rparr>)"
    by (rule run_steps [where n = 4]) (simp add: codelock_thread_def outer_def round_def steps_numeral)
  show "go outer v = go [Todo codelock_thread] v"
    by (rule run_steps [where n = 1]) (simp add: codelock_thread_def outer_def round_def)
qed

lemma go_read_code:
  "keys v = 0 \<Longrightarrow> go (Todo read_code # Todo check_code # outer) v = go wait_first v"
  "0 < keys v \<Longrightarrow> keys v < length code \<Longrightarrow> go (Todo read_code # Todo check_code # outer) v = go wait_next (arm 1000 v)"
  "keys v = length code \<Longrightarrow> go (Todo read_code # Todo check_code # outer) v = go wait_open (arm 500 (say Code_entered v))"
proof -
  show "go (Todo read_code # Todo check_code # outer) v = go wait_first v" if "keys v = 0"
    by (rule run_steps [where n = 3])
      (use that in \<open>simp add: read_code_def read_key_def wait_first_def inner_def steps_numeral code_def\<close>)
  show "go (Todo read_code # Todo check_code # outer) v = go wait_next (arm 1000 v)" if "0 < keys v" "keys v < length code"
    by (rule run_steps [where n = 6])
      (use that in \<open>simp add: read_code_def read_key_def wait_next_def inner_def steps_numeral arm_def\<close>)
  show "go (Todo read_code # Todo check_code # outer) v = go wait_open (arm 500 (say Code_entered v))"
    if "keys v = length code"
    by (rule run_steps [where n = 7])
      (use that in \<open>simp add: read_code_def check_code_def wait_open_def steps_numeral arm_def say_def timer_set_ms_def clock_time_def\<close>)
qed

lemma go_no_code: "keys v < length code \<Longrightarrow> go (Todo check_code # outer) v = go [Todo codelock_thread] v"
proof -
  assume k: "keys v < length code"
  have "go (Todo check_code # outer) v = go outer v"
    by (rule run_steps [where n = 2]) (use k in \<open>simp add: check_code_def steps_numeral\<close>)
  then show ?thesis by (simp add: go_outer)
qed

lemma go_check:
  assumes "keys v < length code"
  shows "key v \<noteq> code ! keys v \<Longrightarrow> go (Todo check_key # inner) v = go [Todo codelock_thread] (say (Incorrect (key v)) v)"
    and "key v = code ! keys v \<Longrightarrow> go (Todo check_key # inner) v =
      go (Todo read_code # Todo check_code # outer) ((say (Correct (key v)) v)\<lparr>keys := keys v + 1\<rparr>)"
proof -
  assume "key v \<noteq> code ! keys v"
  then have "go (Todo check_key # inner) v = go (Todo check_code # outer) (say (Incorrect (key v)) v)"
    by (intro run_steps [where n = 4]) (simp add: check_key_def inner_def steps_numeral)
  also have "\<dots> = go [Todo codelock_thread] (say (Incorrect (key v)) v)"
    using assms by (intro go_no_code) (simp add: say_def)
  finally show "go (Todo check_key # inner) v = go [Todo codelock_thread] (say (Incorrect (key v)) v)" .
next
  assume "key v = code ! keys v"
  then show "go (Todo check_key # inner) v =
      go (Todo read_code # Todo check_code # outer) ((say (Correct (key v)) v)\<lparr>keys := keys v + 1\<rparr>)"
    by (intro run_steps [where n = 3]) (simp add: check_key_def inner_def read_code_def steps_numeral say_def)
qed

lemma go_first:
  "key_pressed_flag v = 0 \<Longrightarrow> go wait_first v = Some (PT_WAITING, wait_first, v)"
  "key_pressed_flag v \<noteq> 0 \<Longrightarrow> go wait_first v = go (Todo check_key # inner) (v\<lparr>key_pressed_flag := 0\<rparr>)"
  by (simp_all add: wait_first_def run_step run_done key_pressed_def)

lemma go_next:
  "key_pressed_flag v = 0 \<Longrightarrow> \<not> expired v \<Longrightarrow> go wait_next v = Some (PT_WAITING, wait_next, tick v)"
  "key_pressed_flag v = 0 \<Longrightarrow> expired v \<Longrightarrow> expired (tick v) \<Longrightarrow> keys v < length code \<Longrightarrow>
     go wait_next v = go [Todo codelock_thread] (say Timer_expired (tick (tick v)))"
  "key_pressed_flag v \<noteq> 0 \<Longrightarrow> expired v \<Longrightarrow> keys v < length code \<Longrightarrow>
     go wait_next v = go [Todo codelock_thread] (say Timer_expired (tick (v\<lparr>key_pressed_flag := 0\<rparr>)))"
  "key_pressed_flag v \<noteq> 0 \<Longrightarrow> \<not> expired v \<Longrightarrow>
     go wait_next v = go (Todo check_key # inner) (tick (v\<lparr>key_pressed_flag := 0\<rparr>))"
proof -
  show "key_pressed_flag v = 0 \<Longrightarrow> \<not> expired v \<Longrightarrow> go wait_next v = Some (PT_WAITING, wait_next, tick v)"
    by (simp add: wait_next_def run_done key_or_timeout_eq)
  show "go wait_next v = go [Todo codelock_thread] (say Timer_expired (tick (tick v)))"
    if "key_pressed_flag v = 0" "expired v" "expired (tick v)" "keys v < length code"
  proof -
    have "go wait_next v = go (Todo check_code # outer) (say Timer_expired (tick (tick v)))"
      by (rule run_steps [where n = 5])
        (use that in \<open>simp add: wait_next_def inner_def key_or_timeout_eq timer_expired_eq steps_numeral\<close>)
    then show ?thesis using that by (simp add: go_no_code say_def)
  qed
  show "go wait_next v = go [Todo codelock_thread] (say Timer_expired (tick (v\<lparr>key_pressed_flag := 0\<rparr>)))"
    if "key_pressed_flag v \<noteq> 0" "expired v" "keys v < length code"
  proof -
    have "go wait_next v = go (Todo check_code # outer) (say Timer_expired (tick (v\<lparr>key_pressed_flag := 0\<rparr>)))"
      by (rule run_steps [where n = 5])
        (use that in \<open>simp add: wait_next_def inner_def key_or_timeout_eq timer_expired_eq steps_numeral expired_def\<close>)
    then show ?thesis using that by (simp add: go_no_code say_def)
  qed
  show "go wait_next v = go (Todo check_key # inner) (tick (v\<lparr>key_pressed_flag := 0\<rparr>))"
    if "key_pressed_flag v \<noteq> 0" "\<not> expired v"
    by (rule run_steps [where n = 3])
      (use that in \<open>simp add: wait_next_def key_or_timeout_eq timer_expired_eq steps_numeral expired_def\<close>)
qed

lemma go_open:
  "key_pressed_flag v = 0 \<Longrightarrow> \<not> expired v \<Longrightarrow> go wait_open v = Some (PT_WAITING, wait_open, tick v)"
  "key_pressed_flag v = 0 \<Longrightarrow> expired v \<Longrightarrow> expired (tick v) \<Longrightarrow>
     go wait_open v = Some (PT_EXITED, [Todo codelock_thread], say Unlocked (tick (tick v)))"
  "key_pressed_flag v \<noteq> 0 \<Longrightarrow> expired v \<Longrightarrow>
     go wait_open v = Some (PT_EXITED, [Todo codelock_thread], say Unlocked (tick (v\<lparr>key_pressed_flag := 0\<rparr>)))"
  "key_pressed_flag v \<noteq> 0 \<Longrightarrow> \<not> expired v \<Longrightarrow>
     go wait_open v = go [Todo codelock_thread] (say Locked_again (tick (v\<lparr>key_pressed_flag := 0\<rparr>)))"
proof -
  show "key_pressed_flag v = 0 \<Longrightarrow> \<not> expired v \<Longrightarrow> go wait_open v = Some (PT_WAITING, wait_open, tick v)"
    by (simp add: wait_open_def run_done key_or_timeout_eq)
  show "go wait_open v = Some (PT_EXITED, [Todo codelock_thread], say Unlocked (tick (tick v)))"
    if "key_pressed_flag v = 0" "expired v" "expired (tick v)"
    by (rule run_steps_done [where n = 5])
      (use that in \<open>simp add: wait_open_def key_or_timeout_eq timer_expired_eq steps_numeral negated_def\<close>)
  show "go wait_open v = Some (PT_EXITED, [Todo codelock_thread], say Unlocked (tick (v\<lparr>key_pressed_flag := 0\<rparr>)))"
    if "key_pressed_flag v \<noteq> 0" "expired v"
    by (rule run_steps_done [where n = 5])
      (use that in \<open>simp add: wait_open_def key_or_timeout_eq timer_expired_eq steps_numeral negated_def expired_def\<close>)
  show "go wait_open v = go [Todo codelock_thread] (say Locked_again (tick (v\<lparr>key_pressed_flag := 0\<rparr>)))"
    if "key_pressed_flag v \<noteq> 0" "\<not> expired v"
  proof -
    have "go wait_open v = go outer (say Locked_again (tick (v\<lparr>key_pressed_flag := 0\<rparr>)))"
      by (rule run_steps [where n = 3])
        (use that in \<open>simp add: wait_open_def key_or_timeout_eq timer_expired_eq steps_numeral negated_def expired_def\<close>)
    then show ?thesis by (simp add: go_outer)
  qed
qed

section \<open>The lock opens only after the code\<close>

definition presses :: "lock_print list \<Rightarrow> bool" where
  "presses xs \<longleftrightarrow> list_all (\<lambda>x. \<exists>k. x = Pressed k) xs"

text \<open>The last prints are those of entering the first \<open>i\<close> keys of the code: each is pressed, and read
  before another key is pressed.\<close>

primrec entry :: "nat \<Rightarrow> lock_print list \<Rightarrow> bool" where
  "entry 0 xs \<longleftrightarrow> True"
| "entry (Suc i) xs \<longleftrightarrow> (\<exists>ys ps. xs = ys @ [Pressed (code ! i), Correct (code ! i)] @ ps \<and> presses ps \<and> entry i ys)"

definition confirming :: "lock_print list \<Rightarrow> bool" where
  "confirming xs \<longleftrightarrow> (\<exists>ys ps. xs = ys @ Code_entered # ps \<and> presses ps \<and> entry (length code) ys)"

definition opened :: "lock_print list \<Rightarrow> bool" where
  "opened xs \<longleftrightarrow> (\<exists>ys. xs = ys @ [Unlocked] \<and> confirming ys)"

definition pressable :: "(lock_print list \<Rightarrow> bool) \<Rightarrow> bool" where
  "pressable P \<longleftrightarrow> (\<forall>xs k. P xs \<longrightarrow> P (xs @ [Pressed k]))"

lemma presses_simps [simp]: "presses []" "presses (xs @ ys) \<longleftrightarrow> presses xs \<and> presses ys" "presses [Pressed k]"
  by (simp_all add: presses_def)

lemma pressable_entry: "pressable (entry i)"
proof (cases i)
  case (Suc j)
  have "entry i (xs @ [Pressed k])" if "entry i xs" for xs k
  proof -
    from that Suc obtain ys ps where "xs = ys @ [Pressed (code ! j), Correct (code ! j)] @ ps" "presses ps" "entry j ys" by auto
    then have "xs @ [Pressed k] = ys @ [Pressed (code ! j), Correct (code ! j)] @ (ps @ [Pressed k])" "presses (ps @ [Pressed k])"
      by simp_all
    with Suc \<open>entry j ys\<close> show ?thesis unfolding Suc entry.simps by blast
  qed
  then show ?thesis by (simp add: pressable_def)
qed (simp add: pressable_def)

lemma pressable_confirming: "pressable confirming"
proof -
  have "confirming (xs @ [Pressed k])" if "confirming xs" for xs k
  proof -
    from that obtain ys ps where "xs = ys @ Code_entered # ps" "presses ps" "entry (length code) ys"
      by (auto simp: confirming_def)
    then have "xs @ [Pressed k] = ys @ Code_entered # (ps @ [Pressed k])" "presses (ps @ [Pressed k])" by simp_all
    with \<open>entry (length code) ys\<close> show ?thesis unfolding confirming_def by blast
  qed
  then show ?thesis by (simp add: pressable_def)
qed

text \<open>Whether a key press is still to be read; if so, it is the last print.\<close>

definition fresh :: "(lock_print list \<Rightarrow> bool) \<Rightarrow> codelock \<Rightarrow> bool" where
  "fresh P v \<longleftrightarrow> (if key_pressed_flag v = 0 then P (log v) else \<exists>xs. log v = xs @ [Pressed (key v)] \<and> P xs)"

lemma wait_first_not_start [simp]: "[Todo codelock_thread] \<noteq> wait_first" "wait_first \<noteq> [Todo codelock_thread]"
  by (simp_all add: wait_first_def)

lemma fresh_press: "pressable P \<Longrightarrow> fresh P v \<Longrightarrow> fresh P (press_key k v)"
  by (auto simp: fresh_def press_key_def say_def pressable_def split: if_splits)

lemma fresh_log: "pressable P \<Longrightarrow> fresh P v \<Longrightarrow> P (log v)"
  by (auto simp: fresh_def pressable_def split: if_splits)

definition lock_inv :: "codelock task list \<Rightarrow> codelock \<Rightarrow> bool" where
  "lock_inv k v \<longleftrightarrow> k \<in> {[Todo codelock_thread], wait_first} \<and> (k = wait_first \<longrightarrow> keys v = 0) \<and> fresh (entry 0) v \<or>
     k = wait_next \<and> 0 < keys v \<and> keys v < length code \<and> fresh (entry (keys v)) v \<or>
     k = wait_open \<and> keys v = length code \<and> fresh confirming v"

definition lock_call_ok :: "(nat \<Rightarrow> int) \<Rightarrow> (int \<times> codelock task list \<times> codelock) option \<Rightarrow> bool" where
  "lock_call_ok ts x \<longleftrightarrow> (\<exists>r k v. x = Some (r, k, v) \<and> lock_inv k v \<and> times v = ts \<and>
     (r = PT_WAITING \<or> r = PT_EXITED \<and> opened (log v)))"

lemma lock_call_ok_Some [simp]: "lock_call_ok ts (Some (r, k, v)) \<longleftrightarrow> lock_inv k v \<and> times v = ts \<and>
    (r = PT_WAITING \<or> r = PT_EXITED \<and> opened (log v))"
  by (simp add: lock_call_ok_def)

lemma expired_tick: "mono (times v) \<Longrightarrow> expired v \<Longrightarrow> expired (tick v)"
  by (force simp: expired_def dest: monoD [of _ "reads v" "Suc (reads v)"])

lemma arm_simps [simp]:
  "key_pressed_flag (arm i v) = key_pressed_flag v" "log (arm i v) = log v" "keys (arm i v) = keys v"
  "times (arm i v) = times v" "key (arm i v) = key v"
  by (simp_all add: arm_def timer_set_ms_def clock_time_def)

lemma say_simps [simp]:
  "key_pressed_flag (say x v) = key_pressed_flag v" "log (say x v) = log v @ [x]" "keys (say x v) = keys v"
  "times (say x v) = times v" "key (say x v) = key v"
  by (simp_all add: say_def)

lemma ok_top: "key_pressed_flag v = 0 \<Longrightarrow> lock_call_ok (times v) (go [Todo codelock_thread] v)"
  by (simp add: go_top go_read_code(1) go_first(1) lock_inv_def fresh_def)

lemma ok_next:
  assumes "mono (times v)" "key_pressed_flag v = 0" "0 < keys v" "keys v < length code" "entry (keys v) (log v)"
  shows "lock_call_ok (times v) (go wait_next v)"
proof (cases "expired v")
  case True
  with assms show ?thesis
    using ok_top [of "say Timer_expired (tick (tick v))"] by (simp add: go_next(2) expired_tick)
next
  case False
  with assms show ?thesis by (simp add: go_next(1) lock_inv_def fresh_def)
qed

lemma ok_open:
  assumes "mono (times v)" "key_pressed_flag v = 0" "keys v = length code" "confirming (log v)"
  shows "lock_call_ok (times v) (go wait_open v)"
proof (cases "expired v")
  case True
  with assms show ?thesis
    by (simp add: go_open(2) expired_tick lock_inv_def fresh_def opened_def)
next
  case False
  with assms show ?thesis by (simp add: go_open(1) lock_inv_def fresh_def)
qed

lemma ok_read:
  assumes "mono (times v)" "key_pressed_flag v = 0" "0 < keys v" "keys v \<le> length code" "entry (keys v) (log v)"
  shows "lock_call_ok (times v) (go (Todo read_code # Todo check_code # outer) v)"
proof (cases "keys v = length code")
  case True
  have "confirming (log v @ [Code_entered])"
    unfolding confirming_def by (rule exI [of _ "log v"], rule exI [of _ "[]"]) (use assms True in simp)
  with True assms ok_open [of "arm 500 (say Code_entered v)"] show ?thesis by (simp add: go_read_code(3))
next
  case False
  with assms ok_next [of "arm 1000 v"] show ?thesis by (simp add: go_read_code(2))
qed

lemma ok_check:
  assumes "mono (times v)" "key_pressed_flag v = 0" "keys v < length code" "log v = xs @ [Pressed (key v)]" "entry (keys v) xs"
  shows "lock_call_ok (times v) (go (Todo check_key # inner) v)"
proof (cases "key v = code ! keys v")
  case True
  have "entry (Suc (keys v)) (log v @ [Correct (key v)])"
    unfolding entry.simps by (rule exI [of _ xs], rule exI [of _ "[]"]) (use assms True in simp)
  with True assms ok_read [of "(say (Correct (key v)) v)\<lparr>keys := keys v + 1\<rparr>"] show ?thesis
    by (simp add: go_check(2))
next
  case False
  with assms ok_top [of "say (Incorrect (key v)) v"] show ?thesis by (simp add: go_check(1))
qed

lemma ok_first: "mono (times v) \<Longrightarrow> keys v = 0 \<Longrightarrow> fresh (entry 0) v \<Longrightarrow> lock_call_ok (times v) (go wait_first v)"
  using ok_check [of "v\<lparr>key_pressed_flag := 0\<rparr>"]
  by (cases "key_pressed_flag v = 0") (auto simp: go_first fresh_def lock_inv_def code_def simp del: entry.simps(2))

lemma lock_call:
  assumes "mono (times v)" and inv: "lock_inv k v"
  shows "lock_call_ok (times v) (coroutine codelock_thread k v)"
proof -
  consider (start) "k = [Todo codelock_thread]" "fresh (entry 0) v" | (first) "k = wait_first" "keys v = 0" "fresh (entry 0) v"
    | (nxt) "k = wait_next" "0 < keys v" "keys v < length code" "fresh (entry (keys v)) v"
    | (open') "k = wait_open" "keys v = length code" "fresh confirming v"
    using inv by (auto simp: lock_inv_def)
  then have "lock_call_ok (times v) (go k v)"
  proof cases
    case start
    have "fresh (entry 0) (v\<lparr>keys := 0\<rparr>)" using start(2) by (auto simp: fresh_def split: if_splits)
    with start(1) assms(1) ok_first [of "v\<lparr>keys := 0\<rparr>"] show ?thesis by (simp add: go_top go_read_code(1))
  next
    case first
    with assms(1) ok_first show ?thesis by simp
  next
    case nxt
    with assms(1) ok_next [of v] ok_top [of "say Timer_expired (tick (v\<lparr>key_pressed_flag := 0\<rparr>))"]
      ok_check [of "tick (v\<lparr>key_pressed_flag := 0\<rparr>)"] show ?thesis
      by (cases "key_pressed_flag v = 0"; cases "expired v") (auto simp: go_next(3,4) fresh_def)
  next
    case open'
    show ?thesis
    proof (cases "key_pressed_flag v = 0")
      case True
      with open' assms(1) ok_open [of v] show ?thesis by (simp add: fresh_def)
    next
      case False
      have c: "confirming (log v)" using fresh_log [OF pressable_confirming] open' by simp
      show ?thesis
      proof (cases "expired v")
        case True
        with False open' c show ?thesis
          by (simp add: go_open(3) lock_inv_def fresh_def opened_def)
      next
        case not_expired: False
        with False open' ok_top [of "say Locked_again (tick (v\<lparr>key_pressed_flag := 0\<rparr>))"] show ?thesis
          by (simp add: go_open(4))
      qed
    qed
  qed
  then show ?thesis by (simp add: coroutine_def)
qed

text \<open>Between two calls keys are pressed and time passes.\<close>

definition press_keys :: "string \<Rightarrow> codelock \<Rightarrow> codelock" where
  "press_keys ks = fold press_key ks"

lemma press_keys_inv: "lock_inv k v \<Longrightarrow> lock_inv k (press_keys ks v) \<and> times (press_keys ks v) = times v"
proof (induction ks arbitrary: v)
  case (Cons c cs)
  have "keys (press_key c v) = keys v" "times (press_key c v) = times v" by (simp_all add: press_key_def say_def)
  with Cons.prems have "lock_inv k (press_key c v)"
    using fresh_press [OF pressable_entry, of _ v c] fresh_press [OF pressable_confirming, of v c]
    by (auto simp: lock_inv_def)
  from Cons.IH [OF this] \<open>times (press_key c v) = times v\<close> show ?case by (simp add: press_keys_def)
qed (simp add: press_keys_def)

lemma codelock_labels: "well_labelled codelock_thread"
  by (simp add: well_labelled_def lock_body)

definition lock_result :: "int \<times> codelock \<Rightarrow> bool" where
  "lock_result x \<longleftrightarrow> fst x = PT_WAITING \<or> fst x = PT_EXITED \<and> opened (log (snd x))"

lemma codelock_calls:
  "mono (times v) \<Longrightarrow> lock_inv k v \<Longrightarrow>
    \<exists>rs. co_calls codelock_thread (map press_keys kss) k v = Some rs \<and> length rs = length kss \<and> list_all lock_result rs"
proof (induction kss arbitrary: k v)
  case (Cons ks kss)
  let ?v = "press_keys ks v"
  have v: "lock_inv k ?v" "times ?v = times v" using press_keys_inv [OF Cons.prems(2)] by auto
  from lock_call [OF _ v(1)] v(2) Cons.prems(1) obtain r k' w where
    w: "coroutine codelock_thread k ?v = Some (r, k', w)" "lock_inv k' w" "times w = times v" "lock_result (r, w)"
    by (auto simp: lock_call_ok_def lock_result_def)
  from Cons.IH [OF _ w(2)] w(3) Cons.prems(1) obtain rs where
    "co_calls codelock_thread (map press_keys kss) k' w = Some rs" "length rs = length kss" "list_all lock_result rs" by auto
  with w show ?case by simp
qed simp

text \<open>C23: The code lock opens only for its code: whatever keys are pressed between the calls and
  however time passes, every call of codelock_thread returns, and it returns PT_EXITED only when the
  prints end with the keys 1, 4, 2, 3, each pressed and then read as correct before another key was
  pressed, the message that the code was entered, and the lock being unlocked. The clock does not go
  back.\<close>

theorem codelock_opens_for_code:
  assumes "mono (times v)" "key_pressed_flag v = 0"
  shows "\<exists>rs. pt_calls (expand codelock_thread) (map press_keys kss) 0 v = Some rs \<and>
    length rs = length kss \<and> list_all lock_result rs"
proof -
  have "lock_inv [Todo codelock_thread] v" using assms(2) by (simp add: lock_inv_def fresh_def)
  from codelock_calls [OF assms(1) this, of kss] show ?thesis
    using calls_coroutine [OF codelock_labels, of 0 "[Todo codelock_thread]"] by simp
qed

definition new_lock :: "(nat \<Rightarrow> int) \<Rightarrow> codelock" where
  "new_lock ts = \<lparr>times = ts, reads = 0, codelock_timer = \<lparr>start = 0, interval = 0\<rparr>, input_timer = \<lparr>start = 0, interval = 0\<rparr>,
     key = CHR 0x00, key_pressed_flag = 0, keys = 0, log = [], said_waiting = 0\<rparr>"

definition jump :: "nat \<Rightarrow> nat \<Rightarrow> int" where
  "jump n i = (if i < n then 0 else 1000)"

lemma codelock_run: "map_option (\<lambda>rs. fst (last rs)) (co_calls codelock_thread (map press_keys
    [''1'', ''4'', ''2'', ''3'', '''']) [Todo codelock_thread] (new_lock (jump 11))) = Some PT_EXITED"
  by (simp add: co_run lock_body press_keys_def press_key_def say_def new_lock_def jump_def code_def key_pressed_def
    key_or_timeout_def timer_expired_ms_def timer_set_ms_def clock_time_def)

theorem codelock_opens_for_code_witness:
  "\<exists>rs. pt_calls (expand codelock_thread) (map press_keys [''1'', ''4'', ''2'', ''3'', '''']) 0 (new_lock (jump 11)) = Some rs \<and>
    list_all lock_result rs \<and> fst (last rs) = PT_EXITED"
proof -
  have "mono (times (new_lock (jump 11)))" "key_pressed_flag (new_lock (jump 11)) = 0"
    by (simp_all add: new_lock_def jump_def mono_def)
  from codelock_opens_for_code [OF this, of "[''1'', ''4'', ''2'', ''3'', '''']"] show ?thesis
    using codelock_run calls_coroutine [OF codelock_labels, of 0 "[Todo codelock_thread]"
      "map press_keys [''1'', ''4'', ''2'', ''3'', '''']" "new_lock (jump 11)"] by auto
qed

text \<open>A key pressed during the last wait does not keep the lock shut when it is polled late.\<close>

lemma late_key_opens: "map_option (\<lambda>rs. fst (last rs)) (co_calls codelock_thread (map press_keys
    [''1'', ''4'', ''2'', ''3'', ''7'']) [Todo codelock_thread] (new_lock (jump 11))) = Some PT_EXITED"
  by (simp add: co_run lock_body press_keys_def press_key_def say_def new_lock_def jump_def code_def key_pressed_def
    key_or_timeout_def timer_expired_ms_def timer_set_ms_def clock_time_def)

section \<open>The loop of the program\<close>

text \<open>The thread that presses keys preserves what holds of the lock.\<close>

lemma lock_inv_cong:
  assumes "keys w = keys v" "key_pressed_flag w = key_pressed_flag v" "log w = log v" "key w = key v"
  shows "lock_inv k w = lock_inv k v"
  using assms by (simp add: lock_inv_def fresh_def)

definition lock_safe :: "codelock task list \<Rightarrow> codelock \<Rightarrow> bool" where
  "lock_safe k v \<longleftrightarrow> lock_inv k v \<and> mono (times v)"

lemma lock_safe_act: "keys w = keys v \<Longrightarrow> key_pressed_flag w = key_pressed_flag v \<Longrightarrow> log w = log v \<Longrightarrow> key w = key v \<Longrightarrow>
    times w = times v \<Longrightarrow> lock_safe k w = lock_safe k v"
  using lock_inv_cong [of w v k] by (simp add: lock_safe_def)

lemma pause_keeps: "thread_keeps (lock_safe k) (pause l ms)"
  by (auto simp: pause_def act_keeps_def test_keeps_def timer_set_ms_def timer_expired_ms_def clock_time_def
      elim!: lock_safe_act [THEN iffD2, rotated -1])

lemma type_keys_keeps: "thread_keeps (lock_safe k) (type_keys xs)"
proof (induction xs rule: type_keys.induct)
  case (2 l ms c xs)
  have "lock_safe k (press_key c v)" if "lock_safe k v" for v
    using press_keys_inv [of k v "[c]"] that by (simp add: lock_safe_def press_keys_def)
  with 2 show ?case by (simp add: pause_keeps act_keeps_def)
qed (simp add: pause_keeps)

lemma input_keeps: "thread_keeps (lock_safe k) input_thread"
  by (auto simp: input_thread_def act_keeps_def type_keys_keeps simp del: type_keys.simps
      elim!: lock_safe_act [THEN iffD2, rotated -1])

lemma input_labels: "well_labelled input_thread"
  by (simp add: well_labelled_def input_thread_def pause_def)

lemma codelock_main_safe:
  assumes "stands_for codelock_thread codelock_pt k" "lock_inv k v" "mono (times v)"
    and "stands_for input_thread input_pt j" "\<And>k. list_all (task_keeps (lock_safe k)) j"
    and "run codelock_main_step (codelock_pt, input_pt, v) = Some w"
  shows "opened (log w)"
proof -
  have "steps codelock_main_step n (codelock_pt, input_pt, v) = Some (Inr w) \<Longrightarrow> stands_for codelock_thread codelock_pt k \<Longrightarrow>
    lock_safe k v \<Longrightarrow> stands_for input_thread input_pt j \<Longrightarrow> (\<And>k. list_all (task_keeps (lock_safe k)) j) \<Longrightarrow>
    opened (log w)" for n
  proof (induction n arbitrary: codelock_pt k v input_pt j)
    case (Suc n)
    from lock_call [of v k] Suc.prems(3) obtain r k' u where
      u: "coroutine codelock_thread k v = Some (r, k', u)" "lock_safe k' u" "lock_result (r, u)"
      by (auto simp: lock_safe_def lock_call_ok_def lock_result_def)
    from coroutine_call [OF codelock_labels Suc.prems(2) u(1)] obtain pt' where
      pt': "PT_THREAD (expand codelock_thread) codelock_pt v = Some (r, pt', u)" "stands_for codelock_thread pt' k'" by blast
    show ?case
    proof (cases "r < PT_EXITED")
      case False
      with Suc.prems(1) pt'(1) u(3) show ?thesis by (auto simp: codelock_main_step_def lock_result_def)
    next
      case True
      with Suc.prems(1) pt'(1) obtain r2 ip2 x where
        x: "PT_THREAD (expand input_thread) input_pt u = Some (r2, ip2, x)"
        "steps codelock_main_step n (pt', ip2, x) = Some (Inr w)"
        by (auto simp: codelock_main_step_def split: option.splits)
      from thread_call_coroutine [OF input_labels Suc.prems(4), of u] x(1) obtain j' where
        j': "coroutine input_thread j u = Some (r2, j', x)" "stands_for input_thread ip2 j'"
        by (cases rule: option.rel_cases) (auto simp: returns_like_def)
      have "list_all (task_keeps (lock_safe k)) j' \<and> (lock_safe k u \<longrightarrow> lock_safe k x)" for k
        using coroutine_keeps [OF j'(1) input_keeps Suc.prems(5)] .
      with u(2) show ?thesis using Suc.IH [OF x(2) pt'(2) _ j'(2)] by blast
    qed
  qed simp
  with run_some [OF assms(6)] assms show ?thesis by (auto simp: lock_safe_def)
qed

text \<open>When the program ends, the code has been entered.\<close>

lemma codelock_main_opens:
  assumes "mono (times v)" "key_pressed_flag v = 0" "codelock_main v = Some w"
  shows "opened (log w)"
proof (rule codelock_main_safe)
  show "stands_for codelock_thread 0 [Todo codelock_thread]" "stands_for input_thread 0 [Todo input_thread]" by simp_all
  show "lock_inv [Todo codelock_thread] v" using assms(2) by (simp add: lock_inv_def fresh_def)
  show "run codelock_main_step (0, 0, v) = Some w" using assms(3) by (simp add: codelock_main_def)
qed (use assms input_keeps in auto)

end
