(* ===== verification/Spec2Isabelle.thy ===== *)
theory Spec2Isabelle
  imports Mx_Cba Mx_CbaRealloc Mx_CbaValidate Mx_Message Mx_MsgQueue Mx_Timer Mx_System Mx_Locker Mx_Ringbuf Mx_Avg Mx_String Mx_Hsm
    Mx_DartFrame Mx_Dart Mx_DartSafe Mx_DartRx Mx_DartLink Mx_DartRequest Mx_DartSilence
    Mx_Process Mx_Sched Mx_SchedInv Mx_Reentry Mx_Mail Mx_Actors Mx_Senders Mx_ProcTimers
    Mx_Protothread Mx_PtAddrlabels Mx_PtActors Mx_PtExamples Mx_Codelock
begin

text \<open>
  A verification of embedded-mx, a C library for small microcontrollers: a cooperative scheduler with
  messages and timers, hierarchical state machines, the DART link protocol over a UART, and the
  containers and utilities these are made of.

  \<^bold>\<open>The parts and how they interact.\<close> At the bottom is a memory pool (\<open>source/cba.c\<close>): chunks of one
  buffer, allocated in a circle. Messages (\<open>source/core/message-list.c\<close>) are chunks of a pool
  with a link, a private pointer and a length in front; lists of them are intrusive, and the message
  queue (\<open>source/core/message-queue.c\<close>) is one list per priority. The scheduler
  (\<open>source/core/scheduler.c\<close>, behind the functions of \<open>process.c\<close> and \<open>process-timer.c\<close>) has a pool, a
  list of messages, a list of processes and a list of timers, and calls the threads of the
  processes, which call it back. The clock and the timers (\<open>source/timer.c\<close>) also drive the locks
  (\<open>source/lock.c\<close>). The state machines (\<open>source/core/hsm.c\<close>) dispatch events to state handlers of
  the application. The DART engine (\<open>source/core/dart.c\<close>) has a pool and message queue of its own,
  composes and parses frames, and is driven by received bytes and by time.

  \<^bold>\<open>The theories.\<close>
  \<^item> \<open>Mx_Prelude\<close>: machine integers, out-of-range accesses as \<open>None\<close>, list lemmas.
  \<^item> \<open>Mx_Interfaces\<close>: the contracts between the components as locales (allocator, intrusive list).
  \<^item> \<open>Mx_Cba\<close>: \<open>cba.c\<close>. The state is the record \<open>cba\<close> of the indices and of the headers in the buffer;
    \<open>cba_session\<close> are the states a client reaches. \<open>Mx_CbaRealloc\<close>: \<open>cba_realloc\<close>, which resizes the
    newest chunk and may move its data. \<open>Mx_CbaValidate\<close>: the option \<open>CBA_VALIDATION\<close>, with markers in the
    bytes of the chunks and the list of the calls of \<open>cba_report_exception\<close>.
  \<^item> \<open>Mx_Message\<close>, \<open>Mx_MsgQueue\<close>: messages in a heap of addresses, lists, priority queue, and their
    refinement of plain lists.
  \<^item> \<open>Mx_Timer\<close>, \<open>Mx_Locker\<close>: \<open>timer.c\<close>, \<open>lock.c\<close>, at 32 bits. \<open>Mx_System\<close>: the sleeping functions of
    \<open>soc/system.h\<close>, with the tick counter and the wait for an interrupt as parameters.
  \<^item> \<open>Mx_Ringbuf\<close>: \<open>ringbuf.c\<close>, sequentially and interleaved by a producer and a consumer.
  \<^item> \<open>Mx_Avg\<close>, \<open>Mx_String\<close>: \<open>lib/avg.c\<close>, \<open>string.c\<close>.
  \<^item> \<open>Mx_Hsm\<close>: \<open>core/hsm.c\<close> and its refinement of a big-step relation on charts.
  \<^item> \<open>Mx_DartFrame\<close>, \<open>Mx_Dart\<close>, \<open>Mx_DartSafe\<close>: the frame format, the engine, its invariant.
    \<open>Mx_DartRx\<close>, \<open>Mx_DartLink\<close>, \<open>Mx_DartRequest\<close>, \<open>Mx_DartSilence\<close>: the reception of a frame, two engines
    on a noisy line, requests and their responses, and an opponent that does not answer. What the
    engine reads of a message in its pool, and the links of its lists that it follows or writes, are
    checked against the chunk the message lies in.
  \<^item> \<open>Mx_Process\<close>: \<open>scheduler.c\<close>, \<open>process.c\<close>, \<open>process-timer.c\<close>. \<open>Mx_Sched\<close>: locales for relations and
    invariants that every operation of the scheduler keeps, re-entrant calls included. \<open>Mx_SchedInv\<close>,
    \<open>Mx_Reentry\<close>: the list structure, the nesting of thread calls. \<open>Mx_Mail\<close>: the interface of threads
    that exchange messages (the locale \<open>players\<close>) and the refinement of a machine that is a function on
    a pool, a queue of letters and the variables of the application: a letter is accepted exactly if
    the pool has a chunk for it. \<open>Mx_Actors\<close> interprets it for threads that keep nothing between calls. \<open>Mx_Senders\<close>, \<open>Mx_ProcTimers\<close>: sending
    into a full pool, and the handler of the process timers as a machine that fires the expired timers.
  \<^item> \<open>Mx_Protothread\<close>: \<open>pthread/pt.h\<close>, \<open>lc-switch.h\<close>, \<open>pt-sem.h\<close>. C statements with labels, run by a
    machine with a continuation stack; \<open>c_case\<close> is the jump of the switch into the middle of them. The
    macros refine coroutines that keep what is left to do. \<open>Mx_PtActors\<close>: the macros of
    \<open>process.h\<close>; the scheduler and the protothreads together refine coroutines with a queue of letters.
    \<open>Mx_PtAddrlabels\<close>: \<open>lc-addrlabels.h\<close>, which gives the same threads.
    \<open>Mx_PtExamples\<close>, \<open>Mx_Codelock\<close>: the example programs under \<open>doc/pthread\<close>. The counters of
    \<open>example-buffer.c\<close> are integers for which adding one beyond \<open>2^31 - 1\<close> is undefined, so its theorems
    bound the number of items.

  \<^bold>\<open>Conventions.\<close> Definitions have the name of the C function or type. A pointer to a static object or
  a chunk is a number, null is \<open>None\<close>. A function that may read or write out of bounds, dereference
  null, or loop for ever returns an option, and \<open>None\<close> is exactly this; a theorem that a result is
  \<open>Some\<close> therefore says that the code is defined and returns. \<open>uint8_t\<close>, \<open>uint16_t\<close> and \<open>uint32_t\<close> are
  words where the code computes with them, or numbers with the wrap-around written out. Loops whose
  end is not evident are partial functions of the option monad.

  \<^bold>\<open>Bounds and fuel.\<close> Pools have at most 4099 bytes, the range of the 12 bit length in a chunk header;
  beyond it \<open>cba_large_pool_overlap\<close> shows overlapping chunks. Messages have at most 65501 bytes
  where it is assumed, the largest size that with its header fits \<open>uint16_t\<close>. \<open>nested prog n\<close> runs
  threads that call each other to a depth of \<open>n\<close>; the theorems hold for every \<open>n\<close>, and
  \<open>actor_refinement\<close> shows a depth of one to be enough for threads that make no synchronous calls. For
  other threads \<open>None\<close> may also mean that the depth does not suffice: \<open>process_lists_intact\<close> and
  \<open>protothread_never_reentered\<close> are about the runs that return. The clock stands still while a handler
  runs and moves between the operations. The sums of clock steps stay below \<open>2^32\<close> ms where a theorem
  says so.

  \<^bold>\<open>What is not modelled.\<close> The option \<open>CBA_PRINT\<close> of \<open>cba.c\<close> (output), \<open>CBA_VALIDATION\<close> and
  \<open>CBA_REALLOC\<close> together, and message types of two bytes. The contents of the pool outside of
  messages, of \<open>cba_realloc\<close> and of \<open>Mx_CbaValidate\<close>. Unchecked are the reads of a message by the
  application, in a thread of the scheduler and in a callback of the DART engine, the walks of the
  message lists in \<open>Mx_Message\<close>, whose lemmas assume well-formed lists, and so the query
  \<open>dart_is_msg_pending\<close>. More than one scheduler. In the scheduler a thread is a tree of
  steps; \<open>PROCESS_THREAD\<close> makes one of the statements of \<open>Mx_Protothread\<close> for threads whose only calls
  are to send messages, done at the end of the call. The drivers under \<open>include/mx/soc\<close> (the rest is
  declarations), traces and compiler attributes.
\<close>

end
